(* ===== verification/Prelude.thy ===== *)
theory Prelude
  imports Main
begin

text \<open>
  What the component theories of the development share: the result type of operations
  that may abort, the sizes of the C++ program, searching in byte strings as
  \<open>std::string_view\<close> does it, and decimal numerals.

  Failures are values. An \<open>assert\<close> that does not hold (the build of the repository
  does not define \<open>NDEBUG\<close>), an exception that nothing catches, an access outside an
  object and a null dereference are the constructors of \<open>error\<close>; an operation that can
  meet one of them returns \<open>Inl\<close> of it, and \<open>Inr\<close> of its result otherwise.
\<close>

section \<open>Results\<close>

text \<open>Collections: the equations of the operations on channels, and the facts that an operation
  leaves fields of a connection alone.\<close>

named_theorems channel_eqs "what the operations on channels compute"
named_theorems frame_intros "what an operation leaves alone"
named_theorems marks_intros "operations whose errors come from where they are marked"

datatype error =
    AssertFailure   \<comment> \<open>a failed \<open>assert\<close>: the process aborts\<close>
  | LengthError     \<comment> \<open>\<open>std::length_error\<close> out of \<open>std::string\<close>\<close>
  | OutOfBounds     \<comment> \<open>a copy or read past the end of an object\<close>
  | OverlappingCopy \<comment> \<open>\<open>std::copy\<close> into the range it reads from\<close>
  | NullDeref       \<comment> \<open>use of a null pointer\<close>
  | RuntimeError    \<comment> \<open>\<open>std::runtime_error\<close> thrown by the program\<close>
  | UseAfterFree    \<comment> \<open>use of an object whose destructor has run\<close>
  | Terminate       \<comment> \<open>\<open>std::terminate\<close>\<close>
  | UndefinedBehaviour \<comment> \<open>a call whose behaviour the C++ standard leaves undefined\<close>
  | NoReturn        \<comment> \<open>a loop that has not ended after all the answers of the system it is given\<close>

type_synonym 'a result = "error + 'a"

type_synonym bytes = string

definition bindE :: "'a result \<Rightarrow> ('a \<Rightarrow> 'b result) \<Rightarrow> 'b result" where
  "bindE m f = (case m of Inl e \<Rightarrow> Inl e | Inr x \<Rightarrow> f x)"

definition assertE :: "bool \<Rightarrow> unit result" where
  "assertE P = (if P then Inr () else Inl AssertFailure)"

lemma bindE_simps [simp]:
  "bindE (Inl e) f = Inl e"
  "bindE (Inr x) f = f x"
  by (simp_all add: bindE_def)

lemma bindE_eq_Inr: "bindE m f = Inr y \<longleftrightarrow> (\<exists>x. m = Inr x \<and> f x = Inr y)"
  by (cases m) simp_all

lemma bindE_InrE:
  assumes "bindE m f = Inr y"
  obtains x where "m = Inr x" and "f x = Inr y"
  using assms by (auto simp: bindE_eq_Inr)

lemma bindE_cong [fundef_cong]:
  "m = m' \<Longrightarrow> (\<And>x. m' = Inr x \<Longrightarrow> f x = g x) \<Longrightarrow> bindE m f = bindE m' g"
  by (cases m') (auto simp: bindE_def)

lemma bindE_assoc: "bindE (bindE m f) g = bindE m (\<lambda>x. bindE (f x) g)"
  by (cases m) simp_all

lemma assertE_simps [simp]:
  "assertE True = Inr ()"
  "assertE False = Inl AssertFailure"
  "assertE P = Inr u \<longleftrightarrow> P"
  "assertE P = Inl e \<longleftrightarrow> \<not> P \<and> e = AssertFailure"
  by (auto simp: assertE_def)

lemma bindE_assertE: "bindE (assertE P) f = (if P then f () else Inl AssertFailure)"
  by (simp add: assertE_def)

definition is_ok :: "'a result \<Rightarrow> bool" where
  "is_ok r = (case r of Inl _ \<Rightarrow> False | Inr _ \<Rightarrow> True)"

lemma is_ok_simps [simp]: "is_ok (Inr x)" "\<not> is_ok (Inl e)"
  by (simp_all add: is_ok_def)

lemma is_ok_iff: "is_ok r \<longleftrightarrow> (\<exists>x. r = Inr x)"
  by (cases r) simp_all

text \<open>Running an operation for every element of a list stops at the first error.\<close>

fun foldE :: "('a \<Rightarrow> 's \<Rightarrow> 's result) \<Rightarrow> 'a list \<Rightarrow> 's \<Rightarrow> 's result" where
  "foldE f [] s = Inr s"
| "foldE f (x # xs) s = bindE (f x s) (foldE f xs)"

lemma foldE_append: "foldE f (xs @ ys) s = bindE (foldE f xs s) (foldE f ys)"
  by (induction xs arbitrary: s) (simp_all add: bindE_assoc cong: bindE_cong)

lemma bindE_Inr_right [simp]: "bindE m Inr = m"
  by (cases m) simp_all

text \<open>As functions of the state, to bring a chain of operations and a run over a list of them to
  the same form.\<close>

lemma foldE_fun:
  "foldE f [] = Inr"
  "foldE f (x # xs) = (\<lambda>s. bindE (f x s) (foldE f xs))"
  "foldE f (xs @ ys) = (\<lambda>s. bindE (foldE f xs s) (foldE f ys))"
  by (simp_all add: fun_eq_iff foldE_append)

lemma foldE_total:
  "(\<And>x s. \<exists>s'. f x s = Inr s') \<Longrightarrow> \<exists>s'. foldE f xs s = Inr s'"
  by (induction xs arbitrary: s) (auto, metis bindE_simps(2))

text \<open>
  Where an error comes from. To tell the errors of a part of the program from those of another,
  the part's errors are replaced by a mark: when the whole then ends with the mark, whatever mark
  is chosen, it ended with an error of that part. \<open>marks m r r'\<close> says that \<open>r'\<close> is \<open>r\<close>, or that
  \<open>r\<close> is an error and \<open>r'\<close> is the mark.
\<close>

definition marked :: "error \<Rightarrow> 'a result \<Rightarrow> 'a result" where
  "marked m r = (case r of Inl _ \<Rightarrow> Inl m | Inr x \<Rightarrow> Inr x)"

lemma marked_simps [simp]:
  "marked m (Inl e) = Inl m" "marked m (Inr x) = Inr x"
  "marked m r = Inr x \<longleftrightarrow> r = Inr x"
  by (cases r; auto simp: marked_def)+

definition marks :: "error \<Rightarrow> 'a result \<Rightarrow> 'a result \<Rightarrow> bool" where
  "marks m r r' \<longleftrightarrow> r' = r \<or> (\<not> is_ok r \<and> r' = Inl m)"

lemma marks_refl [simp, marks_intros]: "marks m r r"
  by (simp add: marks_def)

lemma marks_marked [simp, marks_intros]: "marks m r (marked m r)"
  by (cases r) (simp_all add: marks_def)

lemma marks_bind [marks_intros]:
  "marks m r r' \<Longrightarrow> (\<And>x. marks m (f x) (f' x)) \<Longrightarrow> marks m (bindE r f) (bindE r' f')"
  by (cases r) (auto simp: marks_def)

lemma marks_if [marks_intros]:
  "marks m r r' \<Longrightarrow> marks m q q' \<Longrightarrow> marks m (if P then r else q) (if P then r' else q')"
  by simp

lemma marks_fold [marks_intros]:
  "(\<And>x s. marks m (f x s) (f' x s)) \<Longrightarrow> marks m (foldE f xs s) (foldE f' xs s)"
  by (induction xs arbitrary: s) (auto intro: marks_bind)

text \<open>When the whole can fail only with the mark, an error of the unmarked whole turns into it.\<close>

lemma marks_error:
  "marks m r r' \<Longrightarrow> (\<And>e. r' = Inl e \<Longrightarrow> e = m) \<Longrightarrow> r = Inl e \<Longrightarrow> r' = Inl m"
  by (auto simp: marks_def)

section \<open>Sizes\<close>

text \<open>
  \<open>size_t\<close> is 64 bits wide; its sums and differences wrap around. \<open>max_string_size\<close> is
  \<open>std::string::max_size()\<close> of libstdc++ on a 64-bit machine.
\<close>

definition size_mod :: nat where
  "size_mod = 2 ^ 64"

definition max_string_size :: nat where
  "max_string_size = 2 ^ 63 - 2"

definition size_add :: "nat \<Rightarrow> nat \<Rightarrow> nat" where
  "size_add a b = (a + b) mod size_mod"

definition size_sub :: "nat \<Rightarrow> nat \<Rightarrow> nat" where
  "size_sub a b = nat ((int a - int b) mod int size_mod)"

lemma size_mod_pos [simp]: "0 < size_mod"
  by (simp add: size_mod_def)

lemma max_string_size_less: "2 * max_string_size + 4 \<le> size_mod"
  by (simp add: max_string_size_def size_mod_def)

lemma string_size_bound: "n \<le> max_string_size \<Longrightarrow> n < size_mod"
  using max_string_size_less by simp

lemma size_add_exact [simp]: "a + b < size_mod \<Longrightarrow> size_add a b = a + b"
  by (simp add: size_add_def)

lemma size_sub_exact [simp]: "b \<le> a \<Longrightarrow> a < size_mod \<Longrightarrow> size_sub a b = a - b"
  by (simp add: size_sub_def of_nat_diff [symmetric] del: of_nat_diff)

lemma size_sub_less [simp]: "size_sub a b < size_mod"
  by (simp add: size_sub_def nat_less_iff)

lemma size_sub_self [simp]: "size_sub a a = 0"
  by (simp add: size_sub_def)

text \<open>Moving the subtrahend up by at most the difference shrinks the difference by as much,
  whatever the two operands are.\<close>

lemma size_sub_size_add:
  assumes "c \<le> size_sub a b"
  shows "size_sub a (size_add b c) = size_sub a b - c"
proof -
  have le: "int c \<le> (int a - int b) mod int size_mod"
    using assms by (simp add: size_sub_def nat_le_iff le_nat_iff)
  have "(int a - int ((b + c) mod size_mod)) mod int size_mod
      = ((int a - int b) mod int size_mod - int c) mod int size_mod"
    by (simp add: zmod_int mod_diff_right_eq mod_diff_left_eq diff_diff_eq)
  also have "\<dots> = (int a - int b) mod int size_mod - int c"
  proof (rule mod_pos_pos_trivial)
    have "(int a - int b) mod int size_mod < int size_mod" by simp
    then show "(int a - int b) mod int size_mod - int c < int size_mod" by linarith
  qed (use le in simp)
  finally show ?thesis
    by (simp add: size_sub_def size_add_def nat_diff_distrib')
qed

section \<open>Searching in byte strings\<close>

text \<open>
  \<open>find_char\<close> is \<open>std::string_view::find(char)\<close>, \<open>rfind_char\<close> is \<open>find_last_of(char)\<close>,
  \<open>find_sub\<close> is \<open>find(const char*)\<close> and \<open>std::search\<close>, and \<open>find_not_char c s i\<close> is
  \<open>find_first_not_of(c, i)\<close>; \<open>None\<close> is \<open>npos\<close>.
\<close>

abbreviation crlf :: bytes where
  "crlf \<equiv> [CHR 0x0D, CHR 0x0A]"

fun find_char :: "char \<Rightarrow> bytes \<Rightarrow> nat option" where
  "find_char c [] = None"
| "find_char c (x # xs) = (if x = c then Some 0 else map_option Suc (find_char c xs))"

definition rfind_char :: "char \<Rightarrow> bytes \<Rightarrow> nat option" where
  "rfind_char c s = map_option (\<lambda>i. length s - Suc i) (find_char c (rev s))"

fun find_sub :: "bytes \<Rightarrow> bytes \<Rightarrow> nat option" where
  "find_sub p [] = (if p = [] then Some 0 else None)"
| "find_sub p (x # xs) =
     (if take (length p) (x # xs) = p then Some 0 else map_option Suc (find_sub p xs))"

definition find_not_char :: "char \<Rightarrow> bytes \<Rightarrow> nat \<Rightarrow> nat option" where
  "find_not_char c s i =
     (let skipped = length (takeWhile (\<lambda>x. x = c) (drop i s))
      in if i + skipped < length s then Some (i + skipped) else None)"

lemma find_char_eq_None: "find_char c s = None \<longleftrightarrow> c \<notin> set s"
  by (induction s) auto

lemma find_char_None [simp]: "c \<notin> set s \<Longrightarrow> find_char c s = None"
  by (simp add: find_char_eq_None)

lemma find_char_SomeD:
  "find_char c s = Some i \<Longrightarrow> i < length s \<and> s ! i = c \<and> c \<notin> set (take i s)"
  by (induction s arbitrary: i) (auto split: if_splits)

lemma find_char_Some_length: "find_char c s = Some i \<Longrightarrow> i < length s"
  by (simp add: find_char_SomeD)

lemma find_char_split:
  "find_char c s = Some i \<Longrightarrow> s = take i s @ c # drop (Suc i) s"
  using find_char_SomeD [of c s i] by (metis id_take_nth_drop)

lemma find_char_append [simp]: "c \<notin> set xs \<Longrightarrow> find_char c (xs @ c # ys) = Some (length xs)"
  by (induction xs) auto

lemma split_at_unique:
  "c \<notin> set xs \<Longrightarrow> c \<notin> set xs' \<Longrightarrow> xs @ c # ys = xs' @ c # ys' \<longleftrightarrow> xs = xs' \<and> ys = ys'"
proof (induction xs arbitrary: xs')
  case Nil
  then show ?case by (cases xs') auto
next
  case (Cons x xs)
  then show ?case by (cases xs') auto
qed

lemma rfind_char_eq_None: "rfind_char c s = None \<longleftrightarrow> c \<notin> set s"
  by (simp add: rfind_char_def find_char_eq_None)

lemma rfind_char_None [simp]: "c \<notin> set s \<Longrightarrow> rfind_char c s = None"
  by (simp add: rfind_char_eq_None)

lemma rfind_char_append:
  "c \<notin> set ys \<Longrightarrow> rfind_char c (xs @ c # ys) = Some (length xs)"
  by (simp add: rfind_char_def)

lemma find_sub_SomeD:
  "find_sub p s = Some i \<Longrightarrow>
     i + length p \<le> length s \<and> take (length p) (drop i s) = p \<and>
     (\<forall>j < i. take (length p) (drop j s) \<noteq> p)"
proof (induction s arbitrary: i)
  case Nil
  then show ?case by (simp split: if_splits)
next
  case (Cons x xs)
  show ?case
  proof (cases "take (length p) (x # xs) = p")
    case True
    with Cons.prems have "i = 0" by simp
    with True show ?thesis by (metis add_0 drop0 length_take min.cobounded1 not_less0)
  next
    case False
    with Cons.prems obtain k where k: "find_sub p xs = Some k" "i = Suc k"
      by auto
    from Cons.IH [OF k(1)] False show ?thesis
      by (auto simp: k(2) less_Suc_eq_0_disj)
  qed
qed

lemma find_sub_NoneD:
  "find_sub p s = None \<Longrightarrow> p \<noteq> [] \<and> (\<forall>j. take (length p) (drop j s) \<noteq> p)"
proof (induction s)
  case Nil
  then show ?case by (auto split: if_splits)
next
  case (Cons x xs)
  then have no: "take (length p) (x # xs) \<noteq> p" and rec: "find_sub p xs = None"
    by (auto split: if_splits)
  from Cons.IH [OF rec] no show ?case
    by (metis drop_Cons')
qed

lemma find_sub_split:
  assumes "find_sub p s = Some i"
  shows "s = take i s @ p @ drop (i + length p) s"
proof -
  have "drop i s = p @ drop (i + length p) s"
    using find_sub_SomeD [OF assms]
    by (metis add.commute append_take_drop_id drop_drop)
  then show ?thesis by (metis append_take_drop_id)
qed

text \<open>Bytes that arrive later do not move an occurrence already found.\<close>

lemma find_sub_append: "find_sub p s = Some i \<Longrightarrow> find_sub p (s @ t) = Some i"
proof (induction s arbitrary: i)
  case Nil
  then show ?case by (cases t) (auto split: if_splits)
next
  case (Cons x xs)
  show ?case
  proof (cases "take (length p) (x # xs) = p")
    case True
    then have "length p \<le> Suc (length xs)"
      by (metis length_Cons length_take min.cobounded1)
    then have "take (length p) (x # xs @ t) = take (length p) (x # xs)"
      using take_append [of "length p" "x # xs" t] by simp
    with True Cons.prems show ?thesis by simp
  next
    case False
    with Cons.prems obtain k where k: "find_sub p xs = Some k" "i = Suc k"
      by auto
    have len: "k + length p \<le> length xs"
      using find_sub_SomeD [OF k(1)] by simp
    then have "take (length p) (x # xs @ t) = take (length p) (x # xs)"
      using take_append [of "length p" "x # xs" t] by simp
    with False Cons.IH [OF k(1)] k(2) show ?thesis by simp
  qed
qed

lemma find_sub_crlf_append:
  "CHR 0x0D \<notin> set xs \<Longrightarrow> find_sub crlf (xs @ crlf @ ys) = Some (length xs)"
  by (induction xs) auto

lemma find_sub_crlf_length: "find_sub crlf s = Some i \<Longrightarrow> i + 2 \<le> length s"
  using find_sub_SomeD [of crlf s i] by simp

section \<open>Decimal numerals\<close>

text \<open>\<open>dec\<close> is what \<open>std::to_string\<close> and the \<open>%d\<close>, \<open>%zd\<close> conversions print for a value that
  is not negative; \<open>dec_val\<close> reads the digits back.\<close>

definition is_digit :: "char \<Rightarrow> bool" where
  "is_digit c \<longleftrightarrow> 48 \<le> (of_char c :: nat) \<and> (of_char c :: nat) \<le> 57"

definition digit_val :: "char \<Rightarrow> nat" where
  "digit_val c = of_char c - 48"

fun dec :: "nat \<Rightarrow> bytes" where
  "dec n = (if n < 10 then [char_of (48 + n)] else dec (n div 10) @ [char_of (48 + n mod 10)])"

declare dec.simps [simp del]

text \<open>\<open>std::to_string\<close> of an \<open>int\<close>.\<close>

definition int_dec :: "int \<Rightarrow> bytes" where
  "int_dec i = (if i < 0 then CHR ''-'' # dec (nat (- i)) else dec (nat i))"

definition dec_val :: "bytes \<Rightarrow> nat" where
  "dec_val s = foldl (\<lambda>v c. 10 * v + digit_val c) 0 s"

lemma digit_of_digit [simp]:
  "d < 10 \<Longrightarrow> is_digit (char_of (48 + d :: nat))"
  "d < 10 \<Longrightarrow> digit_val (char_of (48 + d :: nat)) = d"
  by (simp_all add: is_digit_def digit_val_def of_char_of)

lemma digit_chars [simp]:
  "char_of (48 :: nat) = CHR ''0''" "char_of (49 :: nat) = CHR ''1''"
  "char_of (50 :: nat) = CHR ''2''" "char_of (51 :: nat) = CHR ''3''"
  "char_of (52 :: nat) = CHR ''4''" "char_of (53 :: nat) = CHR ''5''"
  "char_of (54 :: nat) = CHR ''6''" "char_of (55 :: nat) = CHR ''7''"
  "char_of (56 :: nat) = CHR ''8''" "char_of (57 :: nat) = CHR ''9''"
  by (simp_all add: char_of_def bit_0)

lemma dec_digits: "\<forall>c \<in> set (dec n). is_digit c"
proof (induction n rule: dec.induct)
  case (1 n)
  then show ?case by (subst dec.simps) auto
qed

lemma dec_nonempty [simp]: "dec n \<noteq> []"
  by (subst dec.simps) simp

lemma dec_val_dec [simp]: "dec_val (dec n) = n"
proof (induction n rule: dec.induct)
  case (1 n)
  then show ?case by (subst dec.simps) (auto simp: dec_val_def)
qed

lemma length_dec: "n < 10 ^ k \<Longrightarrow> 0 < k \<Longrightarrow> length (dec n) \<le> k"
proof (induction n arbitrary: k rule: dec.induct)
  case (1 n)
  show ?case
  proof (cases "n < 10")
    case True
    then show ?thesis using "1.prems" by (subst dec.simps) simp
  next
    case False
    then obtain j where k: "k = Suc j" and j: "0 < j"
      using "1.prems" by (cases k; cases "k - 1") auto
    have "n div 10 < 10 ^ j"
      using "1.prems"(1) k by (simp add: div_less_iff_less_mult mult.commute)
    from "1.IH" [OF False this j] False k show ?thesis
      by (subst dec.simps) simp
  qed
qed

end
