(* ===== verification/Buffer.thy ===== *)
theory Buffer
  imports Prelude
begin

text \<open>
  The byte buffer of \<open>wuduo/buffer.h\<close> and \<open>wuduo/buffer.cpp\<close>: one \<open>std::string\<close> with a
  reader and a writer index, the readable bytes between them. The first part gives the
  class as it is written; the second the invariant, the abstraction to the readable bytes
  and the locale \<open>byte_queue\<close>, the contract the parser, the response writer and the
  connection rely on; the last the interpretation of the contract on the class.
\<close>

section \<open>The class\<close>

definition kCheapPrepend :: nat where
  "kCheapPrepend = 8"

definition kInitialSize :: nat where
  "kInitialSize = 1024"

record buffer =
  buf_data :: bytes
  reader_index :: nat
  writer_index :: nat

text \<open>What the class uses of \<open>std::string\<close> and of the copying algorithms.\<close>

definition string_of_size :: "nat \<Rightarrow> bytes result" where
  "string_of_size n =
     (if n \<le> max_string_size then Inr (replicate n (CHR 0x00)) else Inl LengthError)"

definition string_resize :: "bytes \<Rightarrow> nat \<Rightarrow> bytes result" where
  "string_resize s n =
     (if max_string_size < n then Inl LengthError
      else Inr (take n s @ replicate (n - length s) (CHR 0x00)))"

definition copy_n_to :: "bytes \<Rightarrow> nat \<Rightarrow> bytes \<Rightarrow> bytes result" where
  "copy_n_to src i dst =
     (if i + length src \<le> length dst
      then Inr (take i dst @ src @ drop (i + length src) dst)
      else Inl OutOfBounds)"

text \<open>\<open>std::copy\<close> of \<open>[from, from + n)\<close> of a string to position \<open>i\<close> of the same string: the
  destination must not start inside the source.\<close>

definition copy_within :: "nat \<Rightarrow> nat \<Rightarrow> nat \<Rightarrow> bytes \<Rightarrow> bytes result" where
  "copy_within from n i s =
     (if from \<le> i \<and> i < from + n then Inl OverlappingCopy
      else if length s < from + n then Inl OutOfBounds
      else copy_n_to (take n (drop from s)) i s)"

definition buffer_of_size :: "nat \<Rightarrow> buffer result" where
  "buffer_of_size initial_size =
     bindE (string_of_size (size_add kCheapPrepend initial_size)) (\<lambda>s.
     Inr \<lparr>buf_data = s, reader_index = kCheapPrepend, writer_index = kCheapPrepend\<rparr>)"

definition new_buffer :: buffer where
  "new_buffer = \<lparr>buf_data = replicate (kCheapPrepend + kInitialSize) (CHR 0x00),
                 reader_index = kCheapPrepend, writer_index = kCheapPrepend\<rparr>"

definition swap_buffers :: "buffer \<times> buffer \<Rightarrow> buffer \<times> buffer" where
  "swap_buffers p =
     (let a = fst p; b = snd p in
      (\<lparr>buf_data = buf_data b, reader_index = reader_index b, writer_index = writer_index b\<rparr>,
       \<lparr>buf_data = buf_data a, reader_index = reader_index a, writer_index = writer_index a\<rparr>))"

definition readable_bytes :: "buffer \<Rightarrow> nat" where
  "readable_bytes b = size_sub (writer_index b) (reader_index b)"

definition writable_bytes :: "buffer \<Rightarrow> nat" where
  "writable_bytes b = size_sub (length (buf_data b)) (writer_index b)"

definition prependable_bytes :: "buffer \<Rightarrow> nat" where
  "prependable_bytes b = reader_index b"

text \<open>\<open>peeked b n\<close> is what a caller sees in the \<open>n\<close> bytes that \<open>peek()\<close> points at.\<close>

definition peeked :: "buffer \<Rightarrow> nat \<Rightarrow> bytes" where
  "peeked b n = take n (drop (reader_index b) (buf_data b))"

text \<open>The result of \<open>find_cr_lf\<close> is a pointer into the readable bytes, given here as its
  distance from \<open>peek()\<close>; \<open>None\<close> is \<open>nullptr\<close>.\<close>

definition find_cr_lf :: "buffer \<Rightarrow> nat option" where
  "find_cr_lf b =
     (let pos_cr_lf = (case find_sub crlf (peeked b (readable_bytes b)) of
                         Some i \<Rightarrow> i | None \<Rightarrow> readable_bytes b)
      in if pos_cr_lf = readable_bytes b then None else Some pos_cr_lf)"

definition retrieve_all :: "buffer \<Rightarrow> buffer" where
  "retrieve_all b = b\<lparr>reader_index := kCheapPrepend, writer_index := kCheapPrepend\<rparr>"

definition retrieve :: "nat \<Rightarrow> buffer \<Rightarrow> buffer result" where
  "retrieve count b =
     bindE (assertE (count \<le> readable_bytes b)) (\<lambda>_.
     if count = readable_bytes b then Inr (retrieve_all b)
     else Inr (b\<lparr>reader_index := size_add (reader_index b) count\<rparr>))"

definition retrieve_all_as_string :: "buffer \<Rightarrow> bytes \<times> buffer" where
  "retrieve_all_as_string b = (peeked b (readable_bytes b), retrieve_all b)"

definition has_written :: "nat \<Rightarrow> buffer \<Rightarrow> buffer result" where
  "has_written count b =
     bindE (assertE (count \<le> writable_bytes b)) (\<lambda>_.
     Inr (b\<lparr>writer_index := size_add (writer_index b) count\<rparr>))"

definition unwrite :: "nat \<Rightarrow> buffer \<Rightarrow> buffer result" where
  "unwrite count b =
     bindE (assertE (count \<le> readable_bytes b)) (\<lambda>_.
     Inr (b\<lparr>writer_index := size_sub (writer_index b) count\<rparr>))"

definition prepend :: "bytes \<Rightarrow> buffer \<Rightarrow> buffer result" where
  "prepend data b =
     bindE (assertE (length data \<le> prependable_bytes b)) (\<lambda>_.
     let reader = size_sub (reader_index b) (length data) in
     bindE (copy_n_to data reader (buf_data b)) (\<lambda>s.
     Inr (b\<lparr>buf_data := s, reader_index := reader\<rparr>)))"

definition make_space :: "nat \<Rightarrow> buffer \<Rightarrow> buffer result" where
  "make_space count b =
     (if size_add (writable_bytes b) (prependable_bytes b) < size_add count kCheapPrepend
      then bindE (string_resize (buf_data b) (size_add (writer_index b) count)) (\<lambda>s.
           Inr (b\<lparr>buf_data := s\<rparr>))
      else let readable = readable_bytes b in
           bindE (copy_within (reader_index b) readable kCheapPrepend (buf_data b)) (\<lambda>s.
           Inr (b\<lparr>buf_data := s, reader_index := kCheapPrepend,
                  writer_index := size_add kCheapPrepend readable\<rparr>)))"

definition ensure_writable_bytes :: "nat \<Rightarrow> buffer \<Rightarrow> buffer result" where
  "ensure_writable_bytes count b =
     bindE (if writable_bytes b < count then make_space count b else Inr b) (\<lambda>b'.
     bindE (assertE (count \<le> writable_bytes b')) (\<lambda>_. Inr b'))"

definition append :: "bytes \<Rightarrow> buffer \<Rightarrow> buffer result" where
  "append data b =
     bindE (ensure_writable_bytes (length data) b) (\<lambda>b'.
     bindE (copy_n_to data (writer_index b') (buf_data b')) (\<lambda>s.
     has_written (length data) (b'\<lparr>buf_data := s\<rparr>)))"

definition shrink_to_fit :: "buffer \<Rightarrow> buffer" where
  "shrink_to_fit b = b"

text \<open>
  The outcome of a system call that reads: the bytes delivered (none at the end of the
  stream), or the error number. In \<open>read_fd\<close> the call is \<open>readv\<close> into the writable part of
  the buffer and then \<open>extrabuf\<close>: the kernel fills the first before the second. The
  result is the value \<open>read_fd\<close> returns and the value it leaves in \<open>*saved_errno\<close>, if it
  does.
\<close>

datatype read_result = ReadOk bytes | ReadErr int

definition extrabuf_size :: nat where
  "extrabuf_size = 65535"

definition read_fd :: "read_result \<Rightarrow> buffer \<Rightarrow> ((int \<times> int option) \<times> buffer) result" where
  "read_fd r b =
     (case r of
        ReadErr e \<Rightarrow> Inr ((-1, Some e), b)
      | ReadOk delivered \<Rightarrow>
          let writable = writable_bytes b;
              n = length delivered
          in bindE (copy_n_to (take writable delivered) (writer_index b) (buf_data b)) (\<lambda>s.
             let b1 = b\<lparr>buf_data := s\<rparr> in
             if n \<le> writable
             then bindE (has_written n b1) (\<lambda>b2. Inr ((int n, None), b2))
             else bindE (has_written writable b1) (\<lambda>b2.
                  bindE (append (drop writable delivered) b2) (\<lambda>b3.
                  Inr ((int n, None), b3)))))"

section \<open>Invariant and abstraction\<close>

definition wf_buffer :: "buffer \<Rightarrow> bool" where
  "wf_buffer b \<longleftrightarrow>
     reader_index b \<le> writer_index b \<and> writer_index b \<le> length (buf_data b) \<and>
     kCheapPrepend \<le> length (buf_data b) \<and> length (buf_data b) \<le> max_string_size"

definition contents :: "buffer \<Rightarrow> bytes" where
  "contents b = peeked b (readable_bytes b)"

text \<open>\<open>room b n\<close>: \<open>n\<close> more bytes behind the writer stay below the largest string.\<close>

definition room :: "buffer \<Rightarrow> nat \<Rightarrow> bool" where
  "room b n \<longleftrightarrow> max kCheapPrepend (writer_index b) + n \<le> max_string_size"

lemma wf_bufferD:
  assumes "wf_buffer b"
  shows "reader_index b \<le> writer_index b" "writer_index b \<le> length (buf_data b)"
    "8 \<le> length (buf_data b)" "length (buf_data b) \<le> max_string_size"
    "length (buf_data b) < size_mod" "writer_index b < size_mod" "reader_index b < size_mod"
  using assms string_size_bound [of "length (buf_data b)"]
  by (auto simp: wf_buffer_def kCheapPrepend_def)

lemma wf_sizes [simp]:
  assumes "wf_buffer b"
  shows "readable_bytes b = writer_index b - reader_index b"
    and "writable_bytes b = length (buf_data b) - writer_index b"
  using wf_bufferD [OF assms] by (simp_all add: readable_bytes_def writable_bytes_def)

lemma contents_eq:
  "wf_buffer b \<Longrightarrow>
   contents b = take (writer_index b - reader_index b) (drop (reader_index b) (buf_data b))"
  by (simp add: contents_def peeked_def)

lemma length_contents: "wf_buffer b \<Longrightarrow> length (contents b) = readable_bytes b"
  using wf_bufferD [of b] by (simp add: contents_eq)

lemma length_contents_le: "length (contents b) \<le> readable_bytes b"
  by (simp add: contents_def peeked_def)

lemma wf_new_buffer [simp]: "wf_buffer new_buffer"
  by (simp add: wf_buffer_def new_buffer_def kCheapPrepend_def kInitialSize_def
      max_string_size_def)

lemma room_new_buffer [simp]: "room new_buffer n \<longleftrightarrow> n + 8 \<le> max_string_size"
  by (auto simp: room_def new_buffer_def kCheapPrepend_def)

lemma max_string_size_large: "9223372036854775806 \<le> max_string_size"
  by (simp add: max_string_size_def)

lemma contents_new_buffer [simp]: "contents new_buffer = []"
  by (simp add: contents_def peeked_def new_buffer_def readable_bytes_def)

section \<open>Each operation on a well-formed buffer\<close>

lemma copy_n_to_fits:
  "i + length src \<le> length dst \<Longrightarrow>
   copy_n_to src i dst = Inr (take i dst @ src @ drop (i + length src) dst)"
  by (simp add: copy_n_to_def)

lemma retrieve_all_spec:
  assumes "wf_buffer b"
  shows "wf_buffer (retrieve_all b)" "contents (retrieve_all b) = []"
    "readable_bytes (retrieve_all b) = 0" "room b k \<Longrightarrow> room (retrieve_all b) k"
  using assms
  by (auto simp: wf_buffer_def retrieve_all_def contents_def peeked_def readable_bytes_def
      room_def)

lemma retrieve_spec:
  assumes wf: "wf_buffer b" and n: "n \<le> length (contents b)"
  shows "\<exists>b'. retrieve n b = Inr b' \<and> wf_buffer b' \<and> contents b' = drop n (contents b)
           \<and> (\<forall>k. room b k \<longrightarrow> room b' k)"
proof (cases "n = readable_bytes b")
  case True
  then have "retrieve n b = Inr (retrieve_all b)" by (simp add: retrieve_def)
  with True show ?thesis
    using retrieve_all_spec [OF wf] length_contents [OF wf] by simp
next
  case False
  let ?b' = "b\<lparr>reader_index := reader_index b + n\<rparr>"
  have lt: "n < writer_index b - reader_index b"
    using n False length_contents [OF wf] wf by simp
  have "retrieve n b = Inr ?b'"
    using False lt wf wf_bufferD [OF wf] by (simp add: retrieve_def)
  moreover have wf': "wf_buffer ?b'"
    using wf lt by (simp add: wf_buffer_def)
  moreover have "contents ?b' = drop n (contents b)"
    unfolding contents_eq [OF wf] contents_eq [OF wf']
    using lt by (simp add: drop_take add.commute)
  ultimately show ?thesis by (simp add: room_def)
qed

lemma retrieve_too_much:
  "readable_bytes b < n \<Longrightarrow> retrieve n b = Inl AssertFailure"
  by (simp add: retrieve_def assertE_def)

text \<open>Whatever the indices are, a successful \<open>retrieve\<close> takes its count off the readable bytes.\<close>

lemma retrieve_readable:
  "retrieve n b = Inr b' \<Longrightarrow> n \<le> readable_bytes b \<and> readable_bytes b' = readable_bytes b - n"
  by (auto simp: retrieve_def bindE_assertE retrieve_all_def readable_bytes_def
      size_sub_size_add split: if_splits)

text \<open>In the branch of \<open>make_space\<close> that moves the readable bytes to the front, the
  destination lies before them: \<open>std::copy\<close> is used within its contract.\<close>

lemma rotate_moves_down:
  assumes "wf_buffer b" "writable_bytes b < n" "n + kCheapPrepend < size_mod"
    and "\<not> size_add (writable_bytes b) (prependable_bytes b) < size_add n kCheapPrepend"
  shows "kCheapPrepend < reader_index b"
    and "n + kCheapPrepend \<le> length (buf_data b) - writer_index b + reader_index b"
proof -
  have "writable_bytes b + prependable_bytes b < size_mod"
    using wf_bufferD [OF assms(1)] wf_sizes(2) [OF assms(1)] by (simp add: prependable_bytes_def)
  then have le: "n + kCheapPrepend \<le> writable_bytes b + prependable_bytes b"
    using assms(3,4) by simp
  then show "kCheapPrepend < reader_index b"
    and "n + kCheapPrepend \<le> length (buf_data b) - writer_index b + reader_index b"
    using assms(1,2) by (simp_all add: prependable_bytes_def)
qed

lemma make_space_spec:
  assumes wf: "wf_buffer b" and few: "writable_bytes b < n" and room: "room b (n + k)"
  shows "\<exists>b'. make_space n b = Inr b' \<and> wf_buffer b' \<and> contents b' = contents b
           \<and> n \<le> writable_bytes b' \<and> room b' (n + k)"
proof -
  have small: "writer_index b + n \<le> max_string_size" "n + kCheapPrepend \<le> max_string_size"
    using room by (simp_all add: room_def)
  have no_wrap: "n + kCheapPrepend < size_mod" "writer_index b + n < size_mod"
    using small string_size_bound by blast+
  note b = wf_bufferD [OF wf]
  show ?thesis
  proof (cases "size_add (writable_bytes b) (prependable_bytes b) < size_add n kCheapPrepend")
    case True
    let ?s = "buf_data b @ replicate (writer_index b + n - length (buf_data b)) (CHR 0x00)"
    let ?b' = "b\<lparr>buf_data := ?s\<rparr>"
    have grow: "length (buf_data b) < writer_index b + n"
      using few wf by simp
    have eq: "make_space n b = Inr ?b'"
      using True no_wrap small grow by (simp add: make_space_def string_resize_def)
    have wf': "wf_buffer ?b'"
      using b small grow by (simp add: wf_buffer_def kCheapPrepend_def)
    have "contents ?b' = contents b"
      using b by (simp add: contents_eq [OF wf] contents_eq [OF wf'])
    with eq wf' room grow show ?thesis by (simp add: room_def)
  next
    case False
    note rot = rotate_moves_down [OF wf few no_wrap(1) False]
    let ?r = "writer_index b - reader_index b"
    let ?live = "take ?r (drop (reader_index b) (buf_data b))"
    let ?s = "take kCheapPrepend (buf_data b) @ ?live @ drop (kCheapPrepend + ?r) (buf_data b)"
    let ?b' = "b\<lparr>buf_data := ?s, reader_index := kCheapPrepend, writer_index := kCheapPrepend + ?r\<rparr>"
    have live: "length ?live = ?r" using b by simp
    have fit: "kCheapPrepend + ?r \<le> length (buf_data b)" using b rot by simp
    have eq: "make_space n b = Inr ?b'"
      using False b rot fit live wf
      by (simp add: make_space_def copy_within_def copy_n_to_def)
    have len: "length ?s = length (buf_data b)" using b fit live by simp
    have wf': "wf_buffer ?b'"
      using b fit len by (simp add: wf_buffer_def kCheapPrepend_def)
    have "contents ?b' = ?live"
      unfolding contents_eq [OF wf'] using live fit b by simp
    then have c: "contents ?b' = contents b" by (simp add: contents_eq [OF wf])
    have w: "n \<le> writable_bytes ?b'"
      using wf_sizes(2) [OF wf'] len b rot by simp
    have "room ?b' (n + k)"
      using room rot b by (simp add: room_def)
    with eq wf' c w show ?thesis by blast
  qed
qed

lemma ensure_writable_bytes_spec:
  assumes "wf_buffer b" and "room b (n + k)"
  shows "\<exists>b'. ensure_writable_bytes n b = Inr b' \<and> wf_buffer b' \<and> contents b' = contents b
           \<and> n \<le> writable_bytes b' \<and> room b' (n + k)"
proof (cases "writable_bytes b < n")
  case True
  from make_space_spec [OF assms(1) True assms(2)] True show ?thesis
    by (auto simp: ensure_writable_bytes_def bindE_assertE)
next
  case False
  with assms show ?thesis
    by (simp add: ensure_writable_bytes_def bindE_assertE)
qed

lemma take_drop_written:
  assumes "r \<le> w" "w \<le> length d"
  shows "take (w + length s - r) (drop r (take w d @ s @ rest)) = take (w - r) (drop r d) @ s"
proof -
  have "drop r (take w d @ s @ rest) = take (w - r) (drop r d) @ s @ rest"
    using assms by (simp add: drop_take)
  moreover have "length (take (w - r) (drop r d)) = w - r" using assms by simp
  moreover have "w + length s - r = (w - r) + length s" using assms by simp
  ultimately show ?thesis by simp
qed

lemma append_spec:
  assumes wf: "wf_buffer b" and room: "room b (length s + k)"
  shows "\<exists>b'. append s b = Inr b' \<and> wf_buffer b' \<and> contents b' = contents b @ s \<and> room b' k"
proof -
  obtain b1 where b1: "ensure_writable_bytes (length s) b = Inr b1" "wf_buffer b1"
    "contents b1 = contents b" "length s \<le> writable_bytes b1" "room b1 (length s + k)"
    using ensure_writable_bytes_spec [OF wf room] by blast
  note b = wf_bufferD [OF b1(2)]
  let ?w = "writer_index b1"
  let ?data = "take ?w (buf_data b1) @ s @ drop (?w + length s) (buf_data b1)"
  let ?b' = "b1\<lparr>buf_data := ?data, writer_index := ?w + length s\<rparr>"
  have fit: "?w + length s \<le> length (buf_data b1)"
    using b1(2,4) b by simp
  then have len: "length ?data = length (buf_data b1)" using b by simp
  have wf_data: "wf_buffer (b1\<lparr>buf_data := ?data\<rparr>)"
    using b len by (simp add: wf_buffer_def kCheapPrepend_def)
  have "append s b = has_written (length s) (b1\<lparr>buf_data := ?data\<rparr>)"
    using b1(1) fit by (simp add: append_def copy_n_to_def)
  also have "\<dots> = Inr ?b'"
    using fit len b wf_sizes(2) [OF wf_data] by (simp add: has_written_def bindE_assertE)
  finally have eq: "append s b = Inr ?b'" .
  have wf': "wf_buffer ?b'"
    using b fit len by (simp add: wf_buffer_def kCheapPrepend_def)
  have "contents ?b' = contents b1 @ s"
    unfolding contents_eq [OF wf'] contents_eq [OF b1(2)]
    by (simp add: take_drop_written [OF b(1,2)] del: take_append drop_append length_take)
  with eq wf' b1(3,5) show ?thesis by (auto simp: room_def)
qed

lemma read_fd_spec:
  assumes wf: "wf_buffer b" and room: "room b (length d + k)"
  shows "\<exists>b'. read_fd (ReadOk d) b = Inr ((int (length d), None), b') \<and> wf_buffer b'
           \<and> contents b' = contents b @ d \<and> room b' k"
proof -
  note b = wf_bufferD [OF wf]
  let ?w = "writer_index b" and ?free = "length (buf_data b) - writer_index b"
  let ?s1 = "take ?free d"
  let ?data = "take ?w (buf_data b) @ ?s1 @ drop (?w + length ?s1) (buf_data b)"
  let ?b2 = "b\<lparr>buf_data := ?data, writer_index := ?w + length ?s1\<rparr>"
  have len: "length ?data = length (buf_data b)" using b by simp
  have wf_data: "wf_buffer (b\<lparr>buf_data := ?data\<rparr>)"
    using b len by (simp add: wf_buffer_def kCheapPrepend_def)
  have written: "has_written (length ?s1) (b\<lparr>buf_data := ?data\<rparr>) = Inr ?b2"
    using len b wf_sizes(2) [OF wf_data] by (simp add: has_written_def bindE_assertE)
  have wf2: "wf_buffer ?b2"
    using b len by (simp add: wf_buffer_def kCheapPrepend_def)
  have c2: "contents ?b2 = contents b @ ?s1"
    unfolding contents_eq [OF wf2] contents_eq [OF wf]
    by (simp add: take_drop_written [OF b(1,2)] del: take_append drop_append length_take)
  have copied: "copy_n_to ?s1 ?w (buf_data b) = Inr ?data"
    using b by (simp add: copy_n_to_def)
  show ?thesis
  proof (cases "length d \<le> ?free")
    case True
    then have "room ?b2 k" using room by (simp add: room_def)
    with True show ?thesis
      using written copied wf wf2 c2 by (simp add: read_fd_def Let_def)
  next
    case False
    then have room2: "room ?b2 (length (drop ?free d) + k)"
      using room b by (simp add: room_def)
    obtain b3 where "append (drop ?free d) ?b2 = Inr b3" "wf_buffer b3"
      "contents b3 = contents ?b2 @ drop ?free d" "room b3 k"
      using append_spec [OF wf2 room2] by blast
    with False written copied wf c2 show ?thesis
      by (simp add: read_fd_def min_def Let_def)
  qed
qed

lemma prepend_eq:
  assumes wf: "wf_buffer b" and fits: "length s \<le> reader_index b"
  shows "\<exists>b'. prepend s b = Inr b' \<and> wf_buffer b' \<and> contents b' = s @ contents b"
proof -
  note b = wf_bufferD [OF wf]
  let ?r = "reader_index b - length s"
  let ?data = "take ?r (buf_data b) @ s @ drop (reader_index b) (buf_data b)"
  let ?b' = "b\<lparr>buf_data := ?data, reader_index := ?r\<rparr>"
  have len: "length ?data = length (buf_data b)" using b fits by simp
  have eq: "prepend s b = Inr ?b'"
    using fits b
    by (simp add: prepend_def bindE_assertE prependable_bytes_def copy_n_to_def Let_def)
  have wf': "wf_buffer ?b'"
    using b len by (simp add: wf_buffer_def kCheapPrepend_def)
  have "contents ?b' = s @ contents b"
    unfolding contents_eq [OF wf'] contents_eq [OF wf] using b fits by simp
  with eq wf' show ?thesis by blast
qed

lemma unwrite_spec:
  assumes wf: "wf_buffer b" and n: "n \<le> length (contents b)"
  shows "\<exists>b'. unwrite n b = Inr b' \<and> wf_buffer b' \<and>
           contents b' = take (length (contents b) - n) (contents b)
           \<and> (\<forall>k. room b k \<longrightarrow> room b' k)"
proof -
  note b = wf_bufferD [OF wf]
  let ?b' = "b\<lparr>writer_index := writer_index b - n\<rparr>"
  have le: "n \<le> writer_index b - reader_index b"
    using n length_contents [OF wf] wf by simp
  have eq: "unwrite n b = Inr ?b'"
    using le wf b by (simp add: unwrite_def bindE_assertE)
  have wf': "wf_buffer ?b'"
    using b le unfolding wf_buffer_def kCheapPrepend_def by (simp, linarith)
  have "contents ?b' = take (length (contents b) - n) (contents b)"
  proof -
    have "length (contents b) = writer_index b - reader_index b"
      using length_contents [OF wf] wf by simp
    then show ?thesis
      by (simp only: contents_eq [OF wf'] contents_eq [OF wf] take_take)
        (simp add: min_def add.commute)
  qed
  with eq wf' show ?thesis by (auto simp: room_def)
qed

text \<open>A buffer that holds given bytes, for examples.\<close>

definition buffer_holding :: "bytes \<Rightarrow> buffer" where
  "buffer_holding s = \<lparr>buf_data = replicate 8 (CHR 0x00) @ s, reader_index = 8, writer_index = 8 + length s\<rparr>"

lemma buffer_holding:
  assumes "length s + 8 \<le> max_string_size"
  shows "wf_buffer (buffer_holding s)" "contents (buffer_holding s) = s"
    "room (buffer_holding s) n \<longleftrightarrow> length s + n + 8 \<le> max_string_size"
proof -
  show wf: "wf_buffer (buffer_holding s)"
    using assms by (simp add: buffer_holding_def wf_buffer_def kCheapPrepend_def)
  show "contents (buffer_holding s) = s"
    by (simp add: contents_eq [OF wf]) (simp add: buffer_holding_def)
  show "room (buffer_holding s) n \<longleftrightarrow> length s + n + 8 \<le> max_string_size"
    by (auto simp: buffer_holding_def room_def kCheapPrepend_def)
qed

section \<open>The contract of a byte queue\<close>

text \<open>
  What the clients of the buffer rely on: bytes put behind come out in front, in order and
  unchanged. \<open>space q n\<close> says that \<open>n\<close> more bytes can be stored.
\<close>

locale byte_queue =
  fixes inv :: "'q \<Rightarrow> bool"
    and content :: "'q \<Rightarrow> bytes"
    and space :: "'q \<Rightarrow> nat \<Rightarrow> bool"
    and put :: "bytes \<Rightarrow> 'q \<Rightarrow> 'q result"
    and discard :: "nat \<Rightarrow> 'q \<Rightarrow> 'q result"
    and clear :: "'q \<Rightarrow> 'q"
  assumes put: "inv q \<Longrightarrow> space q (length s + k) \<Longrightarrow>
      \<exists>q'. put s q = Inr q' \<and> inv q' \<and> content q' = content q @ s \<and> space q' k"
    and discard: "inv q \<Longrightarrow> n \<le> length (content q) \<Longrightarrow>
      \<exists>q'. discard n q = Inr q' \<and> inv q' \<and> content q' = drop n (content q)
         \<and> (\<forall>k. space q k \<longrightarrow> space q' k)"
    and clear: "inv q \<Longrightarrow> inv (clear q) \<and> content (clear q) = []
         \<and> (\<forall>k. space q k \<longrightarrow> space (clear q) k)"
begin

lemma put0:
  "inv q \<Longrightarrow> space q (length s) \<Longrightarrow>
   \<exists>q'. put s q = Inr q' \<and> inv q' \<and> content q' = content q @ s"
  using put [of q s 0] by auto

lemma put_seq:
  "inv q \<Longrightarrow> space q (length (concat ss) + k) \<Longrightarrow>
   \<exists>q'. foldE put ss q = Inr q' \<and> inv q' \<and> content q' = content q @ concat ss \<and> space q' k"
proof (induction ss arbitrary: q)
  case Nil
  then show ?case by simp
next
  case (Cons s ss)
  from Cons.prems have "space q (length s + (length (concat ss) + k))"
    by (simp add: add.assoc)
  from put [OF Cons.prems(1) this] obtain q1 where q1: "put s q = Inr q1" "inv q1"
    "content q1 = content q @ s" "space q1 (length (concat ss) + k)" by blast
  from Cons.IH [OF q1(2,4)] q1(1,3) show ?case by auto
qed

lemma put_discard:
  assumes "inv q" "space q (length s + k)" "n \<le> length (content q)"
  shows "\<exists>q' q''. put s q = Inr q' \<and> discard n q' = Inr q'' \<and> inv q''
           \<and> content q'' = drop n (content q) @ s \<and> space q'' k"
proof -
  obtain q' where q': "put s q = Inr q'" "inv q'" "content q' = content q @ s" "space q' k"
    using put [OF assms(1,2)] by blast
  then have "n \<le> length (content q')" using assms(3) by simp
  from discard [OF q'(2) this] q' assms(3) show ?thesis by auto
qed

end

interpretation buf: byte_queue wf_buffer contents room append retrieve retrieve_all
proof unfold_locales
  show "\<exists>b'. append s b = Inr b' \<and> wf_buffer b' \<and> contents b' = contents b @ s \<and> room b' k"
    if "wf_buffer b" "room b (length s + k)" for b s k
    using append_spec [OF that] .
  show "\<exists>b'. retrieve n b = Inr b' \<and> wf_buffer b' \<and> contents b' = drop n (contents b)
           \<and> (\<forall>k. room b k \<longrightarrow> room b' k)"
    if "wf_buffer b" "n \<le> length (contents b)" for b n
    using retrieve_spec [OF that] .
  show "wf_buffer (retrieve_all b) \<and> contents (retrieve_all b) = []
      \<and> (\<forall>k. room b k \<longrightarrow> room (retrieve_all b) k)" if "wf_buffer b" for b
    using retrieve_all_spec [OF that] by blast
qed

lemma read_end_of_stream: "wf_buffer b \<Longrightarrow> read_fd (ReadOk []) b = Inr ((0, None), b)"
  using wf_bufferD [of b] by (simp add: read_fd_def copy_n_to_def has_written_def bindE_assertE)

section \<open>Properties\<close>

text \<open>\<open>append\<close> never aborts while the string can grow: it puts exactly the given bytes
  behind the readable ones, moving or enlarging the storage as needed, keeps the
  invariant, and uses up no more than the length of the data.\<close>

theorem append_correct:
  assumes "wf_buffer b" and "room b (length s + k)"
  shows "\<exists>b'. append s b = Inr b' \<and> wf_buffer b' \<and> contents b' = contents b @ s \<and> room b' k"
  by (rule buf.put [OF assms])

theorem append_correct_witness:
  "\<exists>b'. append ''abc'' new_buffer = Inr b' \<and> wf_buffer b'
     \<and> contents b' = contents new_buffer @ ''abc'' \<and> room b' 7"
  by (rule append_correct)
    (simp_all add: max_string_size_def)

text \<open>\<open>read_fd\<close> stores every byte \<open>readv\<close> delivered, through the writable part and
  \<open>extrabuf\<close>, behind the readable bytes and in order, and returns their number; when the
  call fails it returns -1 and the error number and leaves the buffer as it was.\<close>

theorem read_fd_correct:
  assumes "wf_buffer b" and "room b (length d)"
  shows "(\<exists>b'. read_fd (ReadOk d) b = Inr ((int (length d), None), b') \<and> wf_buffer b'
            \<and> contents b' = contents b @ d)
         \<and> read_fd (ReadErr e) b = Inr ((-1, Some e), b)"
  using read_fd_spec [of b d 0] assms by (auto simp: read_fd_def)

theorem read_fd_correct_witness:
  "(\<exists>b'. read_fd (ReadOk ''GET'') new_buffer = Inr ((int (length ''GET''), None), b')
      \<and> wf_buffer b' \<and> contents b' = contents new_buffer @ ''GET'')
   \<and> read_fd (ReadErr 11) new_buffer = Inr ((-1, Some 11), new_buffer)"
  by (rule read_fd_correct)
    (simp_all add: max_string_size_def)

text \<open>\<open>prepend\<close> puts bytes in front, and retrieving as many gives the former contents
  back; it aborts exactly when the bytes do not fit before the reader index.\<close>

theorem prepend_retrieve:
  assumes "wf_buffer b"
  shows "if length s \<le> prependable_bytes b
         then \<exists>b' b''. prepend s b = Inr b' \<and> wf_buffer b' \<and> contents b' = s @ contents b \<and>
                 retrieve (length s) b' = Inr b'' \<and> wf_buffer b'' \<and> contents b'' = contents b
         else prepend s b = Inl AssertFailure"
proof (cases "length s \<le> reader_index b")
  case True
  obtain b' where b': "prepend s b = Inr b'" "wf_buffer b'" "contents b' = s @ contents b"
    using prepend_eq [OF assms True] by blast
  then have "length s \<le> length (contents b')" by simp
  from buf.discard [OF b'(2) this] b' True show ?thesis
    by (auto simp: prependable_bytes_def)
next
  case False
  then show ?thesis by (simp add: prepend_def assertE_def prependable_bytes_def)
qed

theorem prepend_retrieve_witness:
  "if length ''len='' \<le> prependable_bytes new_buffer
   then \<exists>b' b''. prepend ''len='' new_buffer = Inr b' \<and> wf_buffer b'
          \<and> contents b' = ''len='' @ contents new_buffer
          \<and> retrieve (length ''len='') b' = Inr b'' \<and> wf_buffer b''
          \<and> contents b'' = contents new_buffer
   else prepend ''len='' new_buffer = Inl AssertFailure"
  by (rule prepend_retrieve) simp

text \<open>
  The operations a client issues on a buffer it reads from one side and writes to the
  other, and the same operations on the plain sequence of its bytes.
\<close>

datatype buffer_op =
    OpAppend bytes | OpRead bytes | OpRetrieve nat | OpRetrieveAll | OpUnwrite nat | OpPrepend bytes

fun buffer_step :: "buffer_op \<Rightarrow> buffer \<Rightarrow> buffer result" where
  "buffer_step (OpAppend s) b = append s b"
| "buffer_step (OpRead d) b = bindE (read_fd (ReadOk d) b) (\<lambda>(_, b'). Inr b')"
| "buffer_step (OpRetrieve n) b = retrieve n b"
| "buffer_step OpRetrieveAll b = Inr (retrieve_all b)"
| "buffer_step (OpUnwrite n) b = unwrite n b"
| "buffer_step (OpPrepend d) b = prepend d b"

fun bytes_step :: "buffer_op \<Rightarrow> bytes \<Rightarrow> bytes result" where
  "bytes_step (OpAppend s) q = Inr (q @ s)"
| "bytes_step (OpRead d) q = Inr (q @ d)"
| "bytes_step (OpRetrieve n) q = (if n \<le> length q then Inr (drop n q) else Inl AssertFailure)"
| "bytes_step OpRetrieveAll q = Inr []"
| "bytes_step (OpUnwrite n) q =
     (if n \<le> length q then Inr (take (length q - n) q) else Inl AssertFailure)"
| "bytes_step (OpPrepend d) q = Inr (d @ q)"

fun op_size :: "buffer_op \<Rightarrow> nat" where
  "op_size (OpAppend s) = length s"
| "op_size (OpRead d) = length d"
| "op_size _ = 0"

text \<open>The bytes in front of the contents, into which \<open>prepend\<close> writes, are the one thing the storage
  shows: \<open>prepend\<close> asserts that there are enough of them. How many there are at least is known
  without the storage: \<open>kCheapPrepend\<close> in a new and in an emptied buffer, those that were there and
  those retrieved since, less those prepended, and never counted beyond \<open>kCheapPrepend\<close> once the
  contents may have been moved to the front.\<close>

fun front_after :: "buffer_op \<Rightarrow> nat \<Rightarrow> nat" where
  "front_after (OpAppend s) f = min f kCheapPrepend"
| "front_after (OpRead d) f = min f kCheapPrepend"
| "front_after (OpRetrieve n) f = min (f + n) kCheapPrepend"
| "front_after OpRetrieveAll f = kCheapPrepend"
| "front_after (OpUnwrite n) f = f"
| "front_after (OpPrepend d) f = f - length d"

fun prepends_fit :: "nat \<Rightarrow> buffer_op list \<Rightarrow> bool" where
  "prepends_fit f [] \<longleftrightarrow> True"
| "prepends_fit f (op # ops) \<longleftrightarrow>
     (case op of OpPrepend d \<Rightarrow> length d \<le> f | _ \<Rightarrow> True) \<and> prepends_fit (front_after op f) ops"

lemma append_front:
  assumes "append s b = Inr b'"
  shows "min (reader_index b) kCheapPrepend \<le> reader_index b'"
proof -
  have "min (reader_index b) kCheapPrepend \<le> reader_index b1" if "ensure_writable_bytes n b = Inr b1" for n b1
    using that by (auto simp: ensure_writable_bytes_def make_space_def bindE_eq_Inr Let_def split: if_splits)
  with assms show ?thesis
    by (auto simp: append_def has_written_def bindE_eq_Inr)
qed

lemma read_front:
  assumes "read_fd (ReadOk d) b = Inr (x, b')"
  shows "min (reader_index b) kCheapPrepend \<le> reader_index b'"
  using assms
  by (auto simp: read_fd_def has_written_def bindE_eq_Inr Let_def dest!: append_front split: if_splits)

lemma step_front:
  assumes "wf_buffer b" and "f \<le> reader_index b" and "buffer_step op b = Inr b'"
  shows "front_after op f \<le> reader_index b'"
proof (cases op)
  case (OpAppend s)
  with assms append_front [of s b b'] show ?thesis by simp
next
  case (OpRead d)
  with assms read_front [of d b] show ?thesis by (fastforce simp: bindE_eq_Inr)
next
  case (OpRetrieve n)
  have "size_add (reader_index b) n = reader_index b + n" if "n \<le> readable_bytes b"
    using that wf_bufferD [OF assms(1)] string_size_bound [of "reader_index b + n"]
    by (intro size_add_exact) (simp add: readable_bytes_def)
  with OpRetrieve assms show ?thesis
    by (auto simp: retrieve_def retrieve_all_def bindE_eq_Inr split: if_splits)
next
  case (OpPrepend d)
  have "size_sub (reader_index b) (length d) = reader_index b - length d" if "length d \<le> reader_index b"
    using that wf_bufferD(7) [OF assms(1)] by (rule size_sub_exact)
  with OpPrepend assms(2,3) show ?thesis
    by (auto simp: prepend_def prependable_bytes_def bindE_eq_Inr Let_def)
qed (use assms in \<open>auto simp: retrieve_all_def unwrite_def bindE_eq_Inr\<close>)

lemma buffer_step_refines:
  assumes wf: "wf_buffer b" and room: "room b (op_size op + k)"
    and front: "case op of OpPrepend d \<Rightarrow> length d \<le> reader_index b | _ \<Rightarrow> True"
  shows "case bytes_step op (contents b) of
           Inl e \<Rightarrow> buffer_step op b = Inl e
         | Inr q \<Rightarrow> \<exists>b'. buffer_step op b = Inr b' \<and> wf_buffer b' \<and> contents b' = q \<and> room b' k"
proof (cases op)
  case (OpAppend s)
  with buf.put [OF wf] room show ?thesis by simp
next
  case (OpRead d)
  with read_fd_spec [OF wf] room show ?thesis by fastforce
next
  case (OpRetrieve n)
  with buf.discard [OF wf, of n] room retrieve_too_much [of b n] length_contents [OF wf]
  show ?thesis by (auto simp: not_le)
next
  case OpRetrieveAll
  with buf.clear [OF wf] room show ?thesis by simp
next
  case (OpUnwrite n)
  with unwrite_spec [OF wf, of n] room length_contents [OF wf]
  show ?thesis by (auto simp: unwrite_def assertE_def)
next
  case (OpPrepend d)
  with front have fits: "length d \<le> reader_index b" by simp
  from prepend_eq [OF wf fits] obtain b' where
    b': "prepend d b = Inr b'" "wf_buffer b'" "contents b' = d @ contents b" by blast
  have "writer_index b' = writer_index b"
    using b'(1) by (auto simp: prepend_def bindE_eq_Inr Let_def)
  with b' OpPrepend room show ?thesis by (simp add: room_def)
qed

text \<open>C16: Any sequence of operations on a buffer, \<open>append\<close>, reads from a descriptor, \<open>retrieve\<close>,
  \<open>retrieve_all\<close>, \<open>unwrite\<close> and \<open>prepend\<close>, computes what the same sequence does on the plain byte
  sequence, aborting at the same operation if it aborts at all: the storage management (growing,
  moving to the front, the indices) is not visible. The storage does show in how much can be
  prepended, so each \<open>prepend\<close> is within the bytes that are in front of the contents whatever the
  storage has done: the eight of a new or emptied buffer, or those retrieved since, less those
  prepended (\<open>prepends_fit\<close>); and the bytes put in must fit into a string.\<close>

theorem buffer_refines_bytes:
  assumes "wf_buffer b" and "room b (sum_list (map op_size ops))" and "prepends_fit f ops" and "f \<le> reader_index b"
  shows "map_sum id contents (foldE buffer_step ops b) = foldE bytes_step ops (contents b)"
  using assms
proof (induction ops arbitrary: b f)
  case Nil
  then show ?case by simp
next
  case (Cons op ops)
  have "room b (op_size op + sum_list (map op_size ops))" using Cons.prems(2) by simp
  moreover have "case op of OpPrepend d \<Rightarrow> length d \<le> reader_index b | _ \<Rightarrow> True"
    using Cons.prems(3,4) by (cases op) auto
  ultimately have step: "case bytes_step op (contents b) of
      Inl e \<Rightarrow> buffer_step op b = Inl e
    | Inr q \<Rightarrow> \<exists>b'. buffer_step op b = Inr b' \<and> wf_buffer b' \<and> contents b' = q \<and>
        room b' (sum_list (map op_size ops))"
    by (rule buffer_step_refines [OF Cons.prems(1)])
  show ?case
  proof (cases "bytes_step op (contents b)")
    case (Inl e)
    with step show ?thesis by simp
  next
    case (Inr q)
    with step obtain b' where b': "buffer_step op b = Inr b'" "wf_buffer b'" "contents b' = q"
      "room b' (sum_list (map op_size ops))" by auto
    have "prepends_fit (front_after op f) ops" using Cons.prems(3) by simp
    from Cons.IH [OF b'(2,4) this step_front [OF Cons.prems(1,4) b'(1)]] b' Inr show ?thesis by simp
  qed
qed

theorem buffer_refines_bytes_witness:
  "map_sum id contents
     (foldE buffer_step [OpRead ''GET /'', OpPrepend ''size'', OpRetrieve 4, OpUnwrite 2, OpPrepend ''1234567'',
        OpRetrieve 100] new_buffer)
   = foldE bytes_step [OpRead ''GET /'', OpPrepend ''size'', OpRetrieve 4, OpUnwrite 2, OpPrepend ''1234567'',
        OpRetrieve 100] (contents new_buffer)"
proof (rule buffer_refines_bytes [where f = 8])
  show "8 \<le> reader_index new_buffer" by (simp add: new_buffer_def kCheapPrepend_def)
qed (simp_all add: max_string_size_def kCheapPrepend_def)

text \<open>\<open>find_cr_lf\<close> finds the first CR LF among the readable bytes, whole and nowhere
  earlier, and answers \<open>nullptr\<close> exactly when there is none.\<close>

theorem find_cr_lf_first:
  assumes "wf_buffer b"
  shows "case find_cr_lf b of
           None \<Rightarrow> \<forall>i. take 2 (drop i (contents b)) \<noteq> crlf
         | Some i \<Rightarrow> i + 2 \<le> readable_bytes b \<and> take 2 (drop i (contents b)) = crlf
             \<and> (\<forall>j < i. take 2 (drop j (contents b)) \<noteq> crlf)"
proof (cases "find_sub crlf (contents b)")
  case None
  then show ?thesis
    using find_sub_NoneD [OF None]
    by (simp add: find_cr_lf_def contents_def numeral_2_eq_2)
next
  case (Some i)
  from find_sub_SomeD [OF Some] show ?thesis
    using Some length_contents [OF assms]
    by (auto simp: find_cr_lf_def contents_def Let_def numeral_2_eq_2)
qed

theorem find_cr_lf_first_witness:
  "let b = \<lparr>buf_data = ''Host'' @ crlf @ ''abcdef'', reader_index = 0, writer_index = 10\<rparr> in
   case find_cr_lf b of
     None \<Rightarrow> \<forall>i. take 2 (drop i (contents b)) \<noteq> crlf
   | Some i \<Rightarrow> i + 2 \<le> readable_bytes b \<and> take 2 (drop i (contents b)) = crlf
       \<and> (\<forall>j < i. take 2 (drop j (contents b)) \<noteq> crlf)"
  unfolding Let_def
  by (rule find_cr_lf_first) (simp add: wf_buffer_def kCheapPrepend_def max_string_size_def)

end
