(* ===== verification/Channel.thy ===== *)
theory Channel
  imports Prelude "HOL-Library.Word"
begin

text \<open>
  The channel of \<open>wuduo/channel.h\<close> and \<open>wuduo/channel.cpp\<close>: a file descriptor with the
  events it asks for, the events last reported for it and the flag that \<open>Epoller\<close> keeps in
  it. The dispatch of reported events to the callbacks is here; the operations that change
  the events asked for call back into the loop and its epoller and stand in the theory
  \<open>Epoller\<close>.
\<close>

unbundle bit_operations_syntax

section \<open>Data\<close>

type_synonym event_mask = "32 word"

text \<open>The constants of \<open>sys/epoll.h\<close> that the program uses.\<close>

definition EPOLLIN :: event_mask where "EPOLLIN = 0x001"
definition EPOLLPRI :: event_mask where "EPOLLPRI = 0x002"
definition EPOLLOUT :: event_mask where "EPOLLOUT = 0x004"
definition EPOLLERR :: event_mask where "EPOLLERR = 0x008"
definition EPOLLHUP :: event_mask where "EPOLLHUP = 0x010"
definition EPOLLRDHUP :: event_mask where "EPOLLRDHUP = 0x2000"

lemmas epoll_constants =
  EPOLLIN_def EPOLLPRI_def EPOLLOUT_def EPOLLERR_def EPOLLHUP_def EPOLLRDHUP_def

record channel =
  owner_loop :: nat
  channel_fd :: int
  events :: event_mask
  revents :: event_mask
  in_interest_list :: bool

definition new_channel :: "nat \<Rightarrow> int \<Rightarrow> channel" where
  "new_channel loop fd =
     \<lparr>owner_loop = loop, channel_fd = fd, events = 0, revents = 0, in_interest_list = False\<rparr>"

definition set_revents :: "event_mask \<Rightarrow> channel \<Rightarrow> channel" where
  "set_revents e ch = ch\<lparr>revents := e\<rparr>"

definition has_none_events :: "channel \<Rightarrow> bool" where
  "has_none_events ch \<longleftrightarrow> events ch = 0"

definition set_in_interest_list :: "bool \<Rightarrow> channel \<Rightarrow> channel" where
  "set_in_interest_list b ch = ch\<lparr>in_interest_list := b\<rparr>"

definition is_reading :: "channel \<Rightarrow> bool" where
  "is_reading ch \<longleftrightarrow> events ch AND (EPOLLIN OR EPOLLPRI) \<noteq> 0"

definition is_writing :: "channel \<Rightarrow> bool" where
  "is_writing ch \<longleftrightarrow> events ch AND EPOLLOUT \<noteq> 0"

section \<open>Dispatch\<close>

text \<open>
  A callback may change any state of the program; it is a function on that state, and
  \<open>None\<close> is an empty \<open>std::function\<close>.
\<close>

record 's channel_callbacks =
  read_callback :: "('s \<Rightarrow> 's result) option"
  write_callback :: "('s \<Rightarrow> 's result) option"
  close_callback :: "('s \<Rightarrow> 's result) option"
  error_callback :: "('s \<Rightarrow> 's result) option"

text \<open>A new channel has no callback; each is set on its own.\<close>

definition no_channel_callbacks :: "'s channel_callbacks" where
  "no_channel_callbacks =
     \<lparr>read_callback = None, write_callback = None, close_callback = None, error_callback = None\<rparr>"

definition set_read_callback :: "('s \<Rightarrow> 's result) \<Rightarrow> 's channel_callbacks \<Rightarrow> 's channel_callbacks" where
  "set_read_callback cb cbs = cbs\<lparr>read_callback := Some cb\<rparr>"

definition set_write_callback :: "('s \<Rightarrow> 's result) \<Rightarrow> 's channel_callbacks \<Rightarrow> 's channel_callbacks" where
  "set_write_callback cb cbs = cbs\<lparr>write_callback := Some cb\<rparr>"

definition set_close_callback :: "('s \<Rightarrow> 's result) \<Rightarrow> 's channel_callbacks \<Rightarrow> 's channel_callbacks" where
  "set_close_callback cb cbs = cbs\<lparr>close_callback := Some cb\<rparr>"

definition set_error_callback :: "('s \<Rightarrow> 's result) \<Rightarrow> 's channel_callbacks \<Rightarrow> 's channel_callbacks" where
  "set_error_callback cb cbs = cbs\<lparr>error_callback := Some cb\<rparr>"

lemmas channel_callback_defs [simp] = no_channel_callbacks_def set_read_callback_def
  set_write_callback_def set_close_callback_def set_error_callback_def

definition call_if_set :: "('s \<Rightarrow> 's result) option \<Rightarrow> 's \<Rightarrow> 's result" where
  "call_if_set cb s = (case cb of None \<Rightarrow> Inr s | Some f \<Rightarrow> f s)"

definition handle_events ::
    "bool \<Rightarrow> channel \<Rightarrow> 's channel_callbacks \<Rightarrow> 's \<Rightarrow> 's result" where
  "handle_events in_loop ch cbs s =
     bindE (assertE in_loop) (\<lambda>_.
     bindE (if revents ch AND EPOLLHUP \<noteq> 0 \<and> revents ch AND EPOLLIN = 0
            then call_if_set (close_callback cbs) s else Inr s) (\<lambda>s1.
     bindE (if revents ch AND EPOLLERR \<noteq> 0
            then call_if_set (error_callback cbs) s1 else Inr s1) (\<lambda>s2.
     bindE (if revents ch AND (EPOLLIN OR EPOLLPRI OR EPOLLRDHUP) \<noteq> 0
            then call_if_set (read_callback cbs) s2 else Inr s2) (\<lambda>s3.
     if revents ch AND EPOLLOUT \<noteq> 0
     then call_if_set (write_callback cbs) s3 else Inr s3))))"

section \<open>Masks\<close>

lemma is_writing_bit: "is_writing ch \<longleftrightarrow> bit (events ch) 2"
proof -
  have "EPOLLOUT = push_bit 2 1" by (simp add: EPOLLOUT_def push_bit_eq_mult)
  then have "is_writing ch \<longleftrightarrow> events ch AND push_bit 2 1 \<noteq> 0"
    by (simp add: is_writing_def)
  also have "\<dots> \<longleftrightarrow> bit (events ch) 2"
    by (simp add: bit_iff_and_push_bit_not_eq_0)
  finally show ?thesis .
qed

lemma bit_EPOLLOUT: "bit EPOLLOUT n \<longleftrightarrow> n = 2"
proof -
  have "EPOLLOUT = push_bit 2 1" by (simp add: EPOLLOUT_def push_bit_eq_mult)
  moreover have "bit (push_bit 2 (1 :: event_mask)) n \<longleftrightarrow> n = 2"
    by (auto simp only: bit_push_bit_iff bit_1_iff) simp_all
  ultimately show ?thesis by (simp only:)
qed

lemma reading_mask_not_writing [simp]: "\<not> bit EPOLLIN 2" "\<not> bit EPOLLPRI 2"
  by (simp_all add: EPOLLIN_def EPOLLPRI_def)

lemma is_writing_update [simp]:
  "is_writing (ch\<lparr>events := events ch OR EPOLLOUT\<rparr>)"
  "\<not> is_writing (ch\<lparr>events := events ch AND NOT EPOLLOUT\<rparr>)"
  "is_writing (ch\<lparr>events := events ch OR (EPOLLIN OR EPOLLPRI)\<rparr>) \<longleftrightarrow> is_writing ch"
  "\<not> is_writing (ch\<lparr>events := 0\<rparr>)"
  by (simp_all add: is_writing_bit bit_or_iff bit_and_iff bit_not_iff bit_EPOLLOUT
      del: bit_unsigned_iff)

lemma is_writing_cong [simp]:
  "is_writing (ch\<lparr>in_interest_list := b\<rparr>) \<longleftrightarrow> is_writing ch"
  "is_writing (ch\<lparr>revents := e\<rparr>) \<longleftrightarrow> is_writing ch"
  by (simp_all add: is_writing_def)

lemma or_reading_nonzero [simp]: "e OR (EPOLLIN OR EPOLLPRI) \<noteq> 0"
proof
  assume "e OR (EPOLLIN OR EPOLLPRI) = 0"
  then have "bit (EPOLLIN OR EPOLLPRI) 0 \<longrightarrow> False"
    by (metis bit_0_eq bit_or_iff bot_apply bot_bool_def)
  then show False by (simp add: EPOLLIN_def EPOLLPRI_def)
qed

lemma or_writing_nonzero [simp]: "e OR EPOLLOUT \<noteq> 0"
  by (metis bit_0_eq bit_EPOLLOUT bit_or_iff bot_apply bot_bool_def)

lemma writing_nonzero: "is_writing ch \<Longrightarrow> events ch \<noteq> 0"
  by (auto simp: is_writing_def)

end
