(* ===== verification/Epoller.thy ===== *)
theory Epoller
  imports Channel
begin

text \<open>
  \<open>Epoller\<close> of \<open>wuduo/epoller.h\<close> and \<open>wuduo/epoller.cpp\<close>, and the operations of \<open>Channel\<close>
  that change the events asked for, which go through \<open>EventLoop::update_channel\<close> to it.
  The kernel is outside the program: whether \<open>epoll_ctl\<close> succeeds and what \<open>epoll_wait\<close>
  reports are arguments. The last sections relate the flag \<open>in_interest_list_\<close> to the
  interest list the kernel keeps according to the manual page of \<open>epoll_ctl\<close>.
\<close>

section \<open>Registering a channel\<close>

datatype ctl_op = CTL_ADD | CTL_MOD | CTL_DEL

definition ctl_op_from :: "channel \<Rightarrow> ctl_op result" where
  "ctl_op_from ch =
     (if \<not> in_interest_list ch
      then bindE (assertE (\<not> has_none_events ch)) (\<lambda>_. Inr CTL_ADD)
      else Inr (if has_none_events ch then CTL_DEL else CTL_MOD))"

definition set_state_in_interest_list :: "channel \<Rightarrow> ctl_op \<Rightarrow> channel result" where
  "set_state_in_interest_list ch op =
     (if \<not> in_interest_list ch
      then bindE (assertE (op = CTL_ADD)) (\<lambda>_. Inr (set_in_interest_list True ch))
      else if has_none_events ch
      then bindE (assertE (op = CTL_DEL)) (\<lambda>_. Inr (set_in_interest_list False ch))
      else bindE (assertE (op = CTL_MOD)) (\<lambda>_. Inr (set_in_interest_list True ch)))"

text \<open>\<open>ok\<close> says whether \<open>epoll_ctl\<close> succeeds; a failure is logged and nothing else.\<close>

definition epoller_update_channel :: "bool \<Rightarrow> bool \<Rightarrow> channel \<Rightarrow> channel result" where
  "epoller_update_channel in_loop ok ch =
     bindE (assertE in_loop) (\<lambda>_.
     bindE (ctl_op_from ch) (\<lambda>op.
     if ok then set_state_in_interest_list ch op else Inr ch))"

definition loop_update_channel :: "nat \<Rightarrow> bool \<Rightarrow> bool \<Rightarrow> channel \<Rightarrow> channel result" where
  "loop_update_channel this_loop in_loop ok ch =
     bindE (assertE (owner_loop ch = this_loop)) (\<lambda>_.
     bindE (assertE in_loop) (\<lambda>_.
     epoller_update_channel in_loop ok ch))"

definition channel_update :: "bool \<Rightarrow> bool \<Rightarrow> channel \<Rightarrow> channel result" where
  "channel_update in_loop ok ch = loop_update_channel (owner_loop ch) in_loop ok ch"

definition enable_reading :: "bool \<Rightarrow> bool \<Rightarrow> channel \<Rightarrow> channel result" where
  "enable_reading in_loop ok ch =
     channel_update in_loop ok (ch\<lparr>events := events ch OR (EPOLLIN OR EPOLLPRI)\<rparr>)"

definition enable_writing :: "bool \<Rightarrow> bool \<Rightarrow> channel \<Rightarrow> channel result" where
  "enable_writing in_loop ok ch =
     channel_update in_loop ok (ch\<lparr>events := events ch OR EPOLLOUT\<rparr>)"

definition disable_reading :: "bool \<Rightarrow> bool \<Rightarrow> channel \<Rightarrow> channel result" where
  "disable_reading in_loop ok ch =
     channel_update in_loop ok (ch\<lparr>events := events ch AND NOT (EPOLLIN OR EPOLLPRI)\<rparr>)"

definition disable_writing :: "bool \<Rightarrow> bool \<Rightarrow> channel \<Rightarrow> channel result" where
  "disable_writing in_loop ok ch =
     channel_update in_loop ok (ch\<lparr>events := events ch AND NOT EPOLLOUT\<rparr>)"

definition disable_all :: "bool \<Rightarrow> bool \<Rightarrow> channel \<Rightarrow> channel result" where
  "disable_all in_loop ok ch = channel_update in_loop ok (ch\<lparr>events := 0\<rparr>)"

definition channel_dtor :: "bool \<Rightarrow> bool \<Rightarrow> channel \<Rightarrow> unit result" where
  "channel_dtor in_loop ok ch =
     bindE (assertE (\<not> in_interest_list ch)) (\<lambda>_.
     if \<not> has_none_events ch
     then bindE (disable_all in_loop ok ch) (\<lambda>_. Inr ())
     else Inr ())"

section \<open>Waiting\<close>

text \<open>
  A ready entry of \<open>epoll_wait\<close> is the channel pointer stored with the registration, here a
  key of the map of live channels, and the events reported. \<open>epoller\<close> is the length of the
  output vector \<open>events_\<close>. The result is the list of active channels, the channels with
  \<open>revents_\<close> set, and the epoller.
\<close>

datatype wait_result = WaitReady "(nat \<times> event_mask) list" | WaitErr int

record epoller =
  output_size :: nat

definition kDefaultEventsOutputSize :: nat where
  "kDefaultEventsOutputSize = 128"

definition new_epoller :: epoller where
  "new_epoller = \<lparr>output_size = kDefaultEventsOutputSize\<rparr>"

fun collect_active ::
    "(nat \<times> event_mask) list \<Rightarrow> (nat \<Rightarrow> channel) \<Rightarrow> nat list \<times> (nat \<Rightarrow> channel)" where
  "collect_active [] chans = ([], chans)"
| "collect_active ((c, e) # ready) chans =
     (let rest = collect_active ready (chans(c := set_revents e (chans c)))
      in (c # fst rest, snd rest))"

definition epoller_wait ::
    "bool \<Rightarrow> wait_result \<Rightarrow> epoller \<Rightarrow> (nat \<Rightarrow> channel)
      \<Rightarrow> (nat list \<times> (nat \<Rightarrow> channel) \<times> epoller) result" where
  "epoller_wait in_loop r ep chans =
     bindE (assertE in_loop) (\<lambda>_.
     let max_events = output_size ep in
     case r of
       WaitErr _ \<Rightarrow> Inr ([], chans, ep)
     | WaitReady ready \<Rightarrow>
         if ready = [] then Inr ([], chans, ep)
         else let collected = collect_active ready chans;
                  ep' = (if length ready = max_events
                         then ep\<lparr>output_size := 3 * max_events div 2\<rparr> else ep)
              in Inr (fst collected, snd collected, ep'))"

section \<open>Lemmas\<close>

lemmas channel_op_defs =
  enable_reading_def enable_writing_def disable_reading_def disable_writing_def disable_all_def

lemma channel_update_eq:
  "channel_update True ok ch =
     (if \<not> in_interest_list ch \<and> events ch = 0 then Inl AssertFailure
      else if ok then Inr (ch\<lparr>in_interest_list := events ch \<noteq> 0\<rparr>)
      else Inr ch)"
  by (auto simp: channel_update_def loop_update_channel_def epoller_update_channel_def
      ctl_op_from_def set_state_in_interest_list_def set_in_interest_list_def
      has_none_events_def bindE_assertE)

lemma channel_update_other_thread: "channel_update False ok ch = Inl AssertFailure"
  by (simp add: channel_update_def loop_update_channel_def bindE_assertE)

lemma enable_reading_eq [channel_eqs]:
  "enable_reading True True ch =
     Inr (ch\<lparr>events := events ch OR (EPOLLIN OR EPOLLPRI), in_interest_list := True\<rparr>)"
  "enable_reading True False ch = Inr (ch\<lparr>events := events ch OR (EPOLLIN OR EPOLLPRI)\<rparr>)"
  by (simp_all add: enable_reading_def channel_update_eq)

lemma enable_writing_eq [channel_eqs]:
  "enable_writing True True ch =
     Inr (ch\<lparr>events := events ch OR EPOLLOUT, in_interest_list := True\<rparr>)"
  "enable_writing True False ch = Inr (ch\<lparr>events := events ch OR EPOLLOUT\<rparr>)"
  by (simp_all add: enable_writing_def channel_update_eq)

lemma disable_writing_eq [channel_eqs]:
  "disable_writing True ok ch =
     (if \<not> in_interest_list ch \<and> events ch AND NOT EPOLLOUT = 0 then Inl AssertFailure
      else if ok
      then Inr (ch\<lparr>events := events ch AND NOT EPOLLOUT,
                  in_interest_list := events ch AND NOT EPOLLOUT \<noteq> 0\<rparr>)
      else Inr (ch\<lparr>events := events ch AND NOT EPOLLOUT\<rparr>))"
  by (simp add: disable_writing_def channel_update_eq)

lemma disable_all_eq [channel_eqs]:
  "disable_all True ok ch =
     (if \<not> in_interest_list ch then Inl AssertFailure
      else if ok then Inr (ch\<lparr>events := 0, in_interest_list := False\<rparr>)
      else Inr (ch\<lparr>events := 0\<rparr>))"
  by (simp add: disable_all_def channel_update_eq)

lemma channel_dtor_iff:
  "channel_dtor True ok ch = (if in_interest_list ch \<or> events ch \<noteq> 0 then Inl AssertFailure
                              else Inr ())"
  by (simp add: channel_dtor_def bindE_assertE has_none_events_def disable_all_eq)

lemma collect_active_fst: "fst (collect_active ready chans) = map fst ready"
  by (induction ready arbitrary: chans) (auto simp: Let_def)

lemma collect_active_other:
  "c \<notin> fst ` set ready \<Longrightarrow> snd (collect_active ready chans) c = chans c"
  by (induction ready arbitrary: chans) (auto simp: Let_def)

lemma collect_active_revents:
  "distinct (map fst ready) \<Longrightarrow> (c, e) \<in> set ready \<Longrightarrow>
   snd (collect_active ready chans) c = set_revents e (chans c)"
  by (induction ready arbitrary: chans) (auto simp: Let_def collect_active_other image_iff)

section \<open>The interest list\<close>

text \<open>
  The manual page of \<open>epoll_ctl\<close> for one descriptor, as the specification of what the
  class must ask for: the entry (the events registered) if there is one. \<open>None\<close> is a
  refusal, \<open>EEXIST\<close> for an addition twice, \<open>ENOENT\<close> for the others without an entry.
\<close>

fun kernel_ctl :: "ctl_op \<Rightarrow> event_mask \<Rightarrow> event_mask option \<Rightarrow> event_mask option option" where
  "kernel_ctl CTL_ADD e None = Some (Some e)"
| "kernel_ctl CTL_ADD e (Some _) = None"
| "kernel_ctl CTL_MOD e (Some _) = Some (Some e)"
| "kernel_ctl CTL_DEL e (Some _) = Some None"
| "kernel_ctl _ e None = None"

datatype channel_op =
    EnableReading | EnableWriting | DisableReading | DisableWriting | DisableAll

fun apply_op :: "channel_op \<Rightarrow> bool \<Rightarrow> channel \<Rightarrow> channel result" where
  "apply_op EnableReading ok ch = enable_reading True ok ch"
| "apply_op EnableWriting ok ch = enable_writing True ok ch"
| "apply_op DisableReading ok ch = disable_reading True ok ch"
| "apply_op DisableWriting ok ch = disable_writing True ok ch"
| "apply_op DisableAll ok ch = disable_all True ok ch"

text \<open>One operation together with the kernel's entry: the call issued is the one
  \<open>ctl_op_from\<close> picks for the new events while the flag is still the old one.\<close>

definition issued_call :: "channel \<Rightarrow> channel \<Rightarrow> ctl_op result" where
  "issued_call ch ch' = ctl_op_from (ch'\<lparr>in_interest_list := in_interest_list ch\<rparr>)"

definition interest_step ::
    "channel_op \<times> bool \<Rightarrow> channel \<times> event_mask option \<Rightarrow> (channel \<times> event_mask option) result" where
  "interest_step step s =
     (let (op, ok) = step; (ch, entry) = s in
      bindE (apply_op op ok ch) (\<lambda>ch'.
      bindE (issued_call ch ch') (\<lambda>call.
      Inr (ch', if ok then (case kernel_ctl call (events ch') entry of
                              None \<Rightarrow> entry | Some entry' \<Rightarrow> entry')
                else entry))))"

definition tracked :: "channel \<times> event_mask option \<Rightarrow> bool" where
  "tracked s \<longleftrightarrow> (in_interest_list (fst s) \<longleftrightarrow> snd s \<noteq> None)"

definition in_step_with :: "channel \<times> event_mask option \<Rightarrow> bool" where
  "in_step_with s \<longleftrightarrow> snd s = (if events (fst s) = 0 then None else Some (events (fst s)))"

lemma apply_op_cases:
  assumes "apply_op op ok ch = Inr ch'"
  shows "(in_interest_list ch \<or> events ch' \<noteq> 0) \<and>
         in_interest_list ch' = (if ok then events ch' \<noteq> 0 else in_interest_list ch)"
  using assms by (cases op) (auto simp: channel_op_defs channel_update_eq split: if_splits)

lemma issued_call_accepted:
  assumes "apply_op op ok ch = Inr ch'" and "tracked (ch, entry)"
  shows "\<exists>call. issued_call ch ch' = Inr call \<and>
           kernel_ctl call (events ch') entry
             = Some (if events ch' = 0 then None else Some (events ch'))"
  using apply_op_cases [OF assms(1)] assms(2)
  by (cases entry)
    (auto simp: issued_call_def ctl_op_from_def has_none_events_def tracked_def)

lemma interest_step_tracked:
  assumes "interest_step (op, ok) (ch, entry) = Inr s'" and "tracked (ch, entry)"
  shows "tracked s' \<and> (ok \<longrightarrow> in_step_with s')"
proof -
  obtain ch' where ch': "apply_op op ok ch = Inr ch'"
    using assms(1) by (auto simp: interest_step_def bindE_eq_Inr)
  obtain call where call: "issued_call ch ch' = Inr call"
    "kernel_ctl call (events ch') entry = Some (if events ch' = 0 then None else Some (events ch'))"
    using issued_call_accepted [OF ch' assms(2)] by blast
  show ?thesis
    using assms apply_op_cases [OF ch'] ch' call
    by (auto simp: interest_step_def tracked_def in_step_with_def split: if_splits)
qed

lemma interest_run_tracked:
  assumes "foldE interest_step steps s = Inr s'" and "tracked s"
  shows "tracked s'"
  using assms
proof (induction steps arbitrary: s)
  case Nil
  then show ?case by simp
next
  case (Cons step steps)
  obtain op ok where step: "step = (op, ok)" by (cases step) auto
  obtain ch entry where s: "s = (ch, entry)" by (cases s) auto
  from Cons.prems(1) obtain s1 where "interest_step step s = Inr s1"
    "foldE interest_step steps s1 = Inr s'" by (auto elim: bindE_InrE)
  then show ?case
    using Cons.IH interest_step_tracked Cons.prems(2) step s by blast
qed

section \<open>Properties\<close>

text \<open>C28: However a channel's operations are sequenced and whichever of the system calls
  fail, \<open>in_interest_list_\<close> always says whether the kernel has an entry for it; so the next
  call is always one the kernel accepts (never \<open>EEXIST\<close> or \<open>ENOENT\<close>), and when that call
  succeeds the entry holds exactly the events the channel asks for.\<close>

theorem interest_list_tracked:
  assumes "foldE interest_step steps (new_channel l fd, None) = Inr (ch, entry)"
  shows "(in_interest_list ch \<longleftrightarrow> entry \<noteq> None) \<and>
     (\<forall>op ok. case apply_op op ok ch of
        Inl e \<Rightarrow> e = AssertFailure \<and> entry = None
      | Inr ch' \<Rightarrow> (\<exists>call. issued_call ch ch' = Inr call \<and> kernel_ctl call (events ch') entry
                     = Some (if events ch' = 0 then None else Some (events ch'))))"
proof -
  have t: "tracked (ch, entry)"
    using interest_run_tracked [OF assms] by (simp add: tracked_def new_channel_def)
  have abort: "e = AssertFailure \<and> \<not> in_interest_list ch" if "apply_op op ok ch = Inl e" for op ok e
    using that by (cases op) (auto simp: channel_op_defs channel_update_eq split: if_splits)
  from t abort issued_call_accepted [OF _ t] show ?thesis
    by (fastforce simp: tracked_def split: sum.splits)
qed

theorem interest_list_tracked_witness:
  "\<exists>ch. foldE interest_step [(EnableReading, True), (EnableWriting, False), (DisableAll, True)]
          (new_channel 0 5, None) = Inr (ch, None) \<and> (in_interest_list ch \<longleftrightarrow> None \<noteq> (None :: event_mask option))"
proof -
  let ?steps = "[(EnableReading, True), (EnableWriting, False), (DisableAll, True)]"
  have "\<exists>ch. foldE interest_step ?steps (new_channel 0 5, None) = Inr (ch, None)"
    by (simp add: interest_step_def issued_call_def ctl_op_from_def has_none_events_def
        enable_reading_eq enable_writing_eq disable_all_eq new_channel_def epoll_constants)
  then obtain ch where "foldE interest_step ?steps (new_channel 0 5, None) = Inr (ch, None)"
    by blast
  with interest_list_tracked [OF this] show ?thesis by blast
qed

text \<open>\<open>wait\<close> hands out the ready channels in the order reported, each with its reported
  events in \<open>revents_\<close> and nothing else changed, leaves the other channels alone, and makes
  the output vector half as large again exactly when it came back full.\<close>

theorem epoller_wait_delivers:
  assumes "distinct (map fst ready)" and "ready \<noteq> []"
  shows "\<exists>chans' ep'. epoller_wait True (WaitReady ready) ep chans = Inr (map fst ready, chans', ep')
           \<and> (\<forall>c e. (c, e) \<in> set ready \<longrightarrow> chans' c = (chans c)\<lparr>revents := e\<rparr>)
           \<and> (\<forall>c. c \<notin> fst ` set ready \<longrightarrow> chans' c = chans c)
           \<and> output_size ep' = (if length ready = output_size ep
                                then output_size ep + output_size ep div 2 else output_size ep)"
proof -
  have "3 * output_size ep div 2 = output_size ep + output_size ep div 2" by presburger
  then show ?thesis
    using assms collect_active_other collect_active_revents
    by (auto simp: epoller_wait_def Let_def collect_active_fst set_revents_def)
qed

theorem epoller_wait_delivers_witness:
  "\<exists>chans' ep'. epoller_wait True (WaitReady [(3, EPOLLIN), (1, EPOLLOUT)]) new_epoller
                  (\<lambda>c. new_channel 0 (int c)) = Inr (map fst [(3, EPOLLIN), (1, EPOLLOUT)], chans', ep')
     \<and> (\<forall>c e. (c, e) \<in> set [(3, EPOLLIN), (1, EPOLLOUT)]
              \<longrightarrow> chans' c = (new_channel 0 (int c))\<lparr>revents := e\<rparr>)
     \<and> (\<forall>c. c \<notin> fst ` set [(3, EPOLLIN), (1, EPOLLOUT)] \<longrightarrow> chans' c = new_channel 0 (int c))
     \<and> output_size ep' = (if length [(3 :: nat, EPOLLIN), (1, EPOLLOUT)] = output_size new_epoller
                          then output_size new_epoller + output_size new_epoller div 2
                          else output_size new_epoller)"
  by (rule epoller_wait_delivers) simp_all

end
