(* ===== verification/Inet_Address.thy ===== *)
theory Inet_Address
  imports Prelude "HOL-Library.Word"
begin

text \<open>
  IPv4 socket addresses: \<open>wuduo/inet_address.h\<close> and \<open>wuduo/inet_address.cpp\<close>, on a
  little-endian host. \<open>inet_pton\<close> and \<open>inet_ntop\<close> of the C library convert between dotted
  decimal text and the four bytes of an address in memory.
\<close>

unbundle bit_operations_syntax

section \<open>Bytes in memory\<close>

text \<open>The bytes of a little-endian word in the order of their addresses, and back.\<close>

definition byte16 :: "nat \<Rightarrow> 16 word \<Rightarrow> 8 word" where
  "byte16 i w = ucast (drop_bit (8 * i) w)"

definition of_bytes16 :: "8 word \<Rightarrow> 8 word \<Rightarrow> 16 word" where
  "of_bytes16 b0 b1 = ucast b0 OR push_bit 8 (ucast b1)"

definition byte32 :: "nat \<Rightarrow> 32 word \<Rightarrow> 8 word" where
  "byte32 i w = ucast (drop_bit (8 * i) w)"

definition of_bytes32 :: "8 word \<Rightarrow> 8 word \<Rightarrow> 8 word \<Rightarrow> 8 word \<Rightarrow> 32 word" where
  "of_bytes32 b0 b1 b2 b3 =
     ucast b0 OR push_bit 8 (ucast b1) OR push_bit 16 (ucast b2) OR push_bit 24 (ucast b3)"

text \<open>\<open>htobe16\<close>, \<open>be16toh\<close> and \<open>htobe32\<close> on a little-endian host.\<close>

definition swap16 :: "16 word \<Rightarrow> 16 word" where
  "swap16 w = of_bytes16 (byte16 1 w) (byte16 0 w)"

definition swap32 :: "32 word \<Rightarrow> 32 word" where
  "swap32 w = of_bytes32 (byte32 3 w) (byte32 2 w) (byte32 1 w) (byte32 0 w)"

lemma byte16_of_bytes16 [simp]:
  "byte16 0 (of_bytes16 a b) = a" "byte16 (Suc 0) (of_bytes16 a b) = b"
  by (rule bit_word_eqI; auto simp: byte16_def of_bytes16_def bit_simps dest: bit_imp_le_length)+

lemma byte32_of_bytes32 [simp]:
  "byte32 0 (of_bytes32 a b c d) = a" "byte32 (Suc 0) (of_bytes32 a b c d) = b"
  "byte32 2 (of_bytes32 a b c d) = c" "byte32 3 (of_bytes32 a b c d) = d"
  by (rule bit_word_eqI; auto simp: byte32_def of_bytes32_def bit_simps dest: bit_imp_le_length)+

lemma swap32_of_bytes32 [simp]: "swap32 (of_bytes32 a b c d) = of_bytes32 d c b a"
  by (simp add: swap32_def)

lemma of_bytes16_byte16 [simp]: "of_bytes16 (byte16 0 w) (byte16 (Suc 0) w) = w"
  by (rule bit_word_eqI) (auto simp: byte16_def of_bytes16_def bit_simps)

lemma swap16_swap16 [simp]: "swap16 (swap16 w) = w"
  by (simp add: swap16_def)

section \<open>Addresses as text\<close>

abbreviation dot :: char where
  "dot \<equiv> CHR ''.''"

text \<open>\<open>inet_ntop(AF_INET, \<dots>)\<close> prints the bytes in the order of their addresses.\<close>

definition inet_ntop :: "32 word \<Rightarrow> bytes" where
  "inet_ntop a =
     dec (unat (byte32 0 a)) @ dot # dec (unat (byte32 1 a)) @ dot
       # dec (unat (byte32 2 a)) @ dot # dec (unat (byte32 3 a))"

fun split_dots :: "bytes \<Rightarrow> bytes list" where
  "split_dots [] = [[]]"
| "split_dots (c # s) =
     (if c = dot then [] # split_dots s
      else (case split_dots s of [] \<Rightarrow> [[c]] | p # ps \<Rightarrow> (c # p) # ps))"

definition octet :: "bytes \<Rightarrow> nat option" where
  "octet s =
     (if s \<noteq> [] \<and> (\<forall>c \<in> set s. is_digit c) \<and> dec_val s \<le> 255
          \<and> (1 < length s \<longrightarrow> hd s \<noteq> CHR ''0'')
      then Some (dec_val s) else None)"

text \<open>\<open>inet_pton(AF_INET, \<dots>)\<close>: the four bytes are stored in the order of the text, nothing is
  stored if the text is not a dotted quad.\<close>

definition inet_pton :: "bytes \<Rightarrow> 32 word option" where
  "inet_pton s =
     (case map octet (split_dots s) of
        [Some a, Some b, Some c, Some d] \<Rightarrow>
          Some (of_bytes32 (of_nat a) (of_nat b) (of_nat c) (of_nat d))
      | _ \<Rightarrow> None)"

section \<open>The class\<close>

definition AF_INET :: "16 word" where
  "AF_INET = 2"

definition INADDR_ANY :: "32 word" where
  "INADDR_ANY = 0"

definition INADDR_LOOPBACK :: "32 word" where
  "INADDR_LOOPBACK = 0x7f000001"

record sockaddr_in =
  sin_family :: "16 word"
  sin_port :: "16 word"
  s_addr :: "32 word"

definition zero_sockaddr :: sockaddr_in where
  "zero_sockaddr = \<lparr>sin_family = 0, sin_port = 0, s_addr = 0\<rparr>"

definition inet_address_any :: "16 word \<Rightarrow> bool \<Rightarrow> sockaddr_in" where
  "inet_address_any p loopback =
     zero_sockaddr\<lparr>sin_family := AF_INET, sin_port := swap16 p,
                  s_addr := swap32 (if loopback then INADDR_LOOPBACK else INADDR_ANY)\<rparr>"

text \<open>\<open>garbage\<close> is the value of the uninitialised variable that \<open>inet_pton\<close> should set.\<close>

definition inet_address_ip :: "32 word \<Rightarrow> 16 word \<Rightarrow> bytes \<Rightarrow> sockaddr_in" where
  "inet_address_ip garbage p ip_address =
     (let ip_address_number = (case inet_pton ip_address of None \<Rightarrow> garbage | Some n \<Rightarrow> n) in
      zero_sockaddr\<lparr>sin_family := AF_INET, sin_port := swap16 p,
                   s_addr := swap32 ip_address_number\<rparr>)"

definition port :: "sockaddr_in \<Rightarrow> 16 word" where
  "port a = swap16 (sin_port a)"

definition ip :: "sockaddr_in \<Rightarrow> bytes" where
  "ip a = inet_ntop (s_addr a)"

text \<open>\<open>local_from\<close> and \<open>peer_from\<close>: the address \<open>getsockname\<close> or \<open>getpeername\<close> stores, if it
  succeeds.\<close>

definition address_from :: "sockaddr_in option \<Rightarrow> sockaddr_in" where
  "address_from r = (case r of None \<Rightarrow> zero_sockaddr | Some a \<Rightarrow> a)"

section \<open>Lemmas\<close>

lemma dot_not_digit [simp]: "\<not> is_digit dot"
  by (simp add: is_digit_def)

lemma dot_not_in_dec [simp]: "dot \<notin> set (dec n)"
  using dec_digits [of n] by auto

lemma split_dots_cons: "dot \<notin> set s \<Longrightarrow> split_dots (s @ dot # t) = s # split_dots t"
  by (induction s) auto

lemma split_dots_last: "dot \<notin> set s \<Longrightarrow> split_dots s = [s]"
  by (induction s) auto

lemma hd_dec: "0 < n \<Longrightarrow> hd (dec n) \<noteq> CHR ''0''"
proof (induction n rule: dec.induct)
  case (1 n)
  show ?case
  proof (cases "n < 10")
    case True
    have "char_of (48 + n) \<noteq> CHR ''0''"
    proof
      assume "char_of (48 + n) = CHR ''0''"
      then have "digit_val (char_of (48 + n)) = digit_val (CHR ''0'')" by simp
      with True "1.prems" show False by (simp add: digit_val_def)
    qed
    with True show ?thesis by (subst dec.simps) simp
  next
    case False
    then show ?thesis using "1.IH" by (subst dec.simps) simp
  qed
qed

lemma octet_dec: "n \<le> 255 \<Longrightarrow> octet (dec n) = Some n"
proof -
  assume n: "n \<le> 255"
  have "hd (dec n) \<noteq> CHR ''0''" if "1 < length (dec n)"
    using that hd_dec [of n] by (cases n) (auto simp: dec.simps)
  with n show ?thesis by (auto simp: octet_def dec_digits)
qed

lemma inet_pton_dotted:
  assumes "a \<le> 255" "b \<le> 255" "c \<le> 255" "d \<le> 255"
  shows "inet_pton (dec a @ dot # dec b @ dot # dec c @ dot # dec d) =
     Some (of_bytes32 (of_nat a) (of_nat b) (of_nat c) (of_nat d))"
  using assms by (simp add: inet_pton_def split_dots_cons split_dots_last octet_dec)

lemma inet_ntop_bytes:
  assumes "a \<le> 255" "b \<le> 255" "c \<le> 255" "d \<le> 255"
  shows "inet_ntop (of_bytes32 (of_nat a) (of_nat b) (of_nat c) (of_nat d)) =
     dec a @ dot # dec b @ dot # dec c @ dot # dec d"
  using assms by (simp add: inet_ntop_def unat_of_nat)

section \<open>Properties\<close>

text \<open>The port of an address comes back as it was given, whichever constructor made it.\<close>

theorem port_roundtrip:
  "port (inet_address_any p loopback) = p \<and> port (inet_address_ip garbage p text) = p"
  by (simp add: port_def inet_address_any_def inet_address_ip_def Let_def)

text \<open>The address built from a flag prints as 127.0.0.1 or 0.0.0.0.\<close>

theorem any_and_loopback_ip:
  "ip (inet_address_any p loopback) = (if loopback then ''127.0.0.1'' else ''0.0.0.0'')"
proof -
  have loopback: "INADDR_LOOPBACK = of_bytes32 1 0 0 127" and any: "INADDR_ANY = of_bytes32 0 0 0 0"
    by (simp_all add: INADDR_LOOPBACK_def INADDR_ANY_def of_bytes32_def)
  have "swap32 INADDR_LOOPBACK = of_bytes32 (of_nat 127) (of_nat 0) (of_nat 0) (of_nat 1)"
    "swap32 INADDR_ANY = of_bytes32 (of_nat 0) (of_nat 0) (of_nat 0) (of_nat 0)"
    unfolding loopback any swap32_of_bytes32 by simp_all
  then show ?thesis
    using inet_ntop_bytes [of 127 0 0 1] inet_ntop_bytes [of 0 0 0 0]
    by (simp add: ip_def inet_address_any_def dec.simps)
qed

text \<open>The constructor from text reverses the address: given \<open>a.b.c.d\<close> it makes the address
  that prints as \<open>d.c.b.a\<close>, because \<open>inet_pton\<close> delivers network byte order already and the
  constructor converts once more. An address taken from the kernel prints as it is.\<close>

theorem text_address_reversed:
  assumes "a \<le> 255" "b \<le> 255" "c \<le> 255" "d \<le> 255"
  shows "ip (inet_address_ip garbage p (dec a @ dot # dec b @ dot # dec c @ dot # dec d))
           = dec d @ dot # dec c @ dot # dec b @ dot # dec a \<and>
         map_option (\<lambda>n. ip (address_from (Some (zero_sockaddr\<lparr>s_addr := n\<rparr>))))
             (inet_pton (dec a @ dot # dec b @ dot # dec c @ dot # dec d))
           = Some (dec a @ dot # dec b @ dot # dec c @ dot # dec d)"
  using assms by (simp add: ip_def inet_address_ip_def inet_pton_dotted swap32_def
      inet_ntop_bytes address_from_def)

theorem text_address_reversed_witness:
  "ip (inet_address_ip 0 80 (dec 10 @ dot # dec 0 @ dot # dec 2 @ dot # dec 15))
     = dec 15 @ dot # dec 2 @ dot # dec 0 @ dot # dec 10 \<and>
   map_option (\<lambda>n. ip (address_from (Some (zero_sockaddr\<lparr>s_addr := n\<rparr>))))
       (inet_pton (dec 10 @ dot # dec 0 @ dot # dec 2 @ dot # dec 15))
     = Some (dec 10 @ dot # dec 0 @ dot # dec 2 @ dot # dec 15)"
  by (rule text_address_reversed) simp_all

end
