(* ===== verification/Tcp_Connection.thy ===== *)
theory Tcp_Connection
  imports Buffer Epoller Inet_Address "HOL-Library.Sublist"
begin

text \<open>
  One connection: \<open>wuduo/tcp_connection.h\<close>, \<open>wuduo/tcp_connection.cpp\<close> and the socket options
  of \<open>wuduo/util.cpp\<close>. The kernel is a parameter: what its calls answer is a function of the
  number of calls made before, so a statement for every kernel covers every sequence of partial
  writes and errors. The kernel's side of the descriptor is the record \<open>sock\<close>: the bytes that
  \<open>write\<close> took over, and whether the writing direction was shut down.

  \<open>here\<close> says whether the caller is the thread of the connection's loop. A task that
  \<open>run_in_loop\<close> queues instead of running it is a value of \<open>conn_task\<close>, appended to \<open>posted\<close>;
  the event loop runs these in the order in which they were queued.
\<close>

section \<open>The kernel's side\<close>

datatype write_result = WriteOk nat | WriteErr int

record kernel =
  k_write :: "nat \<Rightarrow> bytes \<Rightarrow> write_result"
  k_ctl :: "nat \<Rightarrow> bool"
  k_shutdown :: "nat \<Rightarrow> bool"

text \<open>What is relied on: \<open>write\<close> takes over no more than it is given, and \<open>epoll_ctl\<close> succeeds. The
  first is documented for \<open>write\<close>; the second is an assumption: \<open>epoll_ctl\<close> may fail, for lack of
  memory or of watches, and the code then only logs it. \<open>failed_add_aborts\<close> shows what follows.\<close>

definition kernel_ok :: "kernel \<Rightarrow> bool" where
  "kernel_ok k \<longleftrightarrow> (\<forall>i d n. k_write k i d = WriteOk n \<longrightarrow> n \<le> length d) \<and> (\<forall>i. k_ctl k i)"

record sock =
  wrote :: bytes
  write_shut :: bool
  nodelay :: bool
  keep_alive :: bool
  fd_closed :: bool
  calls :: nat

definition new_sock :: sock where
  "new_sock = \<lparr>wrote = [], write_shut = False, nodelay = False, keep_alive = False,
               fd_closed = False, calls = 0\<rparr>"

definition set_nodelay :: "bool \<Rightarrow> sock \<Rightarrow> sock" where
  "set_nodelay on s = s\<lparr>nodelay := on\<rparr>"

definition set_keep_alive :: "bool \<Rightarrow> sock \<Rightarrow> sock" where
  "set_keep_alive on s = s\<lparr>keep_alive := on\<rparr>"

definition sock_write :: "kernel \<Rightarrow> bytes \<Rightarrow> sock \<Rightarrow> write_result \<times> sock" where
  "sock_write k d s =
     (let r = k_write k (calls s) d; s1 = s\<lparr>calls := Suc (calls s)\<rparr>
      in (r, case r of WriteOk n \<Rightarrow> s1\<lparr>wrote := wrote s @ take n d\<rparr> | WriteErr _ \<Rightarrow> s1))"

definition sock_shutdown :: "kernel \<Rightarrow> sock \<Rightarrow> sock" where
  "sock_shutdown k s =
     s\<lparr>calls := Suc (calls s), write_shut := write_shut s \<or> k_shutdown k (calls s)\<rparr>"

section \<open>The connection\<close>

datatype conn_state = kConnecting | kConnected | kDisconnecting | kDisconnected

datatype conn_task = EstablishTask | SendTask bytes | ShutdownTask | ForceCloseTask | DestroyTask

record 'x connection =
  conn_loop :: nat
  conn_state :: conn_state
  channel :: channel
  peer :: sockaddr_in
  reading :: bool
  in_buffer :: buffer
  output_buffer :: buffer
  conn_context :: 'x
  sock :: sock
  posted :: "conn_task list"

text \<open>A callback acts on the rest of the program, of type \<open>'w\<close>, and on the connection.\<close>

type_synonym ('w, 'x) callback = "'w \<times> 'x connection \<Rightarrow> ('w \<times> 'x connection) result"

record ('w, 'x) conn_callbacks =
  connection_cb :: "('w, 'x) callback option"
  message_cb :: "('w, 'x) callback option"
  close_cb :: "('w, 'x) callback option"

definition no_conn_callbacks :: "('w, 'x) conn_callbacks" where
  "no_conn_callbacks = \<lparr>connection_cb = None, message_cb = None, close_cb = None\<rparr>"

definition set_connection_callback ::
    "('w, 'x) callback option \<Rightarrow> ('w, 'x) conn_callbacks \<Rightarrow> ('w, 'x) conn_callbacks" where
  "set_connection_callback cb cbs = cbs\<lparr>connection_cb := cb\<rparr>"

definition set_message_callback ::
    "('w, 'x) callback option \<Rightarrow> ('w, 'x) conn_callbacks \<Rightarrow> ('w, 'x) conn_callbacks" where
  "set_message_callback cb cbs = cbs\<lparr>message_cb := cb\<rparr>"

definition set_conn_close_callback ::
    "('w, 'x) callback option \<Rightarrow> ('w, 'x) conn_callbacks \<Rightarrow> ('w, 'x) conn_callbacks" where
  "set_conn_close_callback cb cbs = cbs\<lparr>close_cb := cb\<rparr>"

lemmas conn_callback_defs [simp] = no_conn_callbacks_def set_connection_callback_def
  set_message_callback_def set_conn_close_callback_def

definition tcp_connection_ctor :: "nat \<Rightarrow> int \<Rightarrow> sockaddr_in \<Rightarrow> 'x \<Rightarrow> 'x connection" where
  "tcp_connection_ctor loop sockfd peer_address no_context =
     \<lparr>conn_loop = loop, conn_state = kConnecting, channel = new_channel loop sockfd,
      peer = peer_address, reading = False, in_buffer = new_buffer, output_buffer = new_buffer,
      conn_context = no_context, sock = set_keep_alive True (set_nodelay True new_sock), posted = []\<rparr>"

definition is_connected :: "'x connection \<Rightarrow> bool" where
  "is_connected c \<longleftrightarrow> conn_state c = kConnected"

definition is_disconnected :: "'x connection \<Rightarrow> bool" where
  "is_disconnected c \<longleftrightarrow> conn_state c = kDisconnected"

definition set_context :: "'x \<Rightarrow> 'x connection \<Rightarrow> 'x connection" where
  "set_context x c = c\<lparr>conn_context := x\<rparr>"

fun state_name :: "conn_state \<Rightarrow> bytes" where
  "state_name kConnecting = ''kConnecting''"
| "state_name kConnected = ''kConnected''"
| "state_name kDisconnecting = ''kDisconnecting''"
| "state_name kDisconnected = ''kDisconnected''"

definition state_as_string :: "'x connection \<Rightarrow> bytes" where
  "state_as_string c = state_name (conn_state c)"

definition set_state :: "conn_state \<Rightarrow> 'x connection \<Rightarrow> 'x connection" where
  "set_state s c = c\<lparr>conn_state := s\<rparr>"

definition post :: "conn_task \<Rightarrow> 'x connection \<Rightarrow> 'x connection" where
  "post t c = c\<lparr>posted := posted c @ [t]\<rparr>"

text \<open>A change of the channel's events, which makes one call of \<open>epoll_ctl\<close>.\<close>

definition on_channel ::
    "(bool \<Rightarrow> bool \<Rightarrow> channel \<Rightarrow> channel result) \<Rightarrow> kernel \<Rightarrow> bool \<Rightarrow> 'x connection \<Rightarrow> 'x connection result" where
  "on_channel f k here c =
     bindE (f here (k_ctl k (calls (sock c))) (channel c)) (\<lambda>ch.
     Inr (c\<lparr>channel := ch, sock := (sock c)\<lparr>calls := Suc (calls (sock c))\<rparr>\<rparr>))"

definition on_socket :: "kernel \<Rightarrow> bytes \<Rightarrow> 'x connection \<Rightarrow> write_result \<times> 'x connection" where
  "on_socket k d c = (let (r, s) = sock_write k d (sock c) in (r, c\<lparr>sock := s\<rparr>))"

section \<open>Sending\<close>

definition send_in_loop :: "kernel \<Rightarrow> bool \<Rightarrow> bytes \<Rightarrow> 'x connection \<Rightarrow> 'x connection result" where
  "send_in_loop k here data c =
     bindE (assertE here) (\<lambda>_.
     if conn_state c = kDisconnected then Inr c
     else let (num_wrote, c1) =
                (if \<not> is_writing (channel c) \<and> readable_bytes (output_buffer c) = 0
                 then (case on_socket k data c of
                         (WriteOk n, c') \<Rightarrow> (n, c')
                       | (WriteErr _, c') \<Rightarrow> (0, c'))
                 else (0, c))
          in if num_wrote < length data
             then bindE (append (drop num_wrote data) (output_buffer c1)) (\<lambda>b.
                  let c2 = c1\<lparr>output_buffer := b\<rparr>
                  in if \<not> is_writing (channel c2) then on_channel enable_writing k here c2 else Inr c2)
             else Inr c1)"

definition send_data :: "kernel \<Rightarrow> bool \<Rightarrow> bytes \<Rightarrow> 'x connection \<Rightarrow> 'x connection result" where
  "send_data k here data c =
     (if conn_state c \<noteq> kConnected then Inr c
      else if here then send_in_loop k here data c
      else Inr (post (SendTask data) c))"

definition send_buffer ::
    "kernel \<Rightarrow> bool \<Rightarrow> buffer \<Rightarrow> 'x connection \<Rightarrow> (buffer \<times> 'x connection) result" where
  "send_buffer k here buf c =
     (if conn_state c \<noteq> kConnected then Inr (buf, c)
      else if here
      then bindE (send_in_loop k here (peeked buf (readable_bytes buf)) c) (\<lambda>c'.
           Inr (retrieve_all buf, c'))
      else (case retrieve_all_as_string buf of (s, buf') \<Rightarrow> Inr (buf', post (SendTask s) c)))"

section \<open>Closing\<close>

definition shutdown_task :: "kernel \<Rightarrow> 'x connection \<Rightarrow> 'x connection" where
  "shutdown_task k c =
     (if is_writing (channel c) then c else c\<lparr>sock := sock_shutdown k (sock c)\<rparr>)"

definition shutdown :: "kernel \<Rightarrow> bool \<Rightarrow> 'x connection \<Rightarrow> 'x connection" where
  "shutdown k here c =
     (if conn_state c = kConnected
      then let c1 = set_state kDisconnecting c
           in if here then shutdown_task k c1 else post ShutdownTask c1
      else c)"

definition run_callback ::
    "('w, 'x) callback option \<Rightarrow> 'w \<times> 'x connection \<Rightarrow> ('w \<times> 'x connection) result" where
  "run_callback cb s = call_if_set cb s"

definition handle_close ::
    "kernel \<Rightarrow> ('w, 'x) conn_callbacks \<Rightarrow> bool \<Rightarrow> 'w \<times> 'x connection \<Rightarrow> ('w \<times> 'x connection) result" where
  "handle_close k cbs here s =
     (let c = snd s in
      bindE (assertE (conn_state c = kConnected \<or> conn_state c = kDisconnecting)) (\<lambda>_.
      let c1 = set_state kDisconnected c in
      bindE (if \<not> has_none_events (channel c1) then on_channel disable_all k here c1 else Inr c1) (\<lambda>c2.
      bindE (run_callback (connection_cb cbs) (fst s, c2)) (\<lambda>s3.
      run_callback (close_cb cbs) s3))))"

definition force_close_task ::
    "kernel \<Rightarrow> ('w, 'x) conn_callbacks \<Rightarrow> bool \<Rightarrow> 'w \<times> 'x connection \<Rightarrow> ('w \<times> 'x connection) result" where
  "force_close_task k cbs here s =
     (if conn_state (snd s) = kConnected \<or> conn_state (snd s) = kDisconnecting
      then handle_close k cbs here s else Inr s)"

definition force_close ::
    "kernel \<Rightarrow> ('w, 'x) conn_callbacks \<Rightarrow> bool \<Rightarrow> 'w \<times> 'x connection \<Rightarrow> ('w \<times> 'x connection) result" where
  "force_close k cbs here s =
     (if conn_state (snd s) = kConnected \<or> conn_state (snd s) = kDisconnecting
      then let s1 = (fst s, set_state kDisconnecting (snd s))
           in if here then force_close_task k cbs here s1
              else Inr (fst s1, post ForceCloseTask (snd s1))
      else Inr s)"

text \<open>\<open>get_socket_error\<close> only goes into the log.\<close>

definition handle_error ::
    "kernel \<Rightarrow> ('w, 'x) conn_callbacks \<Rightarrow> bool \<Rightarrow> 'w \<times> 'x connection \<Rightarrow> ('w \<times> 'x connection) result" where
  "handle_error k cbs here s = force_close k cbs here s"

section \<open>Events\<close>

definition established ::
    "kernel \<Rightarrow> ('w, 'x) conn_callbacks \<Rightarrow> bool \<Rightarrow> 'w \<times> 'x connection \<Rightarrow> ('w \<times> 'x connection) result" where
  "established k cbs here s =
     bindE (assertE here) (\<lambda>_.
     bindE (assertE (conn_state (snd s) = kConnecting)) (\<lambda>_.
     bindE (on_channel enable_reading k here (set_state kConnected (snd s))) (\<lambda>c.
     run_callback (connection_cb cbs) (fst s, c))))"

definition destroyed ::
    "kernel \<Rightarrow> ('w, 'x) conn_callbacks \<Rightarrow> bool \<Rightarrow> 'w \<times> 'x connection \<Rightarrow> ('w \<times> 'x connection) result" where
  "destroyed k cbs here s =
     bindE (assertE here) (\<lambda>_.
     if conn_state (snd s) = kConnected
     then let c1 = set_state kDisconnected (snd s) in
          bindE (if \<not> has_none_events (channel c1) then on_channel disable_all k here c1 else Inr c1) (\<lambda>c2.
          run_callback (connection_cb cbs) (fst s, c2))
     else Inr s)"

definition EAGAIN :: int where
  "EAGAIN = 11"

definition handle_read ::
    "kernel \<Rightarrow> ('w, 'x) conn_callbacks \<Rightarrow> bool \<Rightarrow> read_result \<Rightarrow> 'w \<times> 'x connection
      \<Rightarrow> ('w \<times> 'x connection) result" where
  "handle_read k cbs here answer s =
     bindE (assertE here) (\<lambda>_.
     bindE (read_fd answer (in_buffer (snd s))) (\<lambda>((num_read, saved_errno), b).
     let c1 = (snd s)\<lparr>in_buffer := b\<rparr> in
     if num_read > 0 then run_callback (message_cb cbs) (fst s, c1)
     else if num_read = 0 then handle_close k cbs here (fst s, set_state kDisconnecting c1)
     else if num_read = -1 \<and> saved_errno \<noteq> Some EAGAIN then handle_error k cbs here (fst s, c1)
     else Inr (fst s, c1)))"

definition handle_write :: "kernel \<Rightarrow> bool \<Rightarrow> 'x connection \<Rightarrow> 'x connection result" where
  "handle_write k here c =
     bindE (assertE here) (\<lambda>_.
     if is_writing (channel c)
     then (case on_socket k (peeked (output_buffer c) (readable_bytes (output_buffer c))) c of
             (WriteOk num_wrote, c1) \<Rightarrow>
               if num_wrote > 0
               then bindE (retrieve num_wrote (output_buffer c1)) (\<lambda>b.
                    let c2 = c1\<lparr>output_buffer := b\<rparr> in
                    bindE (if readable_bytes (output_buffer c2) = 0
                           then on_channel disable_writing k here c2 else Inr c2) (\<lambda>c3.
                    Inr (if conn_state c3 = kDisconnecting then shutdown k here c3 else c3)))
               else Inr c1
           | (WriteErr _, c1) \<Rightarrow> Inr c1)
     else Inr c)"

text \<open>What the channel of the connection does with the events \<open>epoll_wait\<close> reported: the
  constructor sets the read and the write callback and no other.\<close>

definition conn_channel_callbacks ::
    "kernel \<Rightarrow> ('w, 'x) conn_callbacks \<Rightarrow> bool \<Rightarrow> read_result \<Rightarrow> ('w \<times> 'x connection) channel_callbacks" where
  "conn_channel_callbacks k cbs here answer =
     set_write_callback (\<lambda>s. bindE (handle_write k here (snd s)) (\<lambda>c. Inr (fst s, c)))
       (set_read_callback (handle_read k cbs here answer) no_channel_callbacks)"

definition handle_conn_events ::
    "kernel \<Rightarrow> ('w, 'x) conn_callbacks \<Rightarrow> bool \<Rightarrow> read_result \<Rightarrow> 'w \<times> 'x connection
      \<Rightarrow> ('w \<times> 'x connection) result" where
  "handle_conn_events k cbs here answer s =
     handle_events here (channel (snd s)) (conn_channel_callbacks k cbs here answer) s"

fun run_conn_task ::
    "kernel \<Rightarrow> ('w, 'x) conn_callbacks \<Rightarrow> conn_task \<Rightarrow> 'w \<times> 'x connection \<Rightarrow> ('w \<times> 'x connection) result" where
  "run_conn_task k cbs EstablishTask s = established k cbs True s"
| "run_conn_task k cbs (SendTask data) s = bindE (send_in_loop k True data (snd s)) (\<lambda>c. Inr (fst s, c))"
| "run_conn_task k cbs ShutdownTask s = Inr (fst s, shutdown_task k (snd s))"
| "run_conn_task k cbs ForceCloseTask s = force_close_task k cbs True s"
| "run_conn_task k cbs DestroyTask s = destroyed k cbs True s"

text \<open>The destructor closes the descriptor, then the members are destroyed.\<close>

definition connection_dtor :: "kernel \<Rightarrow> bool \<Rightarrow> 'x connection \<Rightarrow> sock result" where
  "connection_dtor k here c =
     (let s = (sock c)\<lparr>fd_closed := True\<rparr> in
      bindE (channel_dtor here (k_ctl k (calls s)) (channel c)) (\<lambda>_. Inr s))"

section \<open>Invariant\<close>

text \<open>The bytes taken over for the peer: those the kernel has and those still to be written.\<close>

definition stream :: "'x connection \<Rightarrow> bytes" where
  "stream c = wrote (sock c) @ contents (output_buffer c)"

text \<open>The events the channel is registered for: always reading, and writing exactly while there
  are bytes to be written.\<close>

definition wanted_events :: "bool \<Rightarrow> event_mask" where
  "wanted_events pending = (if pending then EPOLLIN OR EPOLLPRI OR EPOLLOUT else EPOLLIN OR EPOLLPRI)"

text \<open>\<open>n\<close> is the number of bytes that both buffers can still take.\<close>

definition conn_inv :: "nat \<Rightarrow> 'x connection \<Rightarrow> bool" where
  "conn_inv n c \<longleftrightarrow>
     wf_buffer (in_buffer c) \<and> wf_buffer (output_buffer c) \<and>
     room (in_buffer c) n \<and> room (output_buffer c) n \<and>
     (case conn_state c of
        kConnecting \<Rightarrow> events (channel c) = 0 \<and> \<not> in_interest_list (channel c) \<and>
          contents (output_buffer c) = []
      | kDisconnected \<Rightarrow> events (channel c) = 0 \<and> \<not> in_interest_list (channel c)
      | _ \<Rightarrow> in_interest_list (channel c) \<and>
          events (channel c) = wanted_events (contents (output_buffer c) \<noteq> []))"

fun state_rank :: "conn_state \<Rightarrow> nat" where
  "state_rank kConnecting = 0"
| "state_rank kConnected = 1"
| "state_rank kDisconnecting = 2"
| "state_rank kDisconnected = 3"

text \<open>What every operation keeps between the connection before and after it.\<close>

definition advances :: "nat \<Rightarrow> 'x connection \<Rightarrow> 'x connection \<Rightarrow> bool" where
  "advances n c c' \<longleftrightarrow>
     conn_inv n c' \<and> conn_loop c' = conn_loop c \<and>
     prefix (wrote (sock c)) (wrote (sock c')) \<and> prefix (stream c) (stream c') \<and>
     state_rank (conn_state c) \<le> state_rank (conn_state c')"

lemma room_mono: "room b n \<Longrightarrow> m \<le> n \<Longrightarrow> room b m"
  by (simp add: room_def)

lemma conn_inv_mono: "conn_inv n c \<Longrightarrow> m \<le> n \<Longrightarrow> conn_inv m c"
  by (auto simp: conn_inv_def intro: room_mono)

lemma conn_inv_update [simp]:
  "conn_inv n (c\<lparr>sock := s\<rparr>) \<longleftrightarrow> conn_inv n c"
  "conn_inv n (c\<lparr>posted := ts\<rparr>) \<longleftrightarrow> conn_inv n c"
  "conn_inv n (c\<lparr>conn_context := x\<rparr>) \<longleftrightarrow> conn_inv n c"
  by (cases "conn_state c"; simp add: conn_inv_def)+

lemma conn_inv_disconnecting:
  "conn_inv n c \<Longrightarrow> conn_state c = kConnected \<Longrightarrow> conn_inv n (c\<lparr>conn_state := kDisconnecting\<rparr>)"
  by (simp add: conn_inv_def)

lemma advances_refl: "conn_inv n c \<Longrightarrow> advances n c c"
  by (simp add: advances_def)

lemma advances_trans:
  "advances m c c1 \<Longrightarrow> advances n c1 c2 \<Longrightarrow> advances n c c2"
  by (auto simp: advances_def intro: prefix_order.trans)

lemma advances_mono: "advances n c c' \<Longrightarrow> m \<le> n \<Longrightarrow> advances m c c'"
  by (auto simp: advances_def intro: conn_inv_mono)

lemma advances_inv: "advances n c c' \<Longrightarrow> conn_inv n c'"
  by (simp add: advances_def)

lemma advances_loop: "advances n c c' \<Longrightarrow> conn_loop c' = conn_loop c"
  by (simp add: advances_def)

lemma wanted_events_simps [simp]:
  "wanted_events p \<noteq> 0"
  "wanted_events p AND EPOLLOUT = 0 \<longleftrightarrow> \<not> p"
  "wanted_events p OR EPOLLOUT = wanted_events True"
  "wanted_events p AND NOT EPOLLOUT = wanted_events False"
  "0 OR (EPOLLIN OR EPOLLPRI) = wanted_events False"
  by (simp_all add: wanted_events_def epoll_constants)

lemma open_writing:
  assumes "conn_inv n c" "conn_state c = kConnected \<or> conn_state c = kDisconnecting"
  shows "in_interest_list (channel c)" "events (channel c) \<noteq> 0"
    "is_writing (channel c) \<longleftrightarrow> contents (output_buffer c) \<noteq> []"
    "events (channel c) = wanted_events (contents (output_buffer c) \<noteq> [])"
  using assms by (auto simp: conn_inv_def is_writing_def)

lemma closed_not_writing:
  "conn_inv n c \<Longrightarrow> conn_state c = kDisconnected \<or> conn_state c = kConnecting \<Longrightarrow>
   \<not> is_writing (channel c) \<and> events (channel c) = 0 \<and> \<not> in_interest_list (channel c)"
  by (auto simp: conn_inv_def is_writing_def)

lemma conn_inv_wf:
  assumes "conn_inv n c"
  shows "wf_buffer (in_buffer c)" "wf_buffer (output_buffer c)"
    "room (in_buffer c) n" "room (output_buffer c) n"
    "readable_bytes (output_buffer c) = length (contents (output_buffer c))"
    "readable_bytes (output_buffer c) = 0 \<longleftrightarrow> contents (output_buffer c) = []"
  using assms length_contents [of "output_buffer c"] by (auto simp: conn_inv_def)

section \<open>Each operation keeps it\<close>

lemma on_channel_eq:
  assumes "kernel_ok k"
  shows "on_channel enable_reading k True c = Inr (c\<lparr>channel := (channel c)
           \<lparr>events := events (channel c) OR (EPOLLIN OR EPOLLPRI), in_interest_list := True\<rparr>,
           sock := (sock c)\<lparr>calls := Suc (calls (sock c))\<rparr>\<rparr>)"
    and "on_channel enable_writing k True c = Inr (c\<lparr>channel := (channel c)
           \<lparr>events := events (channel c) OR EPOLLOUT, in_interest_list := True\<rparr>,
           sock := (sock c)\<lparr>calls := Suc (calls (sock c))\<rparr>\<rparr>)"
    and "in_interest_list (channel c) \<Longrightarrow>
         on_channel disable_writing k True c = Inr (c\<lparr>channel := (channel c)
           \<lparr>events := events (channel c) AND NOT EPOLLOUT,
            in_interest_list := events (channel c) AND NOT EPOLLOUT \<noteq> 0\<rparr>,
           sock := (sock c)\<lparr>calls := Suc (calls (sock c))\<rparr>\<rparr>)"
    and "in_interest_list (channel c) \<Longrightarrow>
         on_channel disable_all k True c = Inr (c\<lparr>channel := (channel c)
           \<lparr>events := 0, in_interest_list := False\<rparr>,
           sock := (sock c)\<lparr>calls := Suc (calls (sock c))\<rparr>\<rparr>)"
  using assms
  by (simp_all add: on_channel_def kernel_ok_def channel_eqs)

lemma on_socket_cases:
  assumes "kernel_ok k"
  obtains n where "n \<le> length d" "on_socket k d c = (WriteOk n,
      c\<lparr>sock := (sock c)\<lparr>calls := Suc (calls (sock c)), wrote := wrote (sock c) @ take n d\<rparr>\<rparr>)"
  | e where "on_socket k d c = (WriteErr e, c\<lparr>sock := (sock c)\<lparr>calls := Suc (calls (sock c))\<rparr>\<rparr>)"
  using assms
  by (cases "k_write k (calls (sock c)) d")
    (auto simp: on_socket_def sock_write_def kernel_ok_def Let_def)

text \<open>Appending the bytes that \<open>write\<close> left over and asking for writability.\<close>

lemma pend_output:
  assumes k: "kernel_ok k" and inv: "conn_inv (length d + n) c" and d: "d \<noteq> []"
    and st: "conn_state c = kConnected \<or> conn_state c = kDisconnecting"
    and c1: "c1 = c\<lparr>sock := s\<rparr>"
  shows "\<exists>c'. bindE (append d (output_buffer c1)) (\<lambda>b.
        let c2 = c1\<lparr>output_buffer := b\<rparr>
        in if \<not> is_writing (channel c2) then on_channel enable_writing k True c2 else Inr c2) = Inr c' \<and>
      conn_inv n c' \<and> stream c' = wrote s @ contents (output_buffer c) @ d \<and>
      wrote (sock c') = wrote s \<and> conn_loop c' = conn_loop c \<and>
      conn_state c' = conn_state c \<and> in_buffer c' = in_buffer c \<and>
      posted c' = posted c \<and> conn_context c' = conn_context c"
proof -
  note open_c = open_writing [OF inv st] and wf = conn_inv_wf [OF inv]
  obtain b where b: "append d (output_buffer c) = Inr b" "wf_buffer b"
    "contents b = contents (output_buffer c) @ d" "room b n"
    using buf.put [OF wf(2,4)] by blast
  have in_room: "room (in_buffer c) n" using room_mono [OF wf(3)] by simp
  show ?thesis
    using b d open_c st wf(1) in_room
    by (auto simp: c1 on_channel_eq [OF k] conn_inv_def stream_def Let_def)
qed

lemma send_in_loop_spec:
  assumes k: "kernel_ok k" and inv: "conn_inv (length d + n) c" and st: "conn_state c \<noteq> kConnecting"
  shows "\<exists>c'. send_in_loop k True d c = Inr c' \<and> advances n c c' \<and>
     stream c' = stream c @ (if conn_state c = kDisconnected then [] else d) \<and>
     conn_state c' = conn_state c \<and> in_buffer c' = in_buffer c \<and> posted c' = posted c \<and>
     conn_context c' = conn_context c"
proof (cases "conn_state c = kDisconnected")
  case True
  then show ?thesis
    using conn_inv_mono [OF inv, of n] by (simp add: send_in_loop_def advances_refl)
next
  case False
  with st have op: "conn_state c = kConnected \<or> conn_state c = kDisconnecting"
    by (cases "conn_state c") auto
  note open_c = open_writing [OF inv op] and wf = conn_inv_wf [OF inv]
  show ?thesis
  proof (cases "contents (output_buffer c) = []")
    case False
    then have eq: "send_in_loop k True d c = (if 0 < length d
        then bindE (append d (output_buffer c)) (\<lambda>b.
               let c2 = c\<lparr>output_buffer := b\<rparr>
               in if \<not> is_writing (channel c2) then on_channel enable_writing k True c2 else Inr c2)
        else Inr c)"
      using open_c(3) op by (auto simp: send_in_loop_def)
    show ?thesis
    proof (cases "d = []")
      case True
      with inv op eq show ?thesis by (auto simp: advances_refl)
    next
      case d: False
      from pend_output [OF k inv d op, of c "sock c"] d op show ?thesis
        by (auto simp: eq advances_def stream_def)
    qed
  next
    case empty: True
    show ?thesis
    proof (cases rule: on_socket_cases [OF k, of d c, case_names Ok Err])
      case (Ok m)
      let ?s = "(sock c)\<lparr>calls := Suc (calls (sock c)), wrote := wrote (sock c) @ take m d\<rparr>"
      have inv1: "conn_inv (length (drop m d) + n) c"
        using inv by (rule conn_inv_mono) simp
      show ?thesis
      proof (cases "m < length d")
        case True
        then have "drop m d \<noteq> []" by simp
        from pend_output [OF k inv1 this op, of "c\<lparr>sock := ?s\<rparr>" ?s] True open_c(3) op empty Ok
        show ?thesis
          by (auto simp: send_in_loop_def conn_inv_wf(6) [OF inv] advances_def stream_def)
      next
        case False
        with Ok(1) have all: "m = length d" by simp
        have eq: "send_in_loop k True d c = Inr (c\<lparr>sock := ?s\<rparr>)"
          using Ok open_c op empty False by (auto simp: send_in_loop_def conn_inv_wf(6) [OF inv])
        have "conn_inv n (c\<lparr>sock := ?s\<rparr>)"
          using conn_inv_mono [OF inv, of n] by simp
        with op empty all eq show ?thesis by (auto simp: advances_def stream_def)
      qed
    next
      case (Err e)
      let ?s = "(sock c)\<lparr>calls := Suc (calls (sock c))\<rparr>"
      show ?thesis
      proof (cases "d = []")
        case True
        with Err open_c op empty inv show ?thesis
          by (auto simp: send_in_loop_def conn_inv_wf(6) [OF inv] advances_def stream_def conn_inv_def)
      next
        case False
        from pend_output [OF k inv False op, of "c\<lparr>sock := ?s\<rparr>" ?s] False open_c(3) op empty Err
        show ?thesis
          by (auto simp: send_in_loop_def conn_inv_wf(6) [OF inv] advances_def stream_def)
      qed
    qed
  qed
qed

text \<open>\<open>handle_write\<close> moves bytes from the buffer to the kernel and changes nothing else.\<close>

lemma handle_write_spec:
  assumes k: "kernel_ok k" and inv: "conn_inv n c"
  shows "\<exists>c'. handle_write k True c = Inr c' \<and> advances n c c' \<and> stream c' = stream c \<and>
     conn_state c' = conn_state c \<and> in_buffer c' = in_buffer c \<and> posted c' = posted c \<and>
     conn_context c' = conn_context c \<and> write_shut (sock c') = write_shut (sock c)"
proof (cases "is_writing (channel c)")
  case False
  with inv show ?thesis by (simp add: handle_write_def advances_refl)
next
  case True
  then have op: "conn_state c = kConnected \<or> conn_state c = kDisconnecting"
    using closed_not_writing [OF inv] by (cases "conn_state c") auto
  note open_c = open_writing [OF inv op] and wf = conn_inv_wf [OF inv]
  let ?out = "contents (output_buffer c)"
  have peek: "peeked (output_buffer c) (readable_bytes (output_buffer c)) = ?out"
    by (simp add: contents_def)
  show ?thesis
  proof (cases rule: on_socket_cases [OF k, of ?out c, case_names Ok Err])
    case (Err e)
    with True inv show ?thesis
      by (simp add: handle_write_def peek advances_def stream_def)
  next
    case (Ok m)
    let ?s = "(sock c)\<lparr>calls := Suc (calls (sock c)), wrote := wrote (sock c) @ take m ?out\<rparr>"
    show ?thesis
    proof (cases "m = 0")
      case True
      with Ok inv \<open>is_writing (channel c)\<close> show ?thesis
        by (simp add: handle_write_def peek advances_def stream_def)
    next
      case False
      obtain b where b: "retrieve m (output_buffer c) = Inr b" "wf_buffer b"
        "contents b = drop m ?out" "room b n"
        using buf.discard [OF wf(2) Ok(1)] wf(4) by blast
      have empty: "readable_bytes b = 0 \<longleftrightarrow> drop m ?out = []"
        using length_contents [OF b(2)] b(3) by (metis length_0_conv)
      let ?c2 = "c\<lparr>sock := ?s, output_buffer := b\<rparr>"
      have wr: "handle_write k True c =
          bindE (if drop m ?out = [] then on_channel disable_writing k True ?c2 else Inr ?c2) (\<lambda>c3. Inr c3)"
      proof -
        have "shutdown k True c3 = c3" if "conn_state c3 = kDisconnecting" for c3 :: "'a connection"
          using that by (simp add: shutdown_def)
        then have "(if conn_state c3 = kDisconnecting then shutdown k True c3 else c3) = c3" for c3 :: "'a connection"
          by simp
        then show ?thesis
          using True Ok(2) False b(1) by (simp add: handle_write_def peek empty)
      qed
      have split: "take m ?out @ drop m ?out = ?out" by simp
      show ?thesis
      proof (cases "drop m ?out = []")
        case entire: True
        then have "take m ?out = ?out" by simp
        moreover have "on_channel disable_writing k True ?c2 = Inr (?c2\<lparr>channel := (channel c)
            \<lparr>events := wanted_events False, in_interest_list := True\<rparr>,
            sock := ?s\<lparr>calls := Suc (Suc (calls (sock c)))\<rparr>\<rparr>)"
          using on_channel_eq(3) [OF k, of ?c2] open_c by simp
        ultimately show ?thesis
          using wr entire b(2-4) op wf(1,3) by (auto simp: advances_def stream_def conn_inv_def)
      next
        case part: False
        then have "contents b \<noteq> []" using b(3) by simp
        then have "conn_inv n ?c2" using b(2-4) op wf(1,3) open_c inv part
          by (auto simp: conn_inv_def)
        then show ?thesis
          using wr part b(3) by (simp add: advances_def stream_def)
      qed
    qed
  qed
qed

lemma shutdown_spec:
  assumes "conn_inv n c"
  shows "advances n c (shutdown k here c)" "stream (shutdown k here c) = stream c"
    "posted (shutdown k True c) = posted c"
    "posted (shutdown k False c) = posted c @ (if conn_state c = kConnected then [ShutdownTask] else [])"
    "advances n c (shutdown_task k c)" "stream (shutdown_task k c) = stream c"
    "posted (shutdown_task k c) = posted c"
  using assms conn_inv_disconnecting [OF assms]
  by (auto simp: shutdown_def shutdown_task_def set_state_def post_def sock_shutdown_def
      advances_def stream_def Let_def)

text \<open>Leaving the epoll instance when the connection closes.\<close>

lemma close_channel:
  assumes k: "kernel_ok k" and inv: "conn_inv n c"
    and st: "conn_state c = kConnected \<or> conn_state c = kDisconnecting"
  shows "\<exists>c2. (if \<not> has_none_events (channel (set_state kDisconnected c))
       then on_channel disable_all k True (set_state kDisconnected c)
       else Inr (set_state kDisconnected c)) = Inr c2 \<and>
     advances n c c2 \<and> conn_state c2 = kDisconnected \<and> stream c2 = stream c \<and> posted c2 = posted c \<and>
     sock c2 = (sock c)\<lparr>calls := Suc (calls (sock c))\<rparr>"
  using open_writing [OF inv st] conn_inv_wf [OF inv] st
  by (auto simp: set_state_def has_none_events_def on_channel_eq [OF k] advances_def conn_inv_def
      stream_def)

section \<open>The contract of the callbacks\<close>

text \<open>A callback runs in the thread of the loop. It may send at most \<open>cost\<close> bytes, shut the
  connection down or close it; it may not undo anything, and the only task it may post is the
  server's \<open>DestroyTask\<close>.\<close>

definition posts_nothing_else :: "'x connection \<Rightarrow> 'x connection \<Rightarrow> bool" where
  "posts_nothing_else c c' \<longleftrightarrow> (\<exists>m. posted c' = posted c @ replicate m DestroyTask)"

definition good_callback :: "nat \<Rightarrow> ('w, 'x) callback option \<Rightarrow> bool" where
  "good_callback cost cb \<longleftrightarrow>
     (\<forall>n w c w' c'. conn_inv (n + cost) c \<longrightarrow> conn_state c \<noteq> kConnecting \<longrightarrow>
        run_callback cb (w, c) = Inr (w', c') \<longrightarrow> advances n c c' \<and> posts_nothing_else c c')"

definition good_callbacks :: "nat \<Rightarrow> ('w, 'x) conn_callbacks \<Rightarrow> bool" where
  "good_callbacks cost cbs \<longleftrightarrow>
     good_callback cost (connection_cb cbs) \<and> good_callback cost (message_cb cbs) \<and>
     good_callback cost (close_cb cbs)"

text \<open>A callback ended the process, called for a connection of the loop \<open>l\<close>.\<close>

definition raised :: "('w, 'x) conn_callbacks \<Rightarrow> nat \<Rightarrow> error \<Rightarrow> bool" where
  "raised cbs l e \<longleftrightarrow>
     (\<exists>cb \<in> {connection_cb cbs, message_cb cbs, close_cb cbs}. \<exists>s.
        conn_loop (snd s) = l \<and> run_callback cb s = Inl e)"

text \<open>An operation went well, or a callback ended the process.\<close>

definition fine :: "('w, 'x) conn_callbacks \<Rightarrow> nat \<Rightarrow> 'x connection
    \<Rightarrow> ('w \<times> 'x connection) result \<Rightarrow> bool" where
  "fine cbs n c r \<longleftrightarrow>
     (case r of Inl e \<Rightarrow> raised cbs (conn_loop c) e
      | Inr s \<Rightarrow> advances n c (snd s) \<and> posts_nothing_else c (snd s))"

lemma posts_nothing_else_refl [simp]: "posts_nothing_else c c"
  by (auto simp: posts_nothing_else_def intro: exI [of _ 0])

lemma posts_nothing_else_eq: "posted c' = posted c \<Longrightarrow> posts_nothing_else c c'"
  by (auto simp: posts_nothing_else_def intro: exI [of _ 0])

lemma posts_nothing_else_trans:
  "posts_nothing_else c c1 \<Longrightarrow> posts_nothing_else c1 c2 \<Longrightarrow> posts_nothing_else c c2"
  unfolding posts_nothing_else_def by (metis append.assoc replicate_add)

lemma good_callback_None: "good_callback cost None"
  by (auto simp: good_callback_def run_callback_def call_if_set_def
      intro!: advances_refl elim: conn_inv_mono)

locale connection_client =
  fixes k :: kernel
    and cbs :: "('w, 'x) conn_callbacks"
    and cost :: nat
  assumes kernel: "kernel_ok k"
    and callbacks: "good_callbacks cost cbs"
begin

lemma fine_refl: "conn_inv n c \<Longrightarrow> fine cbs n c (Inr (w, c))"
  by (simp add: fine_def advances_refl)

lemma fine_after:
  "advances m c c1 \<Longrightarrow> posts_nothing_else c c1 \<Longrightarrow> fine cbs n c1 r \<Longrightarrow> fine cbs n c r"
  by (auto simp: fine_def advances_loop intro: advances_trans posts_nothing_else_trans
      split: sum.splits)

lemma fine_bind:
  assumes "fine cbs m c r" and "\<And>w1 c1. advances m c c1 \<Longrightarrow> fine cbs n c1 (f (w1, c1))"
  shows "fine cbs n c (bindE r f)"
proof (cases r)
  case (Inl e)
  with assms(1) show ?thesis by (simp add: fine_def)
next
  case (Inr s)
  with assms(1) have s: "advances m c (snd s)" "posts_nothing_else c (snd s)"
    by (simp_all add: fine_def)
  from fine_after [OF s] assms(2) [of "snd s" "fst s"] s(1) Inr show ?thesis by simp
qed

lemma callback_fine:
  assumes "cb \<in> {connection_cb cbs, message_cb cbs, close_cb cbs}"
    and "conn_inv (n + cost) c" and "conn_state c \<noteq> kConnecting"
  shows "fine cbs n c (run_callback cb (w, c))"
proof (cases "run_callback cb (w, c)")
  case (Inl e)
  with assms(1) show ?thesis by (force simp: fine_def raised_def)
next
  case (Inr s)
  have "good_callback cost cb"
    using callbacks assms(1) by (auto simp: good_callbacks_def)
  with assms(2,3) Inr show ?thesis
    by (cases s) (auto simp: fine_def good_callback_def)
qed

lemma handle_close_fine:
  assumes "conn_inv (n + 2 * cost) c" and "conn_state c = kConnected \<or> conn_state c = kDisconnecting"
  shows "fine cbs n c (handle_close k cbs True (w, c))"
proof -
  obtain c2 where c2: "(if \<not> has_none_events (channel (set_state kDisconnected c))
       then on_channel disable_all k True (set_state kDisconnected c)
       else Inr (set_state kDisconnected c)) = Inr c2"
    "advances (n + 2 * cost) c c2" "conn_state c2 = kDisconnected" "posted c2 = posted c"
    using close_channel [OF kernel assms] by blast
  have later: "fine cbs n c1 (run_callback (close_cb cbs) (w1, c1))"
    if "advances (n + cost) c2 c1" for w1 c1
  proof (rule callback_fine)
    show "conn_inv (n + cost) c1" using that by (rule advances_inv)
    show "conn_state c1 \<noteq> kConnecting"
      using that c2(3) by (cases "conn_state c1") (auto simp: advances_def)
  qed simp
  have "fine cbs n c2 (bindE (run_callback (connection_cb cbs) (w, c2)) (run_callback (close_cb cbs)))"
  proof (rule fine_bind [where m = "n + cost"])
    have "conn_inv (n + cost + cost) c2" using advances_inv [OF c2(2)] by (rule conn_inv_mono) simp
    then show "fine cbs (n + cost) c2 (run_callback (connection_cb cbs) (w, c2))"
      by (rule callback_fine [rotated]) (simp_all add: c2(3))
  qed (rule later)
  from fine_after [OF c2(2) posts_nothing_else_eq [OF c2(4)] this] show ?thesis
    using assms(2) c2(1) by (simp add: handle_close_def Let_def bindE_assertE)
qed

lemma force_close_task_fine:
  assumes "conn_inv (n + 2 * cost) c"
  shows "fine cbs n c (force_close_task k cbs True (w, c))"
  using handle_close_fine [OF assms] fine_refl [OF conn_inv_mono [OF assms], of n]
  by (auto simp: force_close_task_def)

lemma disconnecting:
  assumes "conn_inv n c" and "conn_state c = kConnected \<or> conn_state c = kDisconnecting"
  shows "advances n c (set_state kDisconnecting c)"
    "posts_nothing_else c (set_state kDisconnecting c)"
  using assms
  by (auto simp: set_state_def advances_def stream_def conn_inv_def posts_nothing_else_eq)

lemma force_close_fine:
  assumes "conn_inv (n + 2 * cost) c"
  shows "fine cbs n c (force_close k cbs True (w, c))"
proof (cases "conn_state c = kConnected \<or> conn_state c = kDisconnecting")
  case True
  note d = disconnecting [OF assms True]
  from fine_after [OF d force_close_task_fine [OF advances_inv [OF d(1)]]] True show ?thesis
    by (simp add: force_close_def Let_def)
next
  case False
  with fine_refl [OF conn_inv_mono [OF assms], of n] show ?thesis by (simp add: force_close_def)
qed

lemma handle_read_fine:
  assumes inv: "conn_inv (length (case answer of ReadOk d \<Rightarrow> d | ReadErr _ \<Rightarrow> []) + (n + 2 * cost)) c"
    and st: "conn_state c = kConnected \<or> conn_state c = kDisconnecting"
  shows "fine cbs n c (handle_read k cbs True answer (w, c))"
proof (cases answer)
  case (ReadErr e)
  then have inv0: "conn_inv (n + 2 * cost) c" using inv by simp
  then have "conn_inv n c" by (rule conn_inv_mono) simp
  with ReadErr force_close_fine [OF inv0, of w] fine_refl [of n c w] show ?thesis
    by (simp add: handle_read_def read_fd_def handle_error_def)
next
  case (ReadOk d)
  with inv have inv0: "conn_inv (length d + (n + 2 * cost)) c" by simp
  note wf = conn_inv_wf [OF inv0]
  obtain b where b: "read_fd (ReadOk d) (in_buffer c) = Inr ((int (length d), None), b)"
    "wf_buffer b" "room b (n + 2 * cost)"
    using read_fd_spec [OF wf(1,3)] by blast
  let ?c1 = "c\<lparr>in_buffer := b\<rparr>"
  have adv: "advances (n + 2 * cost) c ?c1"
    using inv0 b(2,3) st room_mono [OF wf(4), of "n + 2 * cost"]
    by (auto simp: advances_def stream_def conn_inv_def)
  have same: "posts_nothing_else c ?c1" by (simp add: posts_nothing_else_eq)
  show ?thesis
  proof (cases "d = []")
    case False
    have "conn_inv (n + cost) ?c1" using advances_inv [OF adv] by (rule conn_inv_mono) simp
    then have "fine cbs n ?c1 (run_callback (message_cb cbs) (w, ?c1))"
      by (intro callback_fine) (use st in auto)
    from fine_after [OF adv same this] False ReadOk b(1) show ?thesis
      by (simp add: handle_read_def)
  next
    case True
    have st1: "conn_state ?c1 = kConnected \<or> conn_state ?c1 = kDisconnecting" using st by simp
    note d = disconnecting [OF advances_inv [OF adv] st1]
    have "fine cbs n ?c1 (handle_close k cbs True (w, set_state kDisconnecting ?c1))"
      by (rule fine_after [OF d], rule handle_close_fine [OF advances_inv [OF d(1)]])
        (simp add: set_state_def)
    from fine_after [OF adv same this] True ReadOk b(1) show ?thesis
      by (simp add: handle_read_def)
  qed
qed

lemma established_fine:
  assumes inv: "conn_inv (n + cost) c" and st: "conn_state c = kConnecting"
  shows "fine cbs n c (established k cbs True (w, c))"
proof -
  let ?c1 = "c\<lparr>conn_state := kConnected, channel := (channel c)
      \<lparr>events := wanted_events False, in_interest_list := True\<rparr>,
      sock := (sock c)\<lparr>calls := Suc (calls (sock c))\<rparr>\<rparr>"
  have eq: "on_channel enable_reading k True (set_state kConnected c) = Inr ?c1"
    using closed_not_writing [OF inv] st
    by (simp add: on_channel_eq [OF kernel] set_state_def wanted_events_def)
  have "advances (n + cost) c ?c1"
    using inv st by (auto simp: advances_def stream_def conn_inv_def)
  moreover have "posts_nothing_else c ?c1" by (simp add: posts_nothing_else_eq)
  moreover from calculation(1) have "fine cbs n ?c1 (run_callback (connection_cb cbs) (w, ?c1))"
    by (intro callback_fine) (auto dest: advances_inv)
  ultimately have "fine cbs n c (run_callback (connection_cb cbs) (w, ?c1))" by (rule fine_after)
  with eq st show ?thesis by (simp add: established_def)
qed

lemma destroyed_fine:
  assumes "conn_inv (n + 2 * cost) c"
  shows "fine cbs n c (destroyed k cbs True (w, c))"
proof (cases "conn_state c = kConnected")
  case False
  with fine_refl [OF conn_inv_mono [OF assms], of n] show ?thesis by (simp add: destroyed_def)
next
  case True
  then obtain c2 where c2: "(if \<not> has_none_events (channel (set_state kDisconnected c))
       then on_channel disable_all k True (set_state kDisconnected c)
       else Inr (set_state kDisconnected c)) = Inr c2"
    "advances (n + 2 * cost) c c2" "conn_state c2 = kDisconnected" "posted c2 = posted c"
    using close_channel [OF kernel assms] by blast
  have "conn_inv (n + cost) c2" using advances_inv [OF c2(2)] by (rule conn_inv_mono) simp
  then have "fine cbs n c2 (run_callback (connection_cb cbs) (w, c2))"
    by (intro callback_fine) (use c2 in auto)
  from fine_after [OF c2(2) posts_nothing_else_eq [OF c2(4)] this] True c2(1) show ?thesis
    by (simp add: destroyed_def Let_def)
qed

end

section \<open>The life of a connection\<close>

text \<open>What can happen to a connection, in any order: \<open>Dispatch\<close>, the epoll instance reports events and the
  loop calls the channel's handler, with the answer of \<open>readv\<close> should the channel be read; the loop runs
  the task posted first; the owner of the connection calls \<open>send\<close>, \<open>shutdown\<close> or \<open>force_close\<close>, from the
  loop's thread or another. Each is one step. The epoll instance reports a channel only while it is
  registered, so that \<open>Dispatch\<close> is no event of an unregistered one; the handler by itself, which the loop
  also calls when the channel has left the instance since \<open>wait\<close> returned, is \<open>handle_report\<close> of
  \<open>Tcp_Server\<close>. A call from another thread that the loop interrupts is the subject of \<open>Cross_Thread\<close>.\<close>

datatype conn_event =
  Dispatch event_mask read_result
| RunPosted
| Send bool bytes
| Shutdown bool
| ForceClose bool

fun conn_step ::
    "kernel \<Rightarrow> ('w, 'x) conn_callbacks \<Rightarrow> conn_event \<Rightarrow> 'w \<times> 'x connection \<Rightarrow> ('w \<times> 'x connection) result" where
  "conn_step k cbs (Dispatch e answer) (w, c) =
     (if in_interest_list (channel c)
      then handle_conn_events k cbs True answer (w, c\<lparr>channel := set_revents e (channel c)\<rparr>)
      else Inr (w, c))"
| "conn_step k cbs RunPosted (w, c) =
     (case posted c of [] \<Rightarrow> Inr (w, c) | t # ts \<Rightarrow> run_conn_task k cbs t (w, c\<lparr>posted := ts\<rparr>))"
| "conn_step k cbs (Send here d) (w, c) = bindE (send_data k here d c) (\<lambda>c'. Inr (w, c'))"
| "conn_step k cbs (Shutdown here) (w, c) = Inr (w, shutdown k here c)"
| "conn_step k cbs (ForceClose here) (w, c) = force_close k cbs here (w, c)"

text \<open>Room that an event may take up: the bytes read or sent, and two callbacks.\<close>

fun event_cost :: "nat \<Rightarrow> conn_event \<Rightarrow> nat" where
  "event_cost cost (Dispatch e (ReadOk d)) = length d + 2 * cost"
| "event_cost cost (Send here d) = length d"
| "event_cost cost _ = 2 * cost"

fun task_bytes :: "conn_task \<Rightarrow> nat" where
  "task_bytes (SendTask d) = length d"
| "task_bytes _ = 0"

definition posted_bytes :: "'x connection \<Rightarrow> nat" where
  "posted_bytes c = sum_list (map task_bytes (posted c))"

text \<open>The invariant with the tasks: \<open>established\<close> is posted exactly as long as it has not run.\<close>

definition conn_wf :: "nat \<Rightarrow> 'x connection \<Rightarrow> bool" where
  "conn_wf n c \<longleftrightarrow>
     conn_inv (n + posted_bytes c) c \<and>
     (if conn_state c = kConnecting then posted c = [EstablishTask] else EstablishTask \<notin> set (posted c))"

lemma posted_bytes_post: "posted_bytes (post t c) = posted_bytes c + task_bytes t"
  by (simp add: posted_bytes_def post_def)

lemma posted_bytes_cong: "posted c' = posted c \<Longrightarrow> posted_bytes c' = posted_bytes c"
  by (simp add: posted_bytes_def)

lemma advances_not_connecting:
  "advances n c c' \<Longrightarrow> conn_state c \<noteq> kConnecting \<Longrightarrow> conn_state c' \<noteq> kConnecting"
  by (cases "conn_state c"; cases "conn_state c'") (auto simp: advances_def)

lemma conn_wf_mono: "conn_wf n c \<Longrightarrow> m \<le> n \<Longrightarrow> conn_wf m c"
  by (auto simp: conn_wf_def elim: conn_inv_mono split: if_splits)

text \<open>What an operation that only posts \<open>DestroyTask\<close> keeps.\<close>

lemma conn_wf_advances:
  assumes "advances (n + posted_bytes c) c c'" and "posts_nothing_else c c'"
    and "conn_state c \<noteq> kConnecting" and "EstablishTask \<notin> set (posted c)"
  shows "conn_wf n c'"
proof -
  obtain m where m: "posted c' = posted c @ replicate m DestroyTask"
    using assms(2) by (auto simp: posts_nothing_else_def)
  then have "posted_bytes c' = posted_bytes c"
    by (simp add: posted_bytes_def sum_list_replicate)
  with assms m advances_not_connecting [OF assms(1,3)] show ?thesis
    by (auto simp: conn_wf_def advances_def)
qed

text \<open>The relation between the connection before and after any number of events.\<close>

definition grows :: "'x connection \<Rightarrow> 'x connection \<Rightarrow> bool" where
  "grows c c' \<longleftrightarrow>
     conn_loop c' = conn_loop c \<and>
     prefix (wrote (sock c)) (wrote (sock c')) \<and> prefix (stream c) (stream c') \<and>
     state_rank (conn_state c) \<le> state_rank (conn_state c')"

lemma advances_grows: "advances n c c' \<Longrightarrow> grows c c'"
  by (simp add: advances_def grows_def)

lemma grows_loop: "grows c c' \<Longrightarrow> conn_loop c' = conn_loop c"
  by (simp add: grows_def)

lemma grows_refl [simp]: "grows c c"
  by (simp add: grows_def)

lemma grows_trans: "grows c c1 \<Longrightarrow> grows c1 c2 \<Longrightarrow> grows c c2"
  by (auto simp: grows_def intro: prefix_order.trans)

definition step_ok :: "('w, 'x) conn_callbacks \<Rightarrow> nat \<Rightarrow> 'x connection
    \<Rightarrow> ('w \<times> 'x connection) result \<Rightarrow> bool" where
  "step_ok cbs n c r \<longleftrightarrow>
     (case r of Inl e \<Rightarrow> raised cbs (conn_loop c) e | Inr s \<Rightarrow> conn_wf n (snd s) \<and> grows c (snd s))"

lemma fine_step_ok:
  assumes "fine cbs (n + posted_bytes c) c r" and "grows c0 c"
    and "conn_state c \<noteq> kConnecting" and "EstablishTask \<notin> set (posted c)"
  shows "step_ok cbs n c0 r"
  using assms conn_wf_advances [OF _ _ assms(3,4)] grows_trans [OF assms(2) advances_grows]
  by (auto simp: fine_def step_ok_def grows_loop [OF assms(2)] split: sum.splits)

lemma conn_wf_post:
  assumes "conn_wf (n + task_bytes t) c" and "conn_state c \<noteq> kConnecting" and "t \<noteq> EstablishTask"
  shows "conn_wf n (post t c)"
  using assms by (auto simp: conn_wf_def posted_bytes_post) (auto simp: post_def algebra_simps)

lemma conn_wf_open:
  "conn_wf n c \<Longrightarrow> conn_state c \<noteq> kConnecting \<Longrightarrow> EstablishTask \<notin> set (posted c)"
  by (simp add: conn_wf_def)

lemma grows_update [simp]:
  "grows c (post t c)" "grows c (c\<lparr>posted := ts\<rparr>)" "grows c (c\<lparr>channel := ch\<rparr>)"
  by (simp_all add: grows_def post_def stream_def)

lemma conn_inv_revents [simp]:
  "conn_inv n (c\<lparr>channel := set_revents e (channel c)\<rparr>) \<longleftrightarrow> conn_inv n c"
  by (cases "conn_state c"; simp add: conn_inv_def set_revents_def)

context connection_client
begin

lemma handle_write_fine:
  assumes "conn_inv n c"
  shows "fine cbs n c (bindE (handle_write k True c) (\<lambda>c'. Inr (w, c')))"
  using handle_write_spec [OF kernel assms] by (auto simp: fine_def intro: posts_nothing_else_eq)

lemma conn_events_fine:
  assumes inv: "conn_inv (event_cost cost (Dispatch e answer) + n) c"
    and st: "conn_state c = kConnected \<or> conn_state c = kDisconnecting"
  shows "fine cbs n c (handle_conn_events k cbs True answer (w, c))"
proof -
  have inv_n: "conn_inv n c" using inv by (rule conn_inv_mono) simp
  have read: "fine cbs n c (handle_read k cbs True answer (w, c))"
    by (rule handle_read_fine [OF _ st])
      (use inv in \<open>auto elim: conn_inv_mono split: read_result.splits\<close>)
  let ?r = "revents (channel c)"
  have eq: "handle_conn_events k cbs True answer (w, c) =
      bindE (if ?r AND (EPOLLIN OR EPOLLPRI OR EPOLLRDHUP) \<noteq> 0
             then handle_read k cbs True answer (w, c) else Inr (w, c))
        (\<lambda>s. if ?r AND EPOLLOUT \<noteq> 0 then bindE (handle_write k True (snd s)) (\<lambda>c'. Inr (fst s, c'))
             else Inr s)"
    by (simp add: handle_conn_events_def handle_events_def conn_channel_callbacks_def call_if_set_def)
  show ?thesis
    unfolding eq
  proof (rule fine_bind [where m = n])
    show "fine cbs n c (if ?r AND (EPOLLIN OR EPOLLPRI OR EPOLLRDHUP) \<noteq> 0
        then handle_read k cbs True answer (w, c) else Inr (w, c))"
      using read fine_refl [OF inv_n] by simp
    fix w1 c1
    assume "advances n c c1"
    then have "conn_inv n c1" by (rule advances_inv)
    then show "fine cbs n c1 (if ?r AND EPOLLOUT \<noteq> 0
        then bindE (handle_write k True (snd (w1, c1))) (\<lambda>c'. Inr (fst (w1, c1), c'))
        else Inr (w1, c1))"
      using handle_write_fine fine_refl by simp
  qed
qed

lemma dispatch_ok:
  assumes "conn_wf (event_cost cost (Dispatch e answer) + n) c"
  shows "step_ok cbs n c (conn_step k cbs (Dispatch e answer) (w, c))"
proof (cases "in_interest_list (channel c)")
  case False
  with conn_wf_mono [OF assms, of n] show ?thesis by (simp add: step_ok_def)
next
  case True
  let ?c1 = "c\<lparr>channel := set_revents e (channel c)\<rparr>"
  have inv: "conn_inv (event_cost cost (Dispatch e answer) + (n + posted_bytes c)) ?c1"
    using assms by (simp add: conn_wf_def add.assoc)
  then have st: "conn_state c = kConnected \<or> conn_state c = kDisconnecting"
    using True by (cases "conn_state c") (auto simp: conn_inv_def set_revents_def)
  have same: "posted_bytes ?c1 = posted_bytes c" by (simp add: posted_bytes_def)
  have "fine cbs (n + posted_bytes ?c1) ?c1 (handle_conn_events k cbs True answer (w, ?c1))"
    unfolding same by (rule conn_events_fine [OF inv]) (use st in simp)
  then have "step_ok cbs n c (handle_conn_events k cbs True answer (w, ?c1))"
    by (rule fine_step_ok) (use st conn_wf_open [OF assms] in auto)
  with True show ?thesis by simp
qed

lemma run_posted_ok:
  assumes "conn_wf (2 * cost + n) c"
  shows "step_ok cbs n c (conn_step k cbs RunPosted (w, c))"
proof (cases "posted c")
  case Nil
  with conn_wf_mono [OF assms, of n] show ?thesis by (simp add: step_ok_def)
next
  case (Cons t ts)
  let ?c1 = "c\<lparr>posted := ts\<rparr>"
  have bytes: "posted_bytes c = task_bytes t + posted_bytes ?c1"
    by (simp add: posted_bytes_def Cons)
  have inv: "conn_inv (n + posted_bytes ?c1 + task_bytes t + 2 * cost) ?c1"
    using assms by (simp add: conn_wf_def bytes algebra_simps)
  then have inv2: "conn_inv (n + posted_bytes ?c1 + 2 * cost) ?c1"
    by (rule conn_inv_mono) simp
  show ?thesis
  proof (cases "conn_state c = kConnecting")
    case True
    then have t: "t = EstablishTask" "ts = []" using assms Cons by (simp_all add: conn_wf_def)
    have "conn_inv (n + posted_bytes ?c1 + cost) ?c1" using inv2 by (rule conn_inv_mono) simp
    from established_fine [OF this] True
    have f: "fine cbs (n + posted_bytes ?c1) ?c1 (established k cbs True (w, ?c1))" by simp
    show ?thesis
    proof (cases "established k cbs True (w, ?c1)")
      case (Inl e)
      with f show ?thesis by (simp add: step_ok_def fine_def Cons t)
    next
      case (Inr s)
      with f have s: "advances (n + posted_bytes ?c1) ?c1 (snd s)" "posts_nothing_else ?c1 (snd s)"
        by (simp_all add: fine_def)
      then obtain m where m: "posted (snd s) = replicate m DestroyTask"
        by (auto simp: posts_nothing_else_def t)
      have "conn_state (snd s) \<noteq> kConnecting"
      proof -
        let ?c2 = "set_state kConnected ?c1"
        obtain c3 where c3: "on_channel enable_reading k True ?c2 = Inr c3"
          "run_callback (connection_cb cbs) (w, c3) = Inr s"
          using Inr True by (auto simp: established_def bindE_eq_Inr)
        have st3: "conn_state c3 = kConnected"
          using c3(1) by (auto simp: on_channel_eq [OF kernel] set_state_def)
        have inv3: "conn_inv (n + posted_bytes ?c1 + 2 * cost) c3"
          using c3(1) inv2 True
          by (auto simp: on_channel_eq [OF kernel] set_state_def conn_inv_def wanted_events_def)
        have "conn_inv (n + posted_bytes ?c1 + cost) c3" using inv3 by (rule conn_inv_mono) simp
        from callback_fine [OF _ this, of "connection_cb cbs" w] st3 c3(2)
        have "advances (n + posted_bytes ?c1) c3 (snd s)" by (simp add: fine_def)
        from advances_not_connecting [OF this] st3 show ?thesis by simp
      qed
      with s(1) m t Inr Cons show ?thesis
        using grows_trans [OF grows_update(2) advances_grows [OF s(1)]]
        by (auto simp: step_ok_def conn_wf_def advances_def posted_bytes_def sum_list_replicate)
    qed
  next
    case False
    then have no: "t \<noteq> EstablishTask" "EstablishTask \<notin> set ts"
      using conn_wf_open [OF assms] Cons by auto
    have inv_n: "conn_inv (n + posted_bytes ?c1) ?c1" using inv by (rule conn_inv_mono) simp
    have "fine cbs (n + posted_bytes ?c1) ?c1 (run_conn_task k cbs t (w, ?c1))"
    proof (cases t)
      case (SendTask d)
      have inv_d: "conn_inv (length d + (n + posted_bytes ?c1)) ?c1"
        using inv by (rule conn_inv_mono) (simp add: SendTask)
      have "conn_state ?c1 \<noteq> kConnecting" using False by simp
      from send_in_loop_spec [OF kernel inv_d this] obtain c' where c':
        "send_in_loop k True d ?c1 = Inr c'" "advances (n + posted_bytes ?c1) ?c1 c'"
        "posted c' = posted ?c1" by blast
      show ?thesis
        by (simp add: SendTask c'(1) fine_def c'(2) posts_nothing_else_eq [OF c'(3)])
    next
      case ShutdownTask
      with shutdown_spec(5,7) [OF inv_n] show ?thesis
        by (auto simp: fine_def intro: posts_nothing_else_eq)
    next
      case ForceCloseTask
      with force_close_task_fine [OF inv2] show ?thesis by simp
    next
      case DestroyTask
      with destroyed_fine [OF inv2] show ?thesis by simp
    qed (use no in simp)
    then have "step_ok cbs n c (run_conn_task k cbs t (w, ?c1))"
      by (rule fine_step_ok) (use False no in auto)
    with Cons show ?thesis by simp
  qed
qed

lemma send_ok:
  assumes "conn_wf (length d + n) c"
  shows "step_ok cbs n c (conn_step k cbs (Send here d) (w, c))"
proof (cases "conn_state c = kConnected")
  case False
  with conn_wf_mono [OF assms, of n] show ?thesis by (simp add: step_ok_def send_data_def)
next
  case True
  note open_c = conn_wf_open [OF assms]
  show ?thesis
  proof (cases here)
    case False
    with True conn_wf_post [of n "SendTask d" c] assms show ?thesis
      by (simp add: step_ok_def send_data_def add.commute)
  next
    case here: True
    have "conn_inv (length d + (n + posted_bytes c)) c"
      using assms by (simp add: conn_wf_def add.assoc)
    from send_in_loop_spec [OF kernel this] True obtain c' where c':
      "send_in_loop k True d c = Inr c'" "advances (n + posted_bytes c) c c'" "posted c' = posted c"
      by auto
    have "conn_wf n c'"
      using c'(2,3) open_c True by (intro conn_wf_advances posts_nothing_else_eq) auto
    with True here c'(1) advances_grows [OF c'(2)] show ?thesis
      by (simp add: step_ok_def send_data_def)
  qed
qed

lemma shutdown_ok:
  assumes "conn_wf n c"
  shows "step_ok cbs n c (conn_step k cbs (Shutdown here) (w, c))"
proof -
  have inv: "conn_inv (n + posted_bytes c) c" using assms by (simp add: conn_wf_def)
  note s = shutdown_spec [OF inv]
  have "conn_wf n (shutdown k here c)"
  proof (cases "conn_state c = kConnected")
    case False
    with assms show ?thesis by (simp add: shutdown_def)
  next
    case True
    note open_c = conn_wf_open [OF assms]
    show ?thesis
    proof (cases here)
      case True
      with s(1) s(3) open_c \<open>conn_state c = kConnected\<close> show ?thesis
        by (intro conn_wf_advances posts_nothing_else_eq) auto
    next
      case False
      have "conn_wf n (set_state kDisconnecting c)"
        using assms True conn_inv_disconnecting [OF inv True]
        by (simp add: conn_wf_def set_state_def posted_bytes_def)
      with True False conn_wf_post [of n ShutdownTask "set_state kDisconnecting c"] show ?thesis
        by (simp add: shutdown_def set_state_def)
    qed
  qed
  with advances_grows [OF s(1)] show ?thesis by (simp add: step_ok_def)
qed

lemma force_close_ok:
  assumes "conn_wf (2 * cost + n) c"
  shows "step_ok cbs n c (conn_step k cbs (ForceClose here) (w, c))"
proof (cases "conn_state c = kConnected \<or> conn_state c = kDisconnecting")
  case False
  with conn_wf_mono [OF assms, of n] show ?thesis by (simp add: step_ok_def force_close_def)
next
  case True
  then have open_c: "conn_state c \<noteq> kConnecting" "EstablishTask \<notin> set (posted c)"
    using conn_wf_open [OF assms] by auto
  have inv: "conn_inv (n + posted_bytes c + 2 * cost) c"
    using assms by (simp add: conn_wf_def algebra_simps)
  show ?thesis
  proof (cases here)
    case here: True
    from fine_step_ok [OF force_close_fine [OF inv] grows_refl open_c] here show ?thesis by simp
  next
    case False
    have inv_n: "conn_inv (n + posted_bytes c) c" using inv by (rule conn_inv_mono) simp
    note d = disconnecting [OF inv_n True]
    have "conn_wf n (set_state kDisconnecting c)"
      using conn_wf_advances [OF d open_c] .
    with conn_wf_post [of n ForceCloseTask "set_state kDisconnecting c"]
    have "conn_wf n (post ForceCloseTask (set_state kDisconnecting c))"
      by (simp add: set_state_def)
    with True False advances_grows [OF d(1)] show ?thesis
      by (auto simp: step_ok_def force_close_def Let_def intro: grows_trans)
  qed
qed

lemma conn_step_ok:
  assumes "conn_wf (event_cost cost ev + n) c"
  shows "step_ok cbs n c (conn_step k cbs ev (w, c))"
proof (cases ev)
  case (Dispatch e answer)
  with dispatch_ok assms show ?thesis by simp
next
  case RunPosted
  with run_posted_ok assms show ?thesis by simp
next
  case (Send here d)
  with send_ok assms show ?thesis by simp
next
  case (Shutdown here)
  with shutdown_ok conn_wf_mono [OF assms, of n] show ?thesis by simp
next
  case (ForceClose here)
  with force_close_ok assms show ?thesis by simp
qed

lemma conn_run_ok:
  "conn_wf (sum_list (map (event_cost cost) evs) + n) c \<Longrightarrow>
   step_ok cbs n c (foldE (conn_step k cbs) evs (w, c))"
proof (induction evs arbitrary: w c)
  case Nil
  then show ?case by (simp add: step_ok_def)
next
  case (Cons ev evs)
  let ?rest = "sum_list (map (event_cost cost) evs) + n"
  have "conn_wf (event_cost cost ev + ?rest) c" using Cons.prems by (simp add: add.assoc)
  from conn_step_ok [OF this] have step: "step_ok cbs ?rest c (conn_step k cbs ev (w, c))" .
  show ?case
  proof (cases "conn_step k cbs ev (w, c)")
    case (Inl e)
    with step show ?thesis by (simp add: step_ok_def)
  next
    case (Inr s)
    with step have s: "conn_wf ?rest (snd s)" "grows c (snd s)" by (simp_all add: step_ok_def)
    from Cons.IH [OF s(1), of "fst s"] Inr s(2) show ?thesis
      by (auto simp: step_ok_def grows_loop [OF s(2)] intro: grows_trans split: sum.splits)
  qed
qed

end

section \<open>When \<open>epoll_ctl\<close> fails\<close>

text \<open>Should the call that registers a new connection fail, the connection is connected all the same,
  with the events set and the channel not registered: nothing will be reported for it, and the
  first close aborts, because \<open>ctl_op_from\<close> asserts that a channel that is to be taken out is
  in the interest list.\<close>

theorem failed_add_aborts:
  assumes "conn_inv n c" and "conn_state c = kConnecting" and "\<not> k_ctl k (calls (sock c))"
  shows "\<exists>c1. established k no_conn_callbacks True (w, c) = Inr (w, c1) \<and> conn_state c1 = kConnected \<and>
           \<not> in_interest_list (channel c1) \<and>
           conn_step k cbs (ForceClose True) (w, c1) = Inl AssertFailure"
proof -
  let ?c1 = "c\<lparr>conn_state := kConnected, channel := (channel c)\<lparr>events := wanted_events False\<rparr>,
      sock := (sock c)\<lparr>calls := Suc (calls (sock c))\<rparr>\<rparr>"
  have c: "events (channel c) = 0" "\<not> in_interest_list (channel c)"
    using assms(1,2) by (simp_all add: conn_inv_def)
  have "established k no_conn_callbacks True (w, c) = Inr (w, ?c1)"
    using c assms(2,3) or_reading_nonzero [of 0]
    by (simp add: established_def run_callback_def call_if_set_def on_channel_def set_state_def
        enable_reading_def Epoller.channel_update_def loop_update_channel_def epoller_update_channel_def
        ctl_op_from_def has_none_events_def wanted_events_def)
  moreover have "conn_step k cbs (ForceClose True) (w, ?c1) = Inl AssertFailure"
    using c(2)
    by (simp add: force_close_def force_close_task_def handle_close_def set_state_def Let_def
        has_none_events_def on_channel_def disable_all_def Epoller.channel_update_def
        loop_update_channel_def epoller_update_channel_def ctl_op_from_def)
  ultimately show ?thesis using c(2) by (intro exI [of _ ?c1]) simp
qed

section \<open>Where an error comes from\<close>

text \<open>Every error that a callback returns is replaced by the mark \<open>m\<close>; its other results stay. By
  \<open>conn_step_marks\<close> the rest of an event then runs as before, so a run that ends with the mark ended
  with the error of a callback, called in the state the run had reached.\<close>

definition marked_callback :: "error \<Rightarrow> ('w, 'x) callback option \<Rightarrow> ('w, 'x) callback option" where
  "marked_callback m cb = map_option (\<lambda>f s. marked m (f s)) cb"

definition marked_callbacks :: "error \<Rightarrow> ('w, 'x) conn_callbacks \<Rightarrow> ('w, 'x) conn_callbacks" where
  "marked_callbacks m cbs =
     \<lparr>connection_cb = marked_callback m (connection_cb cbs),
      message_cb = marked_callback m (message_cb cbs), close_cb = marked_callback m (close_cb cbs)\<rparr>"

lemma run_marked_callback:
  "run_callback (marked_callback m cb) s = (case cb of None \<Rightarrow> Inr s | Some f \<Rightarrow> marked m (f s))"
  by (cases cb) (simp_all add: run_callback_def call_if_set_def marked_callback_def)

lemma marked_callback_marks: "marks m (run_callback cb s) (run_callback (marked_callback m cb) s)"
  by (cases cb) (simp_all add: run_marked_callback, simp_all add: run_callback_def call_if_set_def)

lemma marked_callback_Inr [simp]:
  "run_callback (marked_callback m cb) s = Inr s' \<longleftrightarrow> run_callback cb s = Inr s'"
  by (cases cb) (simp_all add: run_marked_callback, simp_all add: run_callback_def call_if_set_def)

lemma marked_callback_Inl: "run_callback (marked_callback m cb) s = Inl e \<Longrightarrow> e = m"
  by (cases cb; cases "run_callback cb s")
    (auto simp: run_marked_callback, auto simp: run_callback_def call_if_set_def)

text \<open>The callbacks \<open>cbs'\<close> are \<open>cbs\<close>, but for errors that may have been replaced by the mark.\<close>

definition callbacks_marks :: "error \<Rightarrow> ('w, 'x) conn_callbacks \<Rightarrow> ('w, 'x) conn_callbacks \<Rightarrow> bool" where
  "callbacks_marks m cbs cbs' \<longleftrightarrow>
     (\<forall>s. marks m (run_callback (connection_cb cbs) s) (run_callback (connection_cb cbs') s) \<and>
          marks m (run_callback (message_cb cbs) s) (run_callback (message_cb cbs') s) \<and>
          marks m (run_callback (close_cb cbs) s) (run_callback (close_cb cbs') s))"

lemma marked_callbacks_marks: "callbacks_marks m cbs (marked_callbacks m cbs)"
  by (simp add: callbacks_marks_def marked_callbacks_def marked_callback_marks)

lemma callbacks_marksD:
  assumes "callbacks_marks m cbs cbs'"
  shows "marks m (run_callback (connection_cb cbs) s) (run_callback (connection_cb cbs') s)"
    "marks m (run_callback (message_cb cbs) s) (run_callback (message_cb cbs') s)"
    "marks m (run_callback (close_cb cbs) s) (run_callback (close_cb cbs') s)"
  using assms unfolding callbacks_marks_def by blast+

lemma close_marks:
  assumes "callbacks_marks m cbs cbs'"
  shows "marks m (handle_close k cbs here s) (handle_close k cbs' here s)"
    "marks m (force_close_task k cbs here s) (force_close_task k cbs' here s)"
    "marks m (force_close k cbs here s) (force_close k cbs' here s)"
proof -
  show c: "marks m (handle_close k cbs here s) (handle_close k cbs' here s)" for s
    unfolding handle_close_def Let_def
    by (intro marks_intros callbacks_marksD [OF assms])
  then show t: "marks m (force_close_task k cbs here s) (force_close_task k cbs' here s)" for s
    unfolding force_close_task_def by (intro marks_intros)
  then show "marks m (force_close k cbs here s) (force_close k cbs' here s)"
    unfolding force_close_def Let_def by (intro marks_intros)
qed

lemma handle_read_marks:
  assumes "callbacks_marks m cbs cbs'"
  shows "marks m (handle_read k cbs here answer s) (handle_read k cbs' here answer s)"
  unfolding handle_read_def Let_def handle_error_def
  by (auto intro!: marks_bind callbacks_marksD [OF assms] close_marks [OF assms] split: prod.split)

lemma established_marks:
  assumes "callbacks_marks m cbs cbs'"
  shows "marks m (established k cbs here s) (established k cbs' here s)"
    "marks m (destroyed k cbs here s) (destroyed k cbs' here s)"
  unfolding established_def destroyed_def Let_def
  by (intro marks_intros callbacks_marksD [OF assms])+

lemma conn_events_marks:
  assumes "callbacks_marks m cbs cbs'"
  shows "marks m (handle_conn_events k cbs here answer s) (handle_conn_events k cbs' here answer s)"
  unfolding handle_conn_events_def handle_events_def conn_channel_callbacks_def channel_callback_defs
  by (auto simp: call_if_set_def intro!: marks_bind handle_read_marks [OF assms])

lemma run_conn_task_marks:
  assumes "callbacks_marks m cbs cbs'"
  shows "marks m (run_conn_task k cbs t s) (run_conn_task k cbs' t s)"
  by (cases t) (simp_all add: established_marks [OF assms] close_marks [OF assms])

lemma conn_step_marks:
  assumes "callbacks_marks m cbs cbs'"
  shows "marks m (conn_step k cbs ev s) (conn_step k cbs' ev s)"
  by (cases ev; cases s)
    (auto simp: conn_events_marks [OF assms] run_conn_task_marks [OF assms] close_marks [OF assms]
      split: list.split)

lemma conn_run_marks:
  "callbacks_marks m cbs cbs' \<Longrightarrow> marks m (foldE (conn_step k cbs) evs s) (foldE (conn_step k cbs') evs s)"
  by (intro marks_fold conn_step_marks)

text \<open>Marked callbacks keep the contract, and only they return the mark.\<close>

lemma good_marked_callbacks: "good_callbacks cost cbs \<Longrightarrow> good_callbacks cost (marked_callbacks m cbs)"
  by (simp add: good_callbacks_def good_callback_def marked_callbacks_def)

lemma raised_marked: "raised (marked_callbacks m cbs) l e \<Longrightarrow> e = m"
  by (auto simp: raised_def marked_callbacks_def dest: marked_callback_Inl)

text \<open>A run that fails was failed by a callback.\<close>

lemma conn_run_error:
  assumes "kernel_ok k" and "good_callbacks cost cbs"
    and "conn_wf (sum_list (map (event_cost cost) evs)) c"
    and "foldE (conn_step k cbs) evs (w, c) = Inl e"
  shows "foldE (conn_step k (marked_callbacks m cbs)) evs (w, c) = Inl m"
proof (rule marks_error [OF conn_run_marks [OF marked_callbacks_marks] _ assms(4)])
  have client: "connection_client k (marked_callbacks m cbs) cost"
    using assms(1) good_marked_callbacks [OF assms(2)] by unfold_locales
  fix e'
  assume "foldE (conn_step k (marked_callbacks m cbs)) evs (w, c) = Inl e'"
  with connection_client.conn_run_ok [OF client, of evs 0 c w] assms(3) show "e' = m"
    by (auto simp: step_ok_def dest: raised_marked)
qed

lemma read_fd_positive:
  assumes "read_fd answer b = Inr ((n, e), b')" and "n > 0"
  obtains d where "answer = ReadOk d" and "d \<noteq> []"
  using assms by (cases answer) (auto simp: read_fd_def bindE_eq_Inr Let_def split: if_splits)

lemma no_message_step:
  assumes "\<And>mask d. ev = Dispatch mask (ReadOk d) \<Longrightarrow> d = []"
  shows "conn_step k (cbs\<lparr>message_cb := None\<rparr>) ev s = conn_step k cbs ev s"
proof -
  have close: "handle_close k (cbs\<lparr>message_cb := None\<rparr>) here s = handle_close k cbs here s"
    "force_close_task k (cbs\<lparr>message_cb := None\<rparr>) here s = force_close_task k cbs here s"
    "force_close k (cbs\<lparr>message_cb := None\<rparr>) here s = force_close k cbs here s" for here s
    by (simp_all add: handle_close_def force_close_def force_close_task_def Let_def)
  have task: "run_conn_task k (cbs\<lparr>message_cb := None\<rparr>) t s = run_conn_task k cbs t s" for t s
    by (cases t) (simp_all add: close established_def destroyed_def)
  have read: "handle_read k (cbs\<lparr>message_cb := None\<rparr>) True answer s = handle_read k cbs True answer s"
    if "\<And>d. answer = ReadOk d \<Longrightarrow> d = []" for answer s
  proof -
    have "\<not> n > 0" if "read_fd answer b = Inr ((n, e), b')" for n e b b'
      using read_fd_positive [OF that] \<open>\<And>d. answer = ReadOk d \<Longrightarrow> d = []\<close> by blast
    then show ?thesis
      unfolding handle_read_def Let_def handle_error_def
      by (intro bindE_cong refl) (clarsimp simp: close)
  qed
  show ?thesis
  proof (cases ev)
    case (Dispatch mask answer)
    have "handle_read k (cbs\<lparr>message_cb := None\<rparr>) True answer = handle_read k cbs True answer"
      using read [of answer] assms Dispatch by (auto simp: fun_eq_iff)
    then show ?thesis
      using Dispatch by (cases s) (simp add: handle_conn_events_def conn_channel_callbacks_def)
  qed (cases s; simp add: task close split: list.split)+
qed

context connection_client
begin

text \<open>When the connection callback and the close callback do not fail, a connection fails only in the
  message callback, called on the bytes that have just been read.\<close>

lemma step_error:
  assumes wf: "conn_wf (event_cost cost ev + n) c"
    and never: "\<And>s. conn_loop (snd s) = conn_loop c \<Longrightarrow>
      is_ok (run_callback (connection_cb cbs) s) \<and> is_ok (run_callback (close_cb cbs) s)"
    and err: "conn_step k cbs ev (w, c) = Inl e"
  obtains mask d b where "ev = Dispatch mask (ReadOk d)" and "in_interest_list (channel c)"
    and "wf_buffer b" and "contents b = contents (in_buffer c) @ d"
    and "conn_inv (n + cost) (c\<lparr>channel := set_revents mask (channel c), in_buffer := b\<rparr>)"
    and "run_callback (message_cb cbs) (w, c\<lparr>channel := set_revents mask (channel c), in_buffer := b\<rparr>) = Inl e"
proof -
  have "\<exists>mask d. ev = Dispatch mask (ReadOk d) \<and> d \<noteq> []"
  proof (rule ccontr)
    assume no: "\<nexists>mask d. ev = Dispatch mask (ReadOk d) \<and> d \<noteq> []"
    let ?cbs = "cbs\<lparr>message_cb := None\<rparr>"
    have "conn_step k ?cbs ev (w, c) = Inl e"
      using err no by (subst no_message_step) auto
    moreover have "connection_client k ?cbs cost"
      using kernel callbacks good_callback_None by unfold_locales (auto simp: good_callbacks_def)
    ultimately have "raised ?cbs (conn_loop c) e"
      using connection_client.conn_step_ok [OF _ wf, of k ?cbs w] by (simp add: step_ok_def)
    then have "\<exists>cb \<in> {connection_cb cbs, None, close_cb cbs}. \<exists>s. conn_loop (snd s) = conn_loop c \<and>
        run_callback cb s = Inl e" by (simp add: raised_def)
    then obtain cb s where "cb \<in> {connection_cb cbs, None, close_cb cbs}" "conn_loop (snd s) = conn_loop c"
      "run_callback cb s = Inl e" by blast
    with never [of s] show False by (auto simp: run_callback_def call_if_set_def)
  qed
  then obtain mask d where ev: "ev = Dispatch mask (ReadOk d)" "d \<noteq> []" by blast
  let ?c = "c\<lparr>channel := set_revents mask (channel c)\<rparr>"
  have reg: "in_interest_list (channel c)" using err ev(1) by (auto split: if_splits)
  have inv: "conn_inv (length d + (n + posted_bytes c + 2 * cost)) ?c"
    using wf by (simp add: conn_wf_def ev(1) algebra_simps)
  then have st: "conn_state ?c = kConnected \<or> conn_state ?c = kDisconnecting"
    using reg by (cases "conn_state c") (auto simp: conn_inv_def set_revents_def)
  note cwf = conn_inv_wf [OF inv]
  obtain b where b: "read_fd (ReadOk d) (in_buffer ?c) = Inr ((int (length d), None), b)" "wf_buffer b"
    "contents b = contents (in_buffer ?c) @ d" "room b (n + posted_bytes c + 2 * cost)"
    using read_fd_spec [OF cwf(1,3)] by blast
  let ?c1 = "?c\<lparr>in_buffer := b\<rparr>"
  have inv1: "conn_inv (n + posted_bytes c + 2 * cost) ?c1"
    using inv b(2,4) st room_mono [OF cwf(4), of "n + posted_bytes c + 2 * cost"]
    by (auto simp: conn_inv_def)
  have out: "\<exists>c'. handle_write k True c1 = Inr c'" if "conn_inv n c1" for c1 :: "'b connection"
    using handle_write_spec [OF kernel that] by blast
  have inv0: "conn_inv n ?c" using inv by (rule conn_inv_mono) simp
  let ?r = "run_callback (message_cb cbs) (w, ?c1)"
  have read: "handle_read k cbs True (ReadOk d) (w, ?c) = ?r"
    using b(1) ev(2) by (simp add: handle_read_def)
  have "conn_step k cbs ev (w, c) =
      bindE (if mask AND (EPOLLIN OR EPOLLPRI OR EPOLLRDHUP) \<noteq> 0 then ?r else Inr (w, ?c))
        (\<lambda>s. if mask AND EPOLLOUT \<noteq> 0 then bindE (handle_write k True (snd s)) (\<lambda>c'. Inr (fst s, c'))
             else Inr s)"
    using reg read by (simp add: ev(1) handle_conn_events_def handle_events_def
        conn_channel_callbacks_def call_if_set_def set_revents_def cong: if_cong)
  with err have "?r = Inl e \<or> (\<exists>s e. ?r = Inr s \<and> handle_write k True (snd s) = Inl e) \<or>
      (\<exists>e. handle_write k True ?c = Inl e)"
    by (cases ?r; cases "handle_write k True ?c") (auto simp: bindE_def split: if_splits sum.splits)
  moreover have "conn_inv n (snd s)" if "?r = Inr s" for s
  proof -
    have "fine cbs n ?c1 ?r"
      by (rule callback_fine [OF _ conn_inv_mono [OF inv1]]) (use st in auto)
    with that show ?thesis by (auto simp: fine_def advances_def)
  qed
  ultimately have "?r = Inl e" using out inv0 by (metis Inl_Inr_False)
  moreover have "conn_inv (n + cost) ?c1" using inv1 by (rule conn_inv_mono) simp
  ultimately show thesis using that ev(1) reg b(2,3) by simp
qed

end

section \<open>Single events\<close>

text \<open>A channel that is only writable.\<close>

lemma write_event:
  assumes k: "kernel_ok k" and inv: "conn_inv n c"
    and st: "conn_state c = kConnected \<or> conn_state c = kDisconnecting"
  shows "\<exists>c'. conn_step k cbs (Dispatch EPOLLOUT answer) (w, c) = Inr (w, c') \<and>
      handle_write k True (c\<lparr>channel := set_revents EPOLLOUT (channel c)\<rparr>) = Inr c' \<and>
      advances n c c' \<and> stream c' = stream c \<and> conn_state c' = conn_state c \<and>
      in_buffer c' = in_buffer c \<and> posted c' = posted c \<and> conn_context c' = conn_context c \<and>
      write_shut (sock c') = write_shut (sock c)"
proof -
  let ?c1 = "c\<lparr>channel := set_revents EPOLLOUT (channel c)\<rparr>"
  have "conn_inv n ?c1" using inv by simp
  from handle_write_spec [OF k this] obtain c' where c':
    "handle_write k True ?c1 = Inr c'" "advances n ?c1 c'" "stream c' = stream ?c1"
    "conn_state c' = conn_state ?c1" "in_buffer c' = in_buffer ?c1" "posted c' = posted ?c1"
    "conn_context c' = conn_context ?c1" "write_shut (sock c') = write_shut (sock ?c1)" by blast
  have "EPOLLOUT AND EPOLLHUP = 0" "EPOLLOUT AND EPOLLERR = 0" "EPOLLOUT AND EPOLLOUT \<noteq> 0"
    "EPOLLOUT AND (EPOLLIN OR EPOLLPRI OR EPOLLRDHUP) = 0"
    by (simp_all add: epoll_constants)
  then have "handle_conn_events k cbs True answer (w, ?c1) = Inr (w, c')"
    using c'(1)
    by (simp add: handle_conn_events_def handle_events_def conn_channel_callbacks_def
        call_if_set_def set_revents_def)
  moreover have "advances n c c'" "stream c' = stream c"
    using c'(2,3) by (simp_all add: advances_def stream_def)
  ultimately show ?thesis
    using c' open_writing(1) [OF inv st] by simp
qed

text \<open>Any mask: of the callbacks only those for reading and for writing are set.\<close>

definition may_read :: "event_mask \<Rightarrow> bool" where
  "may_read e \<longleftrightarrow> e AND (EPOLLIN OR EPOLLPRI OR EPOLLRDHUP) \<noteq> 0"

lemma may_read_simps [simp]: "may_read EPOLLIN" "\<not> may_read EPOLLOUT" "may_read (EPOLLIN OR e)"
  by (simp_all add: may_read_def epoll_constants bit_eq_iff) (auto simp: bit_simps intro!: exI [of _ 0])

lemma dispatch_eq:
  assumes "in_interest_list (channel c)"
  shows "conn_step k cbs (Dispatch e a) (w, c) =
    (let c1 = c\<lparr>channel := set_revents e (channel c)\<rparr> in
     bindE (if may_read e then handle_read k cbs True a (w, c1) else Inr (w, c1))
       (\<lambda>s. if e AND EPOLLOUT \<noteq> 0 then bindE (handle_write k True (snd s)) (\<lambda>c'. Inr (fst s, c')) else Inr s))"
  using assms
  by (simp add: handle_conn_events_def handle_events_def conn_channel_callbacks_def call_if_set_def set_revents_def
      may_read_def Let_def cong: if_cong)

lemma readable_step:
  assumes "in_interest_list (channel c)"
  shows "conn_step k cbs (Dispatch EPOLLIN a) (w, c) = handle_read k cbs True a (w, c\<lparr>channel := set_revents EPOLLIN (channel c)\<rparr>)"
proof -
  have "EPOLLIN AND EPOLLOUT = 0" by (simp add: epoll_constants)
  then show ?thesis
    unfolding dispatch_eq [OF assms]
    by (cases "handle_read k cbs True a (w, c\<lparr>channel := set_revents EPOLLIN (channel c)\<rparr>)") (simp_all add: Let_def)
qed

text \<open>Nothing but the queue of tasks moves in a connection that is closed.\<close>

definition closed_for_good :: "'x connection \<Rightarrow> bool" where
  "closed_for_good c \<longleftrightarrow>
     conn_state c = kDisconnected \<and> \<not> in_interest_list (channel c) \<and> events (channel c) = 0 \<and>
     EstablishTask \<notin> set (posted c)"

lemma closed_for_good: "conn_wf n c \<Longrightarrow> conn_state c = kDisconnected \<Longrightarrow> closed_for_good c"
  by (auto simp: closed_for_good_def conn_wf_def conn_inv_def)

lemma closed_step:
  assumes "closed_for_good c"
  shows "\<exists>c'. conn_step k cbs ev (w, c) = Inr (w, c') \<and> closed_for_good c' \<and> stream c' = stream c \<and>
    posted c' = (if ev = RunPosted then tl (posted c) else posted c) \<and> wrote (sock c') = wrote (sock c)"
proof (cases ev)
  case RunPosted
  show ?thesis
  proof (cases "posted c")
    case Nil
    with RunPosted assms show ?thesis by simp
  next
    case (Cons t ts)
    with RunPosted assms show ?thesis
      by (cases t) (auto simp: closed_for_good_def send_in_loop_def shutdown_task_def force_close_task_def
          destroyed_def is_writing_def stream_def sock_shutdown_def)
  qed
qed (use assms in \<open>simp_all add: closed_for_good_def send_data_def shutdown_def force_close_def\<close>)

lemma closed_run:
  "closed_for_good c \<Longrightarrow> \<exists>c'. foldE (conn_step k cbs) evs (w, c) = Inr (w, c') \<and> closed_for_good c' \<and>
     stream c' = stream c \<and> wrote (sock c') = wrote (sock c)"
proof (induction evs arbitrary: c)
  case Nil
  then show ?case by simp
next
  case (Cons ev evs)
  from closed_step [OF Cons.prems, of k cbs ev w] Cons.IH show ?case by fastforce
qed

text \<open>Pending output is written when the kernel makes progress.\<close>

definition progresses :: "kernel \<Rightarrow> bool" where
  "progresses k \<longleftrightarrow> (\<forall>i d. d \<noteq> [] \<longrightarrow> (\<exists>n > 0. k_write k i d = WriteOk n))"

lemma handle_write_shortens:
  assumes k: "kernel_ok k" "progresses k" and inv: "conn_inv n c"
    and op: "conn_state c = kConnected \<or> conn_state c = kDisconnecting"
    and c1: "handle_write k True c = Inr c1"
  shows "length (contents (output_buffer c1)) \<le> length (contents (output_buffer c)) - 1"
proof (cases "contents (output_buffer c) = []")
  case True
  then have "c1 = c" using c1 open_writing(3) [OF inv op] by (simp add: handle_write_def)
  with True show ?thesis by simp
next
  case False
  let ?out = "contents (output_buffer c)"
  have stream: "stream c1 = stream c"
    using handle_write_spec [OF k(1) inv] c1 by auto
  obtain j where j: "0 < j" "k_write k (calls (sock c)) ?out = WriteOk j"
    using k(2) False by (auto simp: progresses_def)
  have wrote: "wrote (sock c1) = wrote (sock c) @ take j ?out"
  proof -
    have "j \<le> length ?out" using k(1) j(2) by (auto simp: kernel_ok_def)
    then obtain b where b: "retrieve j (output_buffer c) = Inr b"
      using buf.discard [OF conn_inv_wf(2) [OF inv]] by blast
    have peek: "peeked (output_buffer c) (readable_bytes (output_buffer c)) = ?out"
      by (simp add: contents_def)
    show ?thesis
      using c1 False j b open_writing [OF inv op] op
      by (auto simp: handle_write_def on_socket_def sock_write_def peek on_channel_eq [OF k(1)]
          shutdown_def Let_def split: if_splits)
  qed
  have "length (wrote (sock c1)) + length (contents (output_buffer c1))
      = length (wrote (sock c)) + length ?out"
    using arg_cong [OF stream, of length] by (simp add: stream_def)
  with wrote j(1) False show ?thesis by (cases ?out) (auto simp: min_def split: if_splits)
qed

lemma write_events_drain:
  assumes k: "kernel_ok k" "progresses k"
  shows "conn_inv n c \<Longrightarrow> conn_state c = kConnected \<or> conn_state c = kDisconnecting \<Longrightarrow>
    length (contents (output_buffer c)) \<le> length as \<Longrightarrow>
    \<exists>c'. foldE (conn_step k cbs) (map (Dispatch EPOLLOUT) as) (w, c) = Inr (w, c') \<and>
      contents (output_buffer c') = [] \<and> stream c' = stream c \<and> conn_inv n c' \<and>
      conn_state c' = conn_state c \<and> in_buffer c' = in_buffer c \<and> posted c' = posted c \<and>
      conn_context c' = conn_context c"
proof (induction as arbitrary: c)
  case Nil
  then show ?case by simp
next
  case (Cons a as)
  let ?c1 = "c\<lparr>channel := set_revents EPOLLOUT (channel c)\<rparr>"
  from write_event [OF k(1) Cons.prems(1,2), of cbs a w] obtain c2 where c2:
    "conn_step k cbs (Dispatch EPOLLOUT a) (w, c) = Inr (w, c2)" "handle_write k True ?c1 = Inr c2"
    "advances n c c2" "stream c2 = stream c" "conn_state c2 = conn_state c"
    "in_buffer c2 = in_buffer c" "posted c2 = posted c" "conn_context c2 = conn_context c" by blast
  have "length (contents (output_buffer c2)) \<le> length (contents (output_buffer ?c1)) - 1"
    using Cons.prems(1,2) c2(2) by (intro handle_write_shortens [OF k]) simp_all
  then have "length (contents (output_buffer c2)) \<le> length as"
    using Cons.prems(3) by simp
  with Cons.IH [of c2] c2 Cons.prems(2) advances_inv [OF c2(3)] show ?case by auto
qed

section \<open>Properties\<close>

definition start_connection :: "nat \<Rightarrow> int \<Rightarrow> sockaddr_in \<Rightarrow> 'x \<Rightarrow> 'x connection" where
  "start_connection loop fd peer_address no_context =
     post EstablishTask (tcp_connection_ctor loop fd peer_address no_context)"

lemma start_wf: "n + 8 \<le> max_string_size \<Longrightarrow> conn_wf n (start_connection loop fd a x)"
  by (simp add: start_connection_def tcp_connection_ctor_def conn_wf_def conn_inv_def post_def
      posted_bytes_def new_channel_def)

text \<open>A kernel that takes over at most three bytes at a time, and an answering server.\<close>

definition slow_kernel :: kernel where
  "slow_kernel = \<lparr>k_write = (\<lambda>_ d. WriteOk (min 3 (length d))), k_ctl = (\<lambda>_. True), k_shutdown = (\<lambda>_. True)\<rparr>"

lemma slow_kernel_ok: "kernel_ok slow_kernel"
  by (simp add: kernel_ok_def slow_kernel_def)

lemma slow_kernel_progresses: "progresses slow_kernel"
  by (auto simp: progresses_def slow_kernel_def)

definition answering :: "bytes \<Rightarrow> (nat, unit) conn_callbacks" where
  "answering t = \<lparr>connection_cb = None,
     message_cb = Some (\<lambda>(w, c). bindE (send_data slow_kernel True t c) (\<lambda>c'. Inr (Suc w, c'))),
     close_cb = None\<rparr>"

lemma answering_good: "good_callbacks (length t) (answering t)"
proof -
  have "advances n c c' \<and> posts_nothing_else c c'"
    if inv: "conn_inv (n + length t) c" and st: "conn_state c \<noteq> kConnecting"
      and send: "send_data slow_kernel True t c = Inr c'" for n and c c' :: "unit connection"
  proof -
    have inv1: "conn_inv (length t + n) c" using inv by (simp add: add.commute)
    have inv2: "conn_inv n c" using inv by (rule conn_inv_mono) simp
    from send_in_loop_spec [OF slow_kernel_ok inv1 st] send inv2 show ?thesis
      by (auto simp: send_data_def advances_refl posts_nothing_else_eq split: if_splits)
  qed
  then show ?thesis
    by (auto simp: good_callbacks_def good_callback_None answering_def)
      (auto simp: good_callback_def run_callback_def call_if_set_def bindE_eq_Inr)
qed

text \<open>Such a kernel, and a connection it registers in vain.\<close>

theorem failed_add_aborts_witness:
  "\<exists>c1. established (slow_kernel\<lparr>k_ctl := \<lambda>_. False\<rparr>) no_conn_callbacks True
       (0 :: nat, tcp_connection_ctor 1 5 zero_sockaddr ()) = Inr (0, c1) \<and>
     conn_state c1 = kConnected \<and> \<not> in_interest_list (channel c1) \<and>
     conn_step (slow_kernel\<lparr>k_ctl := \<lambda>_. False\<rparr>) (answering []) (ForceClose True) (0, c1) = Inl AssertFailure"
  by (rule failed_add_aborts [where n = 0])
    (simp_all add: conn_inv_def tcp_connection_ctor_def new_channel_def max_string_size_def)



text \<open>An open connection with nothing pending, and one with pending output.\<close>

definition open_connection :: "bytes \<Rightarrow> unit connection" where
  "open_connection pending =
     (tcp_connection_ctor 1 5 zero_sockaddr ())\<lparr>conn_state := kConnected,
       channel := (new_channel 1 5)\<lparr>events := wanted_events (pending \<noteq> []), in_interest_list := True\<rparr>,
       output_buffer := buffer_holding pending\<rparr>"

lemma open_connection_fields [simp]:
  "conn_state (open_connection pending) = kConnected"
  "posted (open_connection pending) = []"
  "in_buffer (open_connection pending) = new_buffer"
  "output_buffer (open_connection pending) = buffer_holding pending"
  "in_interest_list (channel (open_connection pending))"
  "events (channel (open_connection pending)) = wanted_events (pending \<noteq> [])"
  by (simp_all add: open_connection_def tcp_connection_ctor_def)

lemma open_connection:
  assumes "length pending + n + 8 \<le> max_string_size"
  shows "conn_inv n (open_connection pending)"
    "contents (output_buffer (open_connection pending)) = pending"
  using assms buffer_holding [of pending] by (simp_all add: conn_inv_def)

text \<open>C12: \<open>send\<close> on an open connection puts exactly its bytes behind all bytes sent before,
  whatever part of them the kernel takes over at once and whether \<open>write\<close> fails; from another
  thread it only posts a task, and running the task does the same.\<close>

theorem send_in_order:
  assumes "kernel_ok k" and "conn_inv (length d + n) c" and "conn_state c = kConnected"
  shows "(\<exists>c'. send_data k True d c = Inr c' \<and> stream c' = stream c @ d \<and> conn_inv n c' \<and>
           (is_writing (channel c') \<longleftrightarrow> contents (output_buffer c') \<noteq> [])) \<and>
         send_data k False d c = Inr (post (SendTask d) c) \<and>
         (\<exists>c'. run_conn_task k cbs (SendTask d) (w, c) = Inr (w, c') \<and> stream c' = stream c @ d \<and>
           conn_inv n c')"
proof -
  from send_in_loop_spec [OF assms(1,2)] assms(3) obtain c' where c':
    "send_in_loop k True d c = Inr c'" "advances n c c'" "stream c' = stream c @ d"
    "conn_state c' = kConnected" by auto
  moreover note advances_inv [OF c'(2)]
  ultimately show ?thesis
    using assms(3) open_writing(3) [of n c'] by (simp add: send_data_def)
qed

theorem send_in_order_witness:
  "let c = open_connection ''abc''; cbs = answering [] in
   (\<exists>c'. send_data slow_kernel True ''defgh'' c = Inr c' \<and> stream c' = stream c @ ''defgh'' \<and>
      conn_inv 7 c' \<and> (is_writing (channel c') \<longleftrightarrow> contents (output_buffer c') \<noteq> [])) \<and>
   send_data slow_kernel False ''defgh'' c = Inr (post (SendTask ''defgh'') c) \<and>
   (\<exists>c'. run_conn_task slow_kernel cbs (SendTask ''defgh'') (0, c) = Inr (0, c') \<and>
      stream c' = stream c @ ''defgh'' \<and> conn_inv 7 c')"
  unfolding Let_def
  by (rule send_in_order [OF slow_kernel_ok]) (simp_all add: open_connection max_string_size_def)

text \<open>C20: Pending output is written: when each \<open>write\<close> takes over at least one byte, as many
  writable events as there are bytes leave nothing pending, everything sent is with the kernel,
  byte for byte, and the channel no longer asks for writability.\<close>

theorem pending_output_drains:
  assumes "kernel_ok k" and "progresses k"
    and "conn_inv n c" and "conn_state c = kConnected \<or> conn_state c = kDisconnecting"
    and "length (contents (output_buffer c)) \<le> length answers"
  shows "\<exists>c'. foldE (conn_step k cbs) (map (Dispatch EPOLLOUT) answers) (w, c) = Inr (w, c') \<and>
           contents (output_buffer c') = [] \<and> wrote (sock c') = stream c \<and>
           \<not> is_writing (channel c') \<and> conn_state c' = conn_state c \<and> conn_inv n c'"
proof -
  from write_events_drain [OF assms(1-5), of cbs w] obtain c' where c':
    "foldE (conn_step k cbs) (map (Dispatch EPOLLOUT) answers) (w, c) = Inr (w, c')"
    "contents (output_buffer c') = []" "stream c' = stream c" "conn_inv n c'"
    "conn_state c' = conn_state c" by blast
  then have "\<not> is_writing (channel c')"
    using open_writing(3) [OF c'(4)] assms(4) by simp
  with c' show ?thesis by (simp add: stream_def)
qed

theorem pending_output_drains_witness:
  "\<exists>c'. foldE (conn_step slow_kernel (answering [])) (map (Dispatch EPOLLOUT) (replicate 5 (ReadErr 11)))
       (0, open_connection ''hello'') = Inr (0, c') \<and>
     contents (output_buffer c') = [] \<and> wrote (sock c') = stream (open_connection ''hello'') \<and>
     \<not> is_writing (channel c') \<and> conn_state c' = conn_state (open_connection ''hello'') \<and> conn_inv 0 c'"
proof (rule pending_output_drains [OF slow_kernel_ok slow_kernel_progresses])
  have "contents (output_buffer (open_connection ''hello'')) = ''hello''"
    by (rule open_connection(2) [where n = 0]) (simp add: max_string_size_def)
  then show "length (contents (output_buffer (open_connection ''hello''))) \<le> length (replicate 5 (ReadErr 11))"
    by simp
qed (simp_all add: open_connection max_string_size_def)

text \<open>What follows the call of \<open>shutdown\<close>: tasks, writable events, and further calls of \<open>shutdown\<close>
  and \<open>send\<close>. None of them half-closes a connection that is disconnecting already.\<close>

definition draining :: "conn_event \<Rightarrow> bool" where
  "draining ev = (case ev of
     Dispatch e answer \<Rightarrow> e = EPOLLOUT | ForceClose here \<Rightarrow> False | _ \<Rightarrow> True)"

lemma draining_step:
  assumes k: "kernel_ok k" and inv: "conn_inv n c" and st: "conn_state c = kDisconnecting"
    and ev: "draining ev" and posted: "posted c = [] \<or> ev \<noteq> RunPosted"
  shows "\<exists>c2. conn_step k cbs ev (w, c) = Inr (w, c2) \<and> conn_inv n c2 \<and> conn_state c2 = kDisconnecting \<and>
      posted c2 = posted c \<and> write_shut (sock c2) = write_shut (sock c)"
proof (cases ev)
  case (Dispatch e answer)
  with ev have e: "e = EPOLLOUT" by (simp add: draining_def)
  from write_event [OF k inv, of cbs answer w] st obtain c2 where
    "conn_step k cbs (Dispatch EPOLLOUT answer) (w, c) = Inr (w, c2)" "advances n c c2"
    "conn_state c2 = conn_state c" "posted c2 = posted c"
    "write_shut (sock c2) = write_shut (sock c)" by blast
  with advances_inv [OF this(2)] st Dispatch e show ?thesis by simp
qed (use inv st ev posted in \<open>simp_all add: shutdown_def send_data_def draining_def\<close>)

lemma draining_run:
  assumes "kernel_ok k"
  shows "conn_inv n c \<Longrightarrow> conn_state c = kDisconnecting \<Longrightarrow> list_all draining evs \<Longrightarrow>
    posted c = [] \<or> RunPosted \<notin> set evs \<Longrightarrow>
    \<exists>c2. foldE (conn_step k cbs) evs (w, c) = Inr (w, c2) \<and> conn_inv n c2 \<and> conn_state c2 = kDisconnecting \<and>
      posted c2 = posted c \<and> write_shut (sock c2) = write_shut (sock c)"
proof (induction evs arbitrary: c)
  case Nil
  then show ?case by simp
next
  case (Cons ev evs)
  from draining_step [OF assms Cons.prems(1,2), of ev cbs w] Cons.prems(3,4) obtain c2 where c2:
    "conn_step k cbs ev (w, c) = Inr (w, c2)" "conn_inv n c2" "conn_state c2 = kDisconnecting"
    "posted c2 = posted c" "write_shut (sock c2) = write_shut (sock c)" by auto
  with Cons.IH [OF c2(2,3)] Cons.prems(3,4) show ?case by auto
qed

lemma shutdown_task_pending:
  assumes "conn_inv n c" and "conn_state c = kDisconnecting"
  shows "conn_inv n (shutdown_task k c)" "conn_state (shutdown_task k c) = kDisconnecting"
    "posted (shutdown_task k c) = posted c"
    "write_shut (sock (shutdown_task k c)) =
       (write_shut (sock c) \<or> contents (output_buffer c) = [] \<and> k_shutdown k (calls (sock c)))"
  using assms open_writing(3) [OF assms(1)] by (auto simp: shutdown_task_def sock_shutdown_def)

text \<open>C37: \<open>shutdown\<close> half-closes the socket only when nothing is pending at that moment, and
  otherwise never. Called on the loop's own thread of an open connection for which no task is queued, it
  makes the half-close exactly when no output is pending; with output pending the connection
  becomes disconnecting and the half-close is not made later: not when the output has been
  written, although \<open>handle_write\<close> then calls \<open>shutdown\<close> for it, because \<open>shutdown\<close> does nothing in
  that state, and not by asking again. Called on another thread it only queues its task, and what
  decides is whether output is pending when the task runs: the half-close is made when the output
  has drained by then, and is lost otherwise. In between there are writable events, tasks and
  further calls of \<open>send\<close> and \<open>shutdown\<close>; nothing is read, and nobody closes the connection.\<close>

theorem pending_shutdown_lost:
  assumes "kernel_ok k" and "conn_inv n c" and "conn_state c = kConnected" and "posted c = []"
    and "list_all draining evs" and "list_all draining before" and "RunPosted \<notin> set before"
    and "\<forall>d. Send False d \<notin> set before"
  shows "(\<exists>c'. foldE (conn_step k cbs) evs (w, shutdown k True c) = Inr (w, c') \<and>
             conn_state c' = kDisconnecting \<and>
             write_shut (sock c') =
               (write_shut (sock c) \<or> contents (output_buffer c) = [] \<and> k_shutdown k (calls (sock c)))) \<and>
         (\<exists>c1 c'. foldE (conn_step k cbs) before (w, shutdown k False c) = Inr (w, c1) \<and>
             foldE (conn_step k cbs) (RunPosted # evs) (w, c1) = Inr (w, c') \<and>
             conn_state c' = kDisconnecting \<and>
             write_shut (sock c') =
               (write_shut (sock c) \<or> contents (output_buffer c1) = [] \<and> k_shutdown k (calls (sock c1))))"
proof
  let ?d = "set_state kDisconnecting c"
  have d: "conn_inv n ?d" "conn_state ?d = kDisconnecting" "posted ?d = []"
    using conn_inv_disconnecting [OF assms(2,3)] assms(4) by (simp_all add: set_state_def)
  note t = shutdown_task_pending [OF d(1,2), of k]
  have "shutdown k True c = shutdown_task k ?d" using assms(3) by (simp add: shutdown_def)
  moreover from draining_run [OF assms(1) t(1,2) assms(5), of cbs w] t(3) d(3) obtain c' where
    "foldE (conn_step k cbs) evs (w, shutdown_task k ?d) = Inr (w, c')" "conn_state c' = kDisconnecting"
    "write_shut (sock c') = write_shut (sock (shutdown_task k ?d))" by auto
  ultimately show "\<exists>c'. foldE (conn_step k cbs) evs (w, shutdown k True c) = Inr (w, c') \<and>
      conn_state c' = kDisconnecting \<and> write_shut (sock c') =
        (write_shut (sock c) \<or> contents (output_buffer c) = [] \<and> k_shutdown k (calls (sock c)))"
    using t(4) by (simp add: set_state_def)
  have p: "shutdown k False c = post ShutdownTask ?d" "conn_inv n (post ShutdownTask ?d)"
    "conn_state (post ShutdownTask ?d) = kDisconnecting"
    using assms(3) d by (simp_all add: shutdown_def post_def)
  from draining_run [OF assms(1) p(2,3) assms(6), of cbs w] assms(7) obtain c1 where
    c1: "foldE (conn_step k cbs) before (w, post ShutdownTask ?d) = Inr (w, c1)" "conn_inv n c1"
    "conn_state c1 = kDisconnecting" "posted c1 = posted (post ShutdownTask ?d)"
    "write_shut (sock c1) = write_shut (sock (post ShutdownTask ?d))" by blast
  let ?c2 = "c1\<lparr>posted := []\<rparr>"
  have c2: "conn_inv n ?c2" "conn_state ?c2 = kDisconnecting" using c1 by simp_all
  note u = shutdown_task_pending [OF c2, of k]
  from draining_run [OF assms(1) u(1,2) assms(5), of cbs w] u(3) obtain c' where
    c': "foldE (conn_step k cbs) evs (w, shutdown_task k ?c2) = Inr (w, c')" "conn_state c' = kDisconnecting"
    "write_shut (sock c') = write_shut (sock (shutdown_task k ?c2))" by auto
  have "foldE (conn_step k cbs) (RunPosted # evs) (w, c1) = Inr (w, c')"
    using c1(4) d(3) c'(1) by (simp add: post_def)
  with c1 c' u(4) p(1) show "\<exists>c1 c'. foldE (conn_step k cbs) before (w, shutdown k False c) = Inr (w, c1) \<and>
      foldE (conn_step k cbs) (RunPosted # evs) (w, c1) = Inr (w, c') \<and>
      conn_state c' = kDisconnecting \<and> write_shut (sock c') =
        (write_shut (sock c) \<or> contents (output_buffer c1) = [] \<and> k_shutdown k (calls (sock c1)))"
    by (auto simp: post_def set_state_def)
qed

theorem pending_shutdown_lost_witness:
  "let c = open_connection ''hello''; cbs = answering [];
       evs = [Dispatch EPOLLOUT (ReadErr 11), Dispatch EPOLLOUT (ReadErr 11), RunPosted, Shutdown True]
   in (\<exists>c'. foldE (conn_step slow_kernel cbs) evs (0, shutdown slow_kernel True c) = Inr (0, c') \<and>
          conn_state c' = kDisconnecting \<and>
          write_shut (sock c') = (write_shut (sock c) \<or> contents (output_buffer c) = [] \<and>
            k_shutdown slow_kernel (calls (sock c)))) \<and>
      (\<exists>c1 c'. foldE (conn_step slow_kernel cbs) [Dispatch EPOLLOUT (ReadErr 11)]
            (0, shutdown slow_kernel False c) = Inr (0, c1) \<and>
          foldE (conn_step slow_kernel cbs) (RunPosted # evs) (0, c1) = Inr (0, c') \<and>
          conn_state c' = kDisconnecting \<and>
          write_shut (sock c') = (write_shut (sock c) \<or> contents (output_buffer c1) = [] \<and>
            k_shutdown slow_kernel (calls (sock c1))))"
proof -
  have inv: "conn_inv 0 (open_connection ''hello'')"
    by (rule open_connection) (simp add: max_string_size_def)
  show ?thesis
    unfolding Let_def
    by (rule pending_shutdown_lost [OF slow_kernel_ok inv]) (simp_all add: draining_def)
qed

text \<open>A read event that finds the end of the stream, or an error.\<close>

lemma closing_read:
  assumes "kernel_ok k" and "conn_inv n c" and "conn_state c = kConnected \<or> conn_state c = kDisconnecting"
    and "answer = ReadOk [] \<or> (\<exists>e. answer = ReadErr e \<and> e \<noteq> EAGAIN)"
  shows "\<exists>c2. conn_state c2 = kDisconnected \<and> \<not> in_interest_list (channel c2) \<and>
      stream c2 = stream c \<and> in_buffer c2 = in_buffer c \<and> conn_loop c2 = conn_loop c \<and> posted c2 = posted c \<and>
      handle_read k cbs True answer (w, c) =
        bindE (run_callback (connection_cb cbs) (w, c2)) (run_callback (close_cb cbs))"
proof -
  let ?d = "c\<lparr>conn_state := kDisconnecting\<rparr>"
  have inv: "conn_inv n ?d" using assms(2,3) by (auto simp: conn_inv_def)
  note open_d = open_writing [OF inv, simplified]
  have read: "read_fd (ReadOk []) (in_buffer c) = Inr ((0, None), in_buffer c)"
    using assms(2) by (intro read_end_of_stream) (simp add: conn_inv_def)
  have "\<exists>c2. conn_state c2 = kDisconnected \<and> \<not> in_interest_list (channel c2) \<and>
      stream c2 = stream c \<and> in_buffer c2 = in_buffer c \<and> conn_loop c2 = conn_loop c \<and> posted c2 = posted c \<and>
      handle_close k cbs True (w, ?d) =
        bindE (run_callback (connection_cb cbs) (w, c2)) (run_callback (close_cb cbs))"
    using open_d
    by (intro exI [of _ "c\<lparr>conn_state := kDisconnected, channel := (channel c)
          \<lparr>events := 0, in_interest_list := False\<rparr>, sock := (sock c)\<lparr>calls := Suc (calls (sock c))\<rparr>\<rparr>"])
      (simp add: handle_close_def Let_def set_state_def has_none_events_def
        on_channel_eq [OF assms(1)] stream_def)
  moreover have "handle_read k cbs True answer (w, c) = handle_close k cbs True (w, ?d)"
    using assms(3,4) read
    by (auto simp: handle_read_def set_state_def handle_error_def force_close_def
        force_close_task_def read_fd_def)
  ultimately show ?thesis by simp
qed

text \<open>C26: Reading the end of the stream closes an open connection: it leaves the epoll instance,
  becomes disconnected, and only then the connection callback and after it the close callback are
  called, each once. An error of \<open>readv\<close> does the same, but \<open>EAGAIN\<close> changes nothing.\<close>

theorem end_of_stream_closes:
  assumes "kernel_ok k" and "conn_inv n c" and "conn_state c = kConnected \<or> conn_state c = kDisconnecting"
    and "answer = ReadOk [] \<or> (\<exists>e. answer = ReadErr e \<and> e \<noteq> EAGAIN)"
  shows "(\<exists>c2. conn_state c2 = kDisconnected \<and> \<not> in_interest_list (channel c2) \<and>
            stream c2 = stream c \<and> in_buffer c2 = in_buffer c \<and>
            handle_read k cbs True answer (w, c) =
              bindE (run_callback (connection_cb cbs) (w, c2)) (run_callback (close_cb cbs))) \<and>
         handle_read k cbs True (ReadErr EAGAIN) (w, c) = Inr (w, c)"
  using closing_read [OF assms, of cbs w] by (auto simp: handle_read_def read_fd_def)

theorem end_of_stream_closes_witness:
  "(\<exists>c2. conn_state c2 = kDisconnected \<and> \<not> in_interest_list (channel c2) \<and>
      stream c2 = stream (open_connection ''x'') \<and> in_buffer c2 = in_buffer (open_connection ''x'') \<and>
      handle_read slow_kernel (answering []) True (ReadOk []) (0, open_connection ''x'') =
        bindE (run_callback (connection_cb (answering [])) (0, c2)) (run_callback (close_cb (answering [])))) \<and>
   handle_read slow_kernel (answering []) True (ReadErr EAGAIN) (0, open_connection ''x'')
     = Inr (0, open_connection ''x'')"
  by (rule end_of_stream_closes [OF slow_kernel_ok, where n = 0])
    (simp_all add: open_connection max_string_size_def)

text \<open>C25: A closed connection stays closed: whatever tasks are still posted for it, whatever calls
  of \<open>send\<close>, \<open>shutdown\<close> and \<open>force_close\<close> follow, and whatever \<open>epoll_wait\<close> reports for
  registered channels, no callback is called again, \<open>write\<close> takes over no more bytes for the peer,
  those still pending at the close included, and the destructor's assertion that the channel has
  left the epoll instance holds. The closed channel is not registered, so nothing is reported for
  it; a report made before the close and handled after it is the subject of \<open>Stale_Report\<close>.\<close>

theorem closed_is_final:
  assumes "conn_wf n c" and "conn_state c = kDisconnected"
  shows "\<exists>c'. foldE (conn_step k cbs) evs (w, c) = Inr (w, c') \<and> conn_state c' = kDisconnected \<and>
           stream c' = stream c \<and> wrote (sock c') = wrote (sock c) \<and>
           connection_dtor k True c' = Inr ((sock c')\<lparr>fd_closed := True\<rparr>)"
proof -
  from closed_run [OF closed_for_good [OF assms], of k cbs evs w] show ?thesis
    by (fastforce simp: closed_for_good_def connection_dtor_def channel_dtor_iff Let_def)
qed

theorem closed_is_final_witness:
  "let c = (open_connection ''x'')\<lparr>conn_state := kDisconnected, channel := new_channel 1 5,
             posted := [SendTask ''y'', ForceCloseTask, DestroyTask]\<rparr> in
   \<exists>c'. foldE (conn_step slow_kernel (answering []))
          [RunPosted, RunPosted, RunPosted, Send True ''z'', ForceClose False, Dispatch EPOLLIN (ReadOk [])]
          (7, c) = Inr (7, c') \<and> conn_state c' = kDisconnected \<and> stream c' = stream c \<and> wrote (sock c') = wrote (sock c) \<and>
        connection_dtor slow_kernel True c' = Inr ((sock c')\<lparr>fd_closed := True\<rparr>)"
  unfolding Let_def
proof (rule closed_is_final [where n = 0])
  show "conn_wf 0 ((open_connection ''x'')\<lparr>conn_state := kDisconnected, channel := new_channel 1 5,
             posted := [SendTask ''y'', ForceCloseTask, DestroyTask]\<rparr>)"
    by (simp add: conn_wf_def conn_inv_def posted_bytes_def buffer_holding new_channel_def
        max_string_size_def)
qed simp

end
