(* ===== verification/Acceptor.thy ===== *)
theory Acceptor
  imports Epoller Inet_Address
begin

text \<open>
  The listening socket: \<open>wuduo/acceptor.h\<close> and \<open>wuduo/acceptor.cpp\<close>. What the socket calls
  answer are arguments; their failures are logged and nothing else. The answers of \<open>accept4\<close> to
  one readable event are a list; the loop ends at the first error.
\<close>

section \<open>The acceptor\<close>

record acceptor =
  acceptfd :: int
  listening :: bool
  accept_channel :: channel
  accept_local :: sockaddr_in
  bound :: "sockaddr_in option"

text \<open>\<open>create_socket\<close> returns the answer of \<open>socket\<close>, -1 included.\<close>

definition create_socket :: "int \<Rightarrow> int" where
  "create_socket socket_fd = socket_fd"

text \<open>\<open>bind_ok\<close> says whether \<open>bind\<close> succeeds.\<close>

definition acceptor_ctor :: "nat \<Rightarrow> int \<Rightarrow> bool \<Rightarrow> sockaddr_in \<Rightarrow> acceptor" where
  "acceptor_ctor loop socket_fd bind_ok local =
     (let fd = create_socket socket_fd in
      \<lparr>acceptfd = fd, listening = False, accept_channel = new_channel loop fd, accept_local = local,
       bound = (if bind_ok then Some local else None)\<rparr>)"

definition acceptor_listen :: "bool \<Rightarrow> bool \<Rightarrow> acceptor \<Rightarrow> acceptor result" where
  "acceptor_listen here ctl_ok a =
     bindE (assertE here) (\<lambda>_.
     bindE (assertE (\<not> listening a)) (\<lambda>_.
     let a1 = a\<lparr>listening := True\<rparr> in
     bindE (enable_reading here ctl_ok (accept_channel a1)) (\<lambda>ch.
     Inr (a1\<lparr>accept_channel := ch\<rparr>))))"

text \<open>The destructor closes the descriptor; then the members are destroyed, the channel among them.\<close>

definition acceptor_dtor :: "bool \<Rightarrow> bool \<Rightarrow> acceptor \<Rightarrow> unit result" where
  "acceptor_dtor here ctl_ok a = channel_dtor here ctl_ok (accept_channel a)"

lemma listening_acceptor_dtor_aborts:
  "acceptor_listen True True a = Inr a' \<Longrightarrow> acceptor_dtor True ctl_ok a' = Inl AssertFailure"
  by (auto simp: acceptor_listen_def acceptor_dtor_def channel_dtor_iff enable_reading_eq bindE_assertE
      split: if_splits)

datatype accept_result = Accepted int sockaddr_in | AcceptErr int

text \<open>The program's state is \<open>'s\<close>; the second component of the result are the descriptors closed
  because no callback is set, the first says whether the loop has ended.\<close>

fun accept_loop ::
    "(int \<Rightarrow> sockaddr_in \<Rightarrow> 's \<Rightarrow> 's result) option \<Rightarrow> accept_result list \<Rightarrow> 's
      \<Rightarrow> (bool \<times> int list \<times> 's) result" where
  "accept_loop cb [] s = Inr (False, [], s)"
| "accept_loop cb (AcceptErr saved_errno # rs) s = Inr (True, [], s)"
| "accept_loop cb (Accepted connect_fd peer # rs) s =
     (case cb of
        Some f \<Rightarrow> bindE (f connect_fd peer s) (accept_loop cb rs)
      | None \<Rightarrow>
          bindE (accept_loop cb rs s) (\<lambda>(ended, closed, s'). Inr (ended, connect_fd # closed, s')))"

definition on_incoming_connection ::
    "bool \<Rightarrow> (int \<Rightarrow> sockaddr_in \<Rightarrow> 's \<Rightarrow> 's result) option \<Rightarrow> accept_result list \<Rightarrow> 's
      \<Rightarrow> (bool \<times> int list \<times> 's) result" where
  "on_incoming_connection here cb answers s =
     bindE (assertE here) (\<lambda>_. accept_loop cb answers s)"

section \<open>Lemmas\<close>

text \<open>The connections accepted before the first error.\<close>

fun accepted_before_error :: "accept_result list \<Rightarrow> (int \<times> sockaddr_in) list" where
  "accepted_before_error (Accepted fd peer # rs) = (fd, peer) # accepted_before_error rs"
| "accepted_before_error _ = []"

lemma accept_loop_no_callback:
  "\<exists>ended. accept_loop None rs s = Inr (ended, map fst (accepted_before_error rs), s)"
proof (induction rs)
  case Nil
  show ?case by (intro exI [of _ False]) simp
next
  case (Cons r rs)
  then show ?case by (cases r) auto
qed

lemma accept_loop_callback:
  "map_sum id (\<lambda>(ended, closed, s). (closed, s)) (accept_loop (Some f) rs s) =
   map_sum id (Pair []) (foldE (\<lambda>(fd, peer). f fd peer) (accepted_before_error rs) s)"
proof (induction rs arbitrary: s)
  case Nil
  then show ?case by simp
next
  case (Cons r rs)
  then show ?case by (cases r) (auto simp: bindE_def split: sum.splits)
qed

lemma accept_loop_ends:
  "AcceptErr e \<in> set rs \<Longrightarrow> accept_loop cb rs s = Inr (ended, closed, s') \<Longrightarrow> ended"
proof (induction rs arbitrary: s closed)
  case Nil
  then show ?case by simp
next
  case (Cons r rs)
  then show ?case by (cases r; cases cb) (auto simp: bindE_eq_Inr)
qed

section \<open>Properties\<close>

text \<open>C33: One readable event of the listening socket drains it: every connection that \<open>accept4\<close>
  returns before its first error is given to the new-connection callback, once and in order, and
  without a callback its descriptor is closed; the loop ends at the first error of any kind.\<close>

theorem every_connection_handed_on:
  assumes "on_incoming_connection here (Some f) answers s = Inr (ended, closed, s')"
  shows "here \<and> closed = [] \<and>
     foldE (\<lambda>(fd, peer). f fd peer) (accepted_before_error answers) s = Inr s' \<and>
     (\<forall>e. AcceptErr e \<in> set answers \<longrightarrow> ended) \<and>
     (\<exists>ended'. on_incoming_connection here None answers t =
        Inr (ended', map fst (accepted_before_error answers), t))"
proof -
  from assms have here and run: "accept_loop (Some f) answers s = Inr (ended, closed, s')"
    by (auto simp: on_incoming_connection_def bindE_assertE split: if_splits)
  have "map_sum id (Pair []) (foldE (\<lambda>(fd, peer). f fd peer) (accepted_before_error answers) s) =
      Inr (closed, s')"
    using accept_loop_callback [of f answers s] by (simp add: run)
  then have "closed = []" "foldE (\<lambda>(fd, peer). f fd peer) (accepted_before_error answers) s = Inr s'"
    by (cases "foldE (\<lambda>(fd, peer). f fd peer) (accepted_before_error answers) s"; simp)+
  with \<open>here\<close> accept_loop_ends [OF _ run] accept_loop_no_callback [of answers t] show ?thesis
    by (auto simp: on_incoming_connection_def bindE_assertE)
qed

theorem every_connection_handed_on_witness:
  "let f = (\<lambda>fd peer fds. Inr (fds @ [fd]));
       answers = [Accepted 7 zero_sockaddr, Accepted 8 zero_sockaddr, AcceptErr 11, Accepted 9 zero_sockaddr] in
   True \<and> [] = ([] :: int list) \<and>
   foldE (\<lambda>(fd, peer). f fd peer) (accepted_before_error answers) [] = Inr [7, 8] \<and>
   (\<forall>e. AcceptErr e \<in> set answers \<longrightarrow> True) \<and>
   (\<exists>ended'. on_incoming_connection True None answers () =
      Inr (ended', map fst (accepted_before_error answers), ()))"
  unfolding Let_def
  by (rule every_connection_handed_on [where s = "[]"]) (simp add: on_incoming_connection_def)

end
