(* ===== verification/Thread_Pool.thy ===== *)
theory Thread_Pool
  imports Prelude
begin

text \<open>
  The loop threads: \<open>wuduo/event_loop_thread.h\<close>, \<open>wuduo/event_loop_thread.cpp\<close>,
  \<open>wuduo/event_loop_thread_pool.h\<close> and \<open>wuduo/event_loop_thread_pool.cpp\<close>. A loop is known
  by a number; the loop that the \<open>i\<close>-th thread constructs on its stack is an argument.
\<close>

section \<open>One thread\<close>

text \<open>\<open>loop_ptr\<close> is the member \<open>loop_\<close>, \<open>thread\<close> says whether the \<open>std::thread\<close> exists and is
  joinable.\<close>

record event_loop_thread =
  loop_ptr :: "nat option"
  thread_started :: bool
  exiting :: bool
  thread_joinable :: "bool option"

definition new_event_loop_thread :: event_loop_thread where
  "new_event_loop_thread =
     \<lparr>loop_ptr = None, thread_started = False, exiting = False, thread_joinable = None\<rparr>"

text \<open>The thread's body hands the address of its loop to the promise, from which \<open>start\<close>
  returns it.\<close>

definition thread_start :: "nat \<Rightarrow> event_loop_thread \<Rightarrow> (nat \<times> event_loop_thread) result" where
  "thread_start loop t =
     bindE (assertE (\<not> thread_started t)) (\<lambda>_.
     Inr (loop, t\<lparr>thread_started := True, thread_joinable := Some True\<rparr>))"

text \<open>What the thread's body does when its loop has returned.\<close>

definition thread_body_ends :: "event_loop_thread \<Rightarrow> event_loop_thread" where
  "thread_body_ends t = t\<lparr>loop_ptr := None\<rparr>"

text \<open>The destructor: its body, then \<open>~unique_ptr<std::thread>\<close>, which ends the process if the
  thread still is joinable. The result is the loop that was told to quit, if one was.\<close>

definition thread_dtor :: "event_loop_thread \<Rightarrow> nat option result" where
  "thread_dtor t =
     (let t1 = t\<lparr>exiting := True\<rparr>;
          told = (if loop_ptr t1 \<noteq> None \<and> thread_joinable t1 \<noteq> None then loop_ptr t1 else None);
          t2 = (if told \<noteq> None then t1\<lparr>thread_joinable := Some False\<rparr> else t1)
      in if thread_joinable t2 = Some True then Inl Terminate else Inr told)"

section \<open>The pool\<close>

record loop_pool =
  base_loop :: nat
  num_threads :: int
  started :: bool
  next_index :: int
  worker_threads :: "event_loop_thread list"
  workers :: "nat list"

definition pool_ctor :: "nat \<Rightarrow> int \<Rightarrow> loop_pool result" where
  "pool_ctor base n =
     bindE (assertE (n \<ge> 0)) (\<lambda>_.
     Inr \<lparr>base_loop = base, num_threads = n, started = False, next_index = 0,
          worker_threads = [], workers = []\<rparr>)"

definition pool_start_one :: "(nat \<Rightarrow> nat) \<Rightarrow> nat \<Rightarrow> loop_pool \<Rightarrow> loop_pool result" where
  "pool_start_one new_loop i p =
     (let threads = worker_threads p @ [new_event_loop_thread] in
      bindE (thread_start (new_loop i) (threads ! i)) (\<lambda>(loop, t).
      Inr (p\<lparr>worker_threads := threads[i := t], workers := workers p @ [loop]\<rparr>)))"

definition pool_start :: "bool \<Rightarrow> (nat \<Rightarrow> nat) \<Rightarrow> loop_pool \<Rightarrow> loop_pool result" where
  "pool_start in_loop new_loop p =
     bindE (assertE in_loop) (\<lambda>_.
     foldE (pool_start_one new_loop) [0..<nat (num_threads p)] (p\<lparr>started := True\<rparr>))"

definition next_loop :: "bool \<Rightarrow> loop_pool \<Rightarrow> (nat \<times> loop_pool) result" where
  "next_loop in_loop p =
     bindE (assertE in_loop) (\<lambda>_.
     bindE (assertE (started p)) (\<lambda>_.
     if workers p = [] then Inr (base_loop p, p)
     else let loop_index = next_index p;
              p' = p\<lparr>next_index := (next_index p + 1) mod num_threads p\<rparr>
          in if 0 \<le> loop_index \<and> nat loop_index < length (workers p)
             then Inr (workers p ! nat loop_index, p')
             else Inl OutOfBounds))"

text \<open>The destructor of the pool is that of its members: the threads are destroyed.\<close>

definition pool_dtor :: "loop_pool \<Rightarrow> unit result" where
  "pool_dtor p = foldE (\<lambda>t _. bindE (thread_dtor t) (\<lambda>told. Inr ())) (worker_threads p) ()"

fun next_loops :: "nat \<Rightarrow> loop_pool \<Rightarrow> (nat list \<times> loop_pool) result" where
  "next_loops 0 p = Inr ([], p)"
| "next_loops (Suc k) p =
     bindE (next_loop True p) (\<lambda>(l, p').
     bindE (next_loops k p') (\<lambda>(ls, p''). Inr (l # ls, p'')))"

section \<open>Invariant\<close>

definition wf_pool :: "loop_pool \<Rightarrow> bool" where
  "wf_pool p \<longleftrightarrow> started p \<and> int (length (workers p)) = num_threads p
     \<and> 0 \<le> next_index p \<and> (num_threads p = 0 \<longrightarrow> next_index p = 0)
     \<and> (0 < num_threads p \<longrightarrow> next_index p < num_threads p)"

text \<open>The loops the pool may hand out.\<close>

definition pool_loops :: "loop_pool \<Rightarrow> nat set" where
  "pool_loops p = (if workers p = [] then {base_loop p} else set (workers p))"

lemma start_ones:
  "length (worker_threads p) = i \<Longrightarrow>
   \<exists>ts. length ts = k \<and> (\<forall>t \<in> set ts. thread_joinable t = Some True \<and> loop_ptr t = None) \<and>
     foldE (pool_start_one new_loop) [i..<i + k] p =
       Inr (p\<lparr>worker_threads := worker_threads p @ ts, workers := workers p @ map new_loop [i..<i + k]\<rparr>)"
proof (induction k arbitrary: i p)
  case 0
  then show ?case by simp
next
  case (Suc k)
  let ?t = "new_event_loop_thread\<lparr>thread_started := True, thread_joinable := Some True\<rparr>"
  let ?p1 = "p\<lparr>worker_threads := worker_threads p @ [?t], workers := workers p @ [new_loop i]\<rparr>"
  have step: "pool_start_one new_loop i p = Inr ?p1"
    using Suc.prems
    by (simp add: pool_start_one_def thread_start_def new_event_loop_thread_def nth_append
        list_update_append)
  have "length (worker_threads ?p1) = Suc i" using Suc.prems by simp
  from Suc.IH [OF this] obtain ts where ts: "length ts = k"
    "\<forall>t \<in> set ts. thread_joinable t = Some True \<and> loop_ptr t = None"
    "foldE (pool_start_one new_loop) [Suc i..<Suc i + k] ?p1 =
       Inr (?p1\<lparr>worker_threads := worker_threads ?p1 @ ts,
               workers := workers ?p1 @ map new_loop [Suc i..<Suc i + k]\<rparr>)" by blast
  show ?case
  proof (intro exI [of _ "?t # ts"] conjI)
    show "foldE (pool_start_one new_loop) [i..<i + Suc k] p =
       Inr (p\<lparr>worker_threads := worker_threads p @ ?t # ts,
             workers := workers p @ map new_loop [i..<i + Suc k]\<rparr>)"
    proof -
      have upt: "[i..<i + Suc k] = i # [Suc i..<Suc i + k]"
        by (simp add: upt_conv_Cons del: upt_Suc)
      show ?thesis
        unfolding upt using ts(3) step by (simp del: upt_Suc)
    qed
  qed (use ts in \<open>auto simp: new_event_loop_thread_def\<close>)
qed

lemma pool_start_spec:
  assumes "pool_ctor base n = Inr p0"
  shows "\<exists>p. pool_start True new_loop p0 = Inr p \<and> wf_pool p \<and> base_loop p = base \<and>
           num_threads p = n \<and> next_index p = 0 \<and> workers p = map new_loop [0..<nat n] \<and>
           length (worker_threads p) = nat n \<and>
           (\<forall>t \<in> set (worker_threads p). thread_joinable t = Some True \<and> loop_ptr t = None)"
proof -
  have n: "0 \<le> n" and p0: "p0 = \<lparr>base_loop = base, num_threads = n, started = False,
      next_index = 0, worker_threads = [], workers = []\<rparr>"
    using assms by (auto simp: pool_ctor_def bindE_assertE split: if_splits)
  have "length (worker_threads (p0\<lparr>started := True\<rparr>)) = 0" by (simp add: p0)
  from start_ones [OF this, of "nat n" new_loop] n show ?thesis
    by (auto simp: pool_start_def wf_pool_def p0)
qed

lemma pool_dtor_terminates:
  assumes "worker_threads p \<noteq> []"
    and "\<forall>t \<in> set (worker_threads p). thread_joinable t = Some True \<and> loop_ptr t = None"
  shows "pool_dtor p = Inl Terminate"
  using assms by (cases "worker_threads p") (simp_all add: pool_dtor_def thread_dtor_def Let_def)

lemma next_loop_spec:
  assumes "wf_pool p"
  shows "\<exists>l p'. next_loop True p = Inr (l, p') \<and> wf_pool p' \<and> l \<in> pool_loops p \<and>
           p' = p\<lparr>next_index := next_index p'\<rparr> \<and>
           (0 < num_threads p \<longrightarrow> l = workers p ! nat (next_index p) \<and>
              next_index p' = (next_index p + 1) mod num_threads p) \<and>
           (num_threads p = 0 \<longrightarrow> l = base_loop p \<and> p' = p)"
proof (cases "workers p = []")
  case True
  with assms show ?thesis by (simp add: next_loop_def wf_pool_def pool_loops_def)
next
  case False
  moreover have "int (length (workers p)) = num_threads p"
    using assms by (simp add: wf_pool_def)
  ultimately have "0 < num_threads p" by (metis length_greater_0_conv of_nat_0_less_iff)
  moreover from this have "nat (next_index p) < length (workers p)" "0 \<le> next_index p"
    using assms by (auto simp: wf_pool_def)
  ultimately show ?thesis
    using assms False by (simp add: next_loop_def wf_pool_def pool_loops_def Let_def)
qed

section \<open>The contract of a loop picker\<close>

text \<open>What \<open>TcpServer\<close> relies on when it assigns a connection: it always gets a loop, and one
  of a fixed set.\<close>

locale loop_picker =
  fixes inv :: "'p \<Rightarrow> bool"
    and loops :: "'p \<Rightarrow> nat set"
    and pick :: "'p \<Rightarrow> (nat \<times> 'p) result"
  assumes pick: "inv p \<Longrightarrow> \<exists>l p'. pick p = Inr (l, p') \<and> inv p' \<and> l \<in> loops p \<and> loops p' = loops p"
begin

lemma pick_seq:
  "inv p \<Longrightarrow> \<exists>ls p'. length ls = k \<and> set ls \<subseteq> loops p \<and> inv p' \<and> loops p' = loops p \<and>
     foldE (\<lambda>_ (ls, p). bindE (pick p) (\<lambda>(l, p'). Inr (ls @ [l], p'))) [0..<k] ([], p) = Inr (ls, p')"
proof (induction k)
  case 0
  then show ?case by simp
next
  case (Suc k)
  then obtain ls p1 where "length ls = k" "set ls \<subseteq> loops p" "inv p1" "loops p1 = loops p"
    "foldE (\<lambda>_ (ls, p). bindE (pick p) (\<lambda>(l, p'). Inr (ls @ [l], p'))) [0..<k] ([], p) = Inr (ls, p1)"
    by blast
  moreover from pick [OF this(3)] obtain l p2 where
    "pick p1 = Inr (l, p2)" "inv p2" "l \<in> loops p1" "loops p2 = loops p1" by blast
  ultimately show ?case
    by (intro exI [of _ "ls @ [l]"] exI [of _ p2]) (auto simp: foldE_append)
qed

end

interpretation pool: loop_picker wf_pool pool_loops "next_loop True"
proof unfold_locales
  fix p assume "wf_pool p"
  from next_loop_spec [OF this] show "\<exists>l p'. next_loop True p = Inr (l, p') \<and> wf_pool p'
      \<and> l \<in> pool_loops p \<and> pool_loops p' = pool_loops p"
    by (metis (no_types, lifting) loop_pool.ext_inject loop_pool.surjective
        loop_pool.update_convs(4) pool_loops_def)
qed

section \<open>Properties\<close>

lemma next_loops_round_robin:
  assumes "wf_pool p" and "0 < num_threads p" and "int j = next_index p"
  shows "\<exists>p'. next_loops k p =
     Inr (map (\<lambda>i. workers p ! (i mod length (workers p))) [j..<j + k], p')"
  using assms
proof (induction k arbitrary: p j)
  case 0
  then show ?case by simp
next
  case (Suc k)
  let ?n = "length (workers p)"
  from next_loop_spec [OF Suc.prems(1)] Suc.prems(2) obtain p1 where
    p1: "next_loop True p = Inr (workers p ! j, p1)" "wf_pool p1"
      "p1 = p\<lparr>next_index := next_index p1\<rparr>" "next_index p1 = (int j + 1) mod num_threads p"
    using Suc.prems(3) by (metis nat_int)
  have n: "int ?n = num_threads p" using Suc.prems(1) by (simp add: wf_pool_def)
  have j: "j < ?n" using Suc.prems n by (simp add: wf_pool_def)
  have same: "workers p1 = workers p" "num_threads p1 = num_threads p"
    by (subst p1(3), simp)+
  have "int (Suc j mod ?n) = next_index p1"
    using p1(4) n by (simp add: zmod_int add.commute)
  from Suc.IH [OF p1(2) _ this] Suc.prems(2) same obtain p' where
    "next_loops k p1 = Inr (map (\<lambda>i. workers p ! (i mod ?n)) [Suc j mod ?n..<Suc j mod ?n + k], p')"
    by auto
  moreover have "map (\<lambda>i. workers p ! (i mod ?n)) [Suc j mod ?n..<Suc j mod ?n + k]
      = map (\<lambda>i. workers p ! (i mod ?n)) [Suc j..<Suc j + k]"
    by (rule nth_equalityI) (simp_all add: mod_Suc_eq mod_add_left_eq del: upt_Suc)
  ultimately show ?case
    using p1(1) j by (simp add: upt_conv_Cons del: upt_Suc)
qed

text \<open>C32: A pool of \<open>n\<close> threads that has been started hands out its loops in turn, the \<open>i\<close>-th
  call getting loop \<open>i mod n\<close>, and never reads outside the vector of loops; with no threads
  it hands out the base loop.\<close>

theorem pool_round_robin:
  assumes "pool_ctor base n = Inr p0"
  shows "\<exists>p p'. pool_start True new_loop p0 = Inr p \<and>
     (if n = 0 then next_loops k p = Inr (replicate k base, p)
      else next_loops k p = Inr (map (\<lambda>i. new_loop (i mod nat n)) [0..<k], p'))"
proof -
  obtain p where p: "pool_start True new_loop p0 = Inr p" "wf_pool p" "base_loop p = base"
    "num_threads p = n" "next_index p = 0" "workers p = map new_loop [0..<nat n]"
    using pool_start_spec [OF assms, of new_loop] by blast
  show ?thesis
  proof (cases "n = 0")
    case True
    have "next_loops k p = Inr (replicate k base, p)"
    proof (induction k)
      case (Suc k)
      from next_loop_spec [OF p(2)] True p(3,4) have "next_loop True p = Inr (base, p)" by auto
      with Suc show ?case by simp
    qed simp
    with True p(1) show ?thesis by simp
  next
    case False
    then have "0 < n" using p(2,4) by (auto simp: wf_pool_def)
    moreover from this have "map (\<lambda>i. workers p ! (i mod length (workers p))) [0..<k]
        = map (\<lambda>i. new_loop (i mod nat n)) [0..<k]"
      by (simp add: p(6))
    ultimately show ?thesis
      using next_loops_round_robin [OF p(2), of 0 k] p by auto
  qed
qed

theorem pool_round_robin_witness:
  "\<exists>p0 p p'. pool_ctor 0 4 = Inr p0 \<and> pool_start True (\<lambda>i. i + 10) p0 = Inr p \<and>
     next_loops 6 p = Inr ([10, 11, 12, 13, 10, 11], p')"
proof -
  obtain p0 where p0: "pool_ctor 0 4 = Inr p0" by (simp add: pool_ctor_def)
  from pool_round_robin [OF this, of "\<lambda>i. i + 10" 6] p0 show ?thesis
    by (auto simp: upt_conv_Cons)
qed

text \<open>Destroying a thread object after a successful \<open>start\<close> ends the process, whether its
  loop has returned or still runs: \<open>start\<close> never sets \<open>loop_\<close>, so the destructor neither
  stops the loop nor joins the thread.\<close>

theorem started_thread_dtor_terminates:
  assumes "thread_start loop new_event_loop_thread = Inr (l, t)"
  shows "l = loop \<and> thread_dtor t = Inl Terminate \<and> thread_dtor (thread_body_ends t) = Inl Terminate"
  using assms
  by (auto simp: thread_start_def bindE_assertE new_event_loop_thread_def thread_dtor_def
      thread_body_ends_def Let_def)

theorem started_thread_dtor_terminates_witness:
  "\<exists>t. thread_start 3 new_event_loop_thread = Inr (3, t) \<and>
     thread_dtor t = Inl Terminate \<and> thread_dtor (thread_body_ends t) = Inl Terminate"
proof -
  obtain t where t: "thread_start 3 new_event_loop_thread = Inr (3, t)"
    by (simp add: thread_start_def new_event_loop_thread_def)
  with started_thread_dtor_terminates [OF t] show ?thesis by blast
qed

end
