(* ===== verification/Tcp_Server.thy ===== *)
theory Tcp_Server
  imports Tcp_Connection Acceptor Thread_Pool
begin

text \<open>
  The server: \<open>wuduo/tcp_server.h\<close> and \<open>wuduo/tcp_server.cpp\<close>. Connections live at addresses;
  the set \<open>connections\<close> is the server's \<open>unordered_set\<close> of shared pointers, \<open>removals\<close> are the
  tasks that \<open>remove_connection\<close> queued in the server's own loop, and \<open>alive\<close> are the connection
  objects that exist. \<open>server_step\<close> runs the server and its connections one event after the other,
  in any order, so a statement about all sequences of events covers every interleaving of the
  server's loop, the loops of the connections and their other users.
\<close>

section \<open>Closing a connection\<close>

text \<open>What the connections share; \<open>'u\<close> is the state of the server's user.\<close>

record 'u shared =
  connections :: "nat set"
  removals :: "nat list"
  user_state :: 'u

text \<open>The task of \<open>remove_connection\<close>, up to queueing \<open>destroyed\<close> in the connection's loop.\<close>

definition erase_connection :: "nat \<Rightarrow> 'u shared \<Rightarrow> 'u shared result" where
  "erase_connection conn w =
     (let num_erased = (if conn \<in> connections w then 1 else 0 :: nat);
          w' = w\<lparr>connections := connections w - {conn}\<rparr>
      in bindE (assertE (num_erased = 1)) (\<lambda>_. Inr w'))"

definition remove_connection :: "bool \<Rightarrow> nat \<Rightarrow> ('u shared, 'x) callback" where
  "remove_connection here conn s =
     (if here
      then bindE (erase_connection conn (fst s)) (\<lambda>w. Inr (w, post DestroyTask (snd s)))
      else Inr ((fst s)\<lparr>removals := removals (fst s) @ [conn]\<rparr>, snd s))"

text \<open>The callbacks of the server's user may depend on the connection.\<close>

record ('u, 'x) user_callbacks =
  user_connection :: "nat \<Rightarrow> ('u shared, 'x) callback option"
  user_message :: "nat \<Rightarrow> ('u shared, 'x) callback option"

definition no_user_callbacks :: "('u, 'x) user_callbacks" where
  "no_user_callbacks = \<lparr>user_connection = (\<lambda>_. None), user_message = (\<lambda>_. None)\<rparr>"

definition server_set_connection_callback ::
    "(nat \<Rightarrow> ('u shared, 'x) callback) \<Rightarrow> ('u, 'x) user_callbacks \<Rightarrow> ('u, 'x) user_callbacks" where
  "server_set_connection_callback cb ucbs = ucbs\<lparr>user_connection := \<lambda>conn. Some (cb conn)\<rparr>"

definition server_set_message_callback ::
    "(nat \<Rightarrow> ('u shared, 'x) callback) \<Rightarrow> ('u, 'x) user_callbacks \<Rightarrow> ('u, 'x) user_callbacks" where
  "server_set_message_callback cb ucbs = ucbs\<lparr>user_message := \<lambda>conn. Some (cb conn)\<rparr>"

lemmas user_callback_defs [simp] = no_user_callbacks_def server_set_connection_callback_def
  server_set_message_callback_def

definition server_callbacks ::
    "nat \<Rightarrow> ('u, 'x) user_callbacks \<Rightarrow> nat \<Rightarrow> ('u shared, 'x) conn_callbacks" where
  "server_callbacks server_loop ucbs conn =
     set_conn_close_callback (Some (\<lambda>s. remove_connection (conn_loop (snd s) = server_loop) conn s))
       (set_message_callback (user_message ucbs conn)
         (set_connection_callback (user_connection ucbs conn) no_conn_callbacks))"

section \<open>The server\<close>

definition kNumThreads :: int where
  "kNumThreads = 4"

record ('u, 'x) server =
  server_loop :: nat
  server_local :: sockaddr_in
  server_acceptor :: acceptor
  server_pool :: loop_pool
  server_shared :: "'u shared"
  alive :: "nat \<Rightarrow> 'x connection option"
  orphans :: "nat \<Rightarrow> conn_task list"
  fresh :: nat
  start_posted :: bool

definition server_ctor ::
    "nat \<Rightarrow> int \<Rightarrow> bool \<Rightarrow> sockaddr_in \<Rightarrow> 'u \<Rightarrow> ('u, 'x) server result" where
  "server_ctor loop listen_fd bind_ok local u =
     bindE (pool_ctor loop kNumThreads) (\<lambda>p.
     Inr \<lparr>server_loop = loop, server_local = local,
          server_acceptor = acceptor_ctor loop listen_fd bind_ok local, server_pool = p,
          server_shared = \<lparr>connections = {}, removals = [], user_state = u\<rparr>,
          alive = Map.empty, orphans = (\<lambda>_. []), fresh = 0, start_posted = False\<rparr>)"

text \<open>\<open>new_loop i\<close> is the loop that the \<open>i\<close>-th worker thread makes.\<close>

definition start_task ::
    "(nat \<Rightarrow> nat) \<Rightarrow> bool \<Rightarrow> ('u, 'x) server \<Rightarrow> ('u, 'x) server result" where
  "start_task new_loop ctl_ok s =
     bindE (pool_start True new_loop (server_pool s)) (\<lambda>p.
     bindE (acceptor_listen True ctl_ok (server_acceptor s)) (\<lambda>a.
     Inr (s\<lparr>server_pool := p, server_acceptor := a\<rparr>)))"

definition server_start ::
    "(nat \<Rightarrow> nat) \<Rightarrow> bool \<Rightarrow> bool \<Rightarrow> ('u, 'x) server \<Rightarrow> ('u, 'x) server result" where
  "server_start new_loop ctl_ok here s =
     (if here then start_task new_loop ctl_ok s else Inr (s\<lparr>start_posted := True\<rparr>))"

definition server_new_connection ::
    "(nat \<Rightarrow> kernel) \<Rightarrow> ('u, 'x) user_callbacks \<Rightarrow> 'x \<Rightarrow> bool \<Rightarrow> int \<Rightarrow> sockaddr_in
      \<Rightarrow> ('u, 'x) server \<Rightarrow> ('u, 'x) server result" where
  "server_new_connection k ucbs no_context here connection_fd peer_address s =
     bindE (next_loop here (server_pool s)) (\<lambda>(io_loop, p).
     let conn = fresh s;
         c = tcp_connection_ctor io_loop connection_fd peer_address no_context;
         w = server_shared s
     in bindE (assertE (conn \<notin> connections w)) (\<lambda>_.
        let w1 = w\<lparr>connections := insert conn (connections w)\<rparr> in
        bindE (if io_loop = server_loop s
               then established (k conn) (server_callbacks (server_loop s) ucbs conn) True (w1, c)
               else Inr (w1, post EstablishTask c)) (\<lambda>(w2, c2).
        Inr (s\<lparr>server_pool := p, server_shared := w2, alive := (alive s)(conn \<mapsto> c2),
              fresh := Suc conn\<rparr>))))"

text \<open>The task runs in the server's loop, and \<open>destroyed\<close> is always queued in the connection's.\<close>

definition run_removal :: "('u, 'x) server \<Rightarrow> ('u, 'x) server result" where
  "run_removal s =
     (case removals (server_shared s) of
        [] \<Rightarrow> Inr s
      | conn # rest \<Rightarrow>
          bindE (erase_connection conn ((server_shared s)\<lparr>removals := rest\<rparr>)) (\<lambda>w.
          Inr (s\<lparr>server_shared := w,
                alive := (alive s)(conn := map_option (post DestroyTask) (alive s conn))\<rparr>)))"

text \<open>The last shared pointer to a connection goes away: the set, the queued removals and the
  tasks hold none any more. Only \<open>established\<close> and \<open>destroyed\<close> are queued with a shared pointer;
  the tasks of \<open>send\<close>, \<open>shutdown\<close> and \<open>force_close\<close> have captured \<open>this\<close>, and are left behind as
  \<open>orphans\<close> should the connection go away first.\<close>

fun owns_connection :: "conn_task \<Rightarrow> bool" where
  "owns_connection EstablishTask \<longleftrightarrow> True"
| "owns_connection DestroyTask \<longleftrightarrow> True"
| "owns_connection _ \<longleftrightarrow> False"

definition release :: "(nat \<Rightarrow> kernel) \<Rightarrow> nat \<Rightarrow> ('u, 'x) server \<Rightarrow> ('u, 'x) server result" where
  "release k conn s =
     (case alive s conn of
        None \<Rightarrow> Inr s
      | Some c \<Rightarrow>
          if conn \<in> connections (server_shared s) \<or> conn \<in> set (removals (server_shared s)) \<or>
             list_ex owns_connection (posted c)
          then Inr s
          else bindE (connection_dtor (k conn) True c) (\<lambda>_.
               Inr (s\<lparr>alive := (alive s)(conn := None), orphans := (orphans s)(conn := posted c)\<rparr>)))"

text \<open>The destructor. The members go in reverse order: the set of connections, whose shared pointers are
  the list \<open>conns\<close> in the order in which it is traversed, the pool of threads, the acceptor.\<close>

definition server_dtor :: "(nat \<Rightarrow> kernel) \<Rightarrow> nat list \<Rightarrow> bool \<Rightarrow> ('u, 'x) server \<Rightarrow> unit result" where
  "server_dtor k conns ctl_ok s =
     bindE (foldE (\<lambda>conn s. release k conn (s\<lparr>server_shared := (server_shared s)
         \<lparr>connections := connections (server_shared s) - {conn}\<rparr>\<rparr>)) conns s) (\<lambda>s1.
     bindE (pool_dtor (server_pool s1)) (\<lambda>_.
     acceptor_dtor True ctl_ok (server_acceptor s1)))"

section \<open>The server and its connections\<close>

datatype server_event =
  Incoming "accept_result list"
| OnConnection nat conn_event
| RunRemoval
| Release nat

fun server_step ::
    "(nat \<Rightarrow> kernel) \<Rightarrow> ('u, 'x) user_callbacks \<Rightarrow> 'x \<Rightarrow> server_event
      \<Rightarrow> ('u, 'x) server \<Rightarrow> ('u, 'x) server result" where
  "server_step k ucbs x0 (Incoming answers) s =
     bindE (on_incoming_connection True (Some (server_new_connection k ucbs x0 True)) answers s)
       (\<lambda>(ended, closed, s'). Inr s')"
| "server_step k ucbs x0 (OnConnection conn ev) s =
     (case alive s conn of
        None \<Rightarrow> if ev = RunPosted \<and> orphans s conn \<noteq> [] then Inl UseAfterFree else Inr s
      | Some c \<Rightarrow>
          bindE (conn_step (k conn) (server_callbacks (server_loop s) ucbs conn) ev (server_shared s, c))
            (\<lambda>(w, c'). Inr (s\<lparr>server_shared := w, alive := (alive s)(conn \<mapsto> c')\<rparr>)))"
| "server_step k ucbs x0 RunRemoval s = run_removal s"
| "server_step k ucbs x0 (Release conn) s = release k conn s"

section \<open>Reported channels\<close>

text \<open>What \<open>EventLoop::loop\<close> does with the channel of a connection that \<open>wait\<close> has reported, whether or not
  it is still registered by then. In \<open>server_step\<close> the event \<open>Dispatch\<close> stands for a report of the kernel
  together with its handling, which is why it does nothing for a channel that the kernel does not watch:
  the kernel reports none.\<close>

definition handle_report ::
    "(nat \<Rightarrow> kernel) \<Rightarrow> ('u, 'x) user_callbacks \<Rightarrow> nat \<Rightarrow> event_mask \<Rightarrow> read_result
      \<Rightarrow> ('u, 'x) server \<Rightarrow> ('u, 'x) server result" where
  "handle_report k ucbs conn e answer s =
     (case alive s conn of
        None \<Rightarrow> Inl UseAfterFree
      | Some c \<Rightarrow>
          bindE (handle_conn_events (k conn) (server_callbacks (server_loop s) ucbs conn) True answer
              (server_shared s, c\<lparr>channel := set_revents e (channel c)\<rparr>))
            (\<lambda>(w, c'). Inr (s\<lparr>server_shared := w, alive := (alive s)(conn \<mapsto> c')\<rparr>)))"

lemma fresh_report:
  "alive s conn = Some c \<Longrightarrow> in_interest_list (channel c) \<Longrightarrow>
   handle_report k ucbs conn e answer s = server_step k ucbs x0 (OnConnection conn (Dispatch e answer)) s"
  by (simp add: handle_report_def)

section \<open>A connection closes once\<close>

text \<open>Between two moments in the life of a connection of another loop than the server's, either
  nothing is queued for its removal and it is as closed as before, or it has closed and its
  removal has been queued, once; the set is only changed by the server's loop.\<close>

definition closes_once ::
    "nat \<Rightarrow> 'u shared \<times> 'x connection \<Rightarrow> 'u shared \<times> 'x connection \<Rightarrow> bool" where
  "closes_once conn s s' \<longleftrightarrow>
     connections (fst s') = connections (fst s) \<and> conn_loop (snd s') = conn_loop (snd s) \<and>
     (DestroyTask \<in> set (posted (snd s')) \<longrightarrow> DestroyTask \<in> set (posted (snd s))) \<and>
     (conn_state (snd s) = kDisconnected \<longrightarrow> conn_state (snd s') = kDisconnected) \<and>
     removals (fst s') = removals (fst s) @
       (if conn_state (snd s) \<noteq> kDisconnected \<and> conn_state (snd s') = kDisconnected then [conn] else [])"

definition keeps :: "('s \<Rightarrow> 's \<Rightarrow> bool) \<Rightarrow> 's \<Rightarrow> 's result \<Rightarrow> bool" where
  "keeps R s r \<longleftrightarrow> (\<forall>s'. r = Inr s' \<longrightarrow> R s s')"

lemma keeps_simps [simp]: "keeps R s (Inr s') \<longleftrightarrow> R s s'" "keeps R s (Inl e)"
  by (simp_all add: keeps_def)

lemma keeps_bind:
  assumes "keeps R s m" and "\<And>s1. R s s1 \<Longrightarrow> keeps R s1 (f s1)"
    and "\<And>a b c. R a b \<Longrightarrow> R b c \<Longrightarrow> R a c"
  shows "keeps R s (bindE m f)"
proof (cases m)
  case (Inr s1)
  with assms(1) have "R s s1" by simp
  with assms(2) [OF this] assms(3) [OF this] Inr show ?thesis by (simp add: keeps_def)
qed simp

lemma closes_once_refl [simp]: "closes_once conn s s"
  by (simp add: closes_once_def)

lemma closes_once_trans:
  assumes "closes_once conn a b" and "closes_once conn b c"
  shows "closes_once conn a c"
proof -
  consider "conn_state (snd a) = kDisconnected"
    | "conn_state (snd a) \<noteq> kDisconnected" "conn_state (snd b) = kDisconnected"
    | "conn_state (snd b) \<noteq> kDisconnected" by blast
  then show ?thesis
    by cases (use assms in \<open>simp_all add: closes_once_def\<close>)
qed

text \<open>What the operations that call no callback do not touch.\<close>

definition same_frame :: "'x connection \<Rightarrow> 'x connection \<Rightarrow> bool" where
  "same_frame c c' \<longleftrightarrow> conn_loop c' = conn_loop c \<and> conn_state c' = conn_state c \<and> posted c' = posted c"

lemma same_frame_closes_once: "same_frame c c' \<Longrightarrow> closes_once conn (w, c) (w, c')"
  by (simp add: same_frame_def closes_once_def)

lemma on_channel_frame [frame_intros]: "on_channel f k here c = Inr c' \<Longrightarrow> same_frame c c'"
  by (auto simp: on_channel_def bindE_eq_Inr same_frame_def)

lemma on_socket_frame [frame_intros]: "on_socket k d c = (r, c') \<Longrightarrow> same_frame c c'"
  by (auto simp: on_socket_def same_frame_def split: prod.splits)

lemma same_frame_trans: "same_frame a b \<Longrightarrow> same_frame b c \<Longrightarrow> same_frame a c"
  by (simp add: same_frame_def)

lemma same_frame_simps [simp]:
  "same_frame c c" "same_frame c (c\<lparr>output_buffer := b\<rparr>)" "same_frame c (c\<lparr>in_buffer := b\<rparr>)"
  "same_frame c (c\<lparr>channel := ch\<rparr>)" "same_frame c (c\<lparr>sock := s\<rparr>)"
  by (simp_all add: same_frame_def)

lemma send_in_loop_frame [frame_intros]: "send_in_loop k here d c = Inr c' \<Longrightarrow> same_frame c c'"
  by (auto simp: send_in_loop_def bindE_eq_Inr Let_def split: if_splits prod.splits write_result.splits
      dest!: frame_intros) (auto simp: same_frame_def)

lemma shutdown_quiet: "(if conn_state c = kDisconnecting then shutdown k here c else c) = c"
  by (simp add: shutdown_def)

lemma handle_write_frame [frame_intros]: "handle_write k here c = Inr c' \<Longrightarrow> same_frame c c'"
  unfolding handle_write_def shutdown_quiet
  by (auto simp: bindE_eq_Inr Let_def split: if_splits prod.splits write_result.splits
      dest!: frame_intros) (auto simp: same_frame_def)

section \<open>The server's user\<close>

text \<open>The contract of a user callback for the connection \<open>conn\<close>, which belongs to another loop
  than the server's: that of every callback, and that it closes the connection at most once and
  only by the connection's own operations.\<close>

definition good_user_callback ::
    "nat \<Rightarrow> nat \<Rightarrow> nat \<Rightarrow> ('u shared, 'x) callback option \<Rightarrow> bool" where
  "good_user_callback base cost conn cb \<longleftrightarrow>
     good_callback cost cb \<and>
     (\<forall>s. conn_loop (snd s) \<noteq> base \<longrightarrow> keeps (closes_once conn) s (run_callback cb s))"

definition good_user :: "nat \<Rightarrow> nat \<Rightarrow> ('u, 'x) user_callbacks \<Rightarrow> bool" where
  "good_user base cost ucbs \<longleftrightarrow>
     (\<forall>conn. good_user_callback base cost conn (user_connection ucbs conn) \<and>
             good_user_callback base cost conn (user_message ucbs conn))"

locale server_user =
  fixes k :: "nat \<Rightarrow> kernel"
    and base :: nat
    and ucbs :: "('u, 'x) user_callbacks"
    and cost :: nat
  assumes kernels: "kernel_ok (k conn)"
    and user: "good_user base cost ucbs"
begin

lemma user_once:
  "cb \<in> {user_connection ucbs conn, user_message ucbs conn} \<Longrightarrow> conn_loop (snd s) \<noteq> base \<Longrightarrow>
   keeps (closes_once conn) s (run_callback cb s)"
  using user by (cases s) (auto simp: good_user_def good_user_callback_def)

text \<open>The connection of a server is used by the server as \<open>connection_client\<close> asks.\<close>

lemma close_callback_advances:
  assumes "conn_inv (n + cost) c"
    and "run_callback (close_cb (server_callbacks base ucbs conn)) (w, c) = Inr (w', c')"
  shows "advances n c c' \<and> posts_nothing_else c c'"
proof -
  have inv: "conn_inv n c" using assms(1) by (rule conn_inv_mono) simp
  have "c' = c \<or> c' = post DestroyTask c"
    using assms(2) by (auto simp: server_callbacks_def run_callback_def call_if_set_def
        remove_connection_def bindE_eq_Inr split: if_splits)
  moreover have "posts_nothing_else c (post DestroyTask c)"
    by (auto simp: posts_nothing_else_def post_def intro: exI [of _ 1])
  ultimately show ?thesis
    using inv by (auto simp: advances_refl) (simp add: post_def advances_def stream_def)
qed

end

sublocale server_user \<subseteq> client: connection_client "k conn" "server_callbacks base ucbs conn" cost
  for conn
proof unfold_locales
  show "kernel_ok (k conn)" by (rule kernels)
  have "good_callback cost (close_cb (server_callbacks base ucbs conn))"
    using close_callback_advances by (auto simp: good_callback_def)
  then show "good_callbacks cost (server_callbacks base ucbs conn)"
    using user
    by (simp add: good_callbacks_def good_user_def good_user_callback_def server_callbacks_def)
qed

context server_user
begin

abbreviation cbs_of :: "nat \<Rightarrow> ('u shared, 'x) conn_callbacks" where
  "cbs_of conn \<equiv> server_callbacks base ucbs conn"

lemma callback_simps [simp]:
  "connection_cb (cbs_of conn) = user_connection ucbs conn"
  "message_cb (cbs_of conn) = user_message ucbs conn"
  by (simp_all add: server_callbacks_def)

lemma run_close_cb:
  "conn_loop c \<noteq> base \<Longrightarrow>
   run_callback (close_cb (cbs_of conn)) (w, c) = Inr (w\<lparr>removals := removals w @ [conn]\<rparr>, c)"
  by (simp add: server_callbacks_def run_callback_def call_if_set_def remove_connection_def)

lemma frame_then:
  "same_frame c c1 \<Longrightarrow> keeps (closes_once conn) (w, c1) r \<Longrightarrow> keeps (closes_once conn) (w, c) r"
  by (auto simp: keeps_def intro: closes_once_trans [OF same_frame_closes_once])

lemma handle_close_once:
  assumes "conn_loop c \<noteq> base"
  shows "keeps (closes_once conn) (w, c) (handle_close (k conn) (cbs_of conn) here (w, c))"
proof -
  have "closes_once conn (w, c) s'" if close: "handle_close (k conn) (cbs_of conn) here (w, c) = Inr s'" for s'
  proof -
    let ?c1 = "set_state kDisconnected c"
    from close obtain c2 s3 where
      st: "conn_state c = kConnected \<or> conn_state c = kDisconnecting" and
      c2: "(if \<not> has_none_events (channel ?c1) then on_channel disable_all (k conn) here ?c1 else Inr ?c1) = Inr c2" and
      s3: "run_callback (user_connection ucbs conn) (w, c2) = Inr s3" and
      s': "run_callback (close_cb (cbs_of conn)) s3 = Inr s'"
      by (auto simp: handle_close_def bindE_eq_Inr Let_def)
    have "same_frame ?c1 c2" using c2 on_channel_frame by (auto split: if_splits)
    then have f: "conn_state c2 = kDisconnected" "conn_loop c2 = conn_loop c" "posted c2 = posted c"
      by (simp_all add: same_frame_def set_state_def)
    have "keeps (closes_once conn) (w, c2) (run_callback (user_connection ucbs conn) (w, c2))"
      by (rule user_once) (use f(2) assms in auto)
    then have once: "closes_once conn (w, c2) s3" by (simp add: s3)
    obtain w3 c3 where s3_eq: "s3 = (w3, c3)" by (cases s3)
    have c3: "conn_loop c3 = conn_loop c" "conn_state c3 = kDisconnected"
      "removals w3 = removals w" "connections w3 = connections w"
      "DestroyTask \<in> set (posted c3) \<longrightarrow> DestroyTask \<in> set (posted c)"
      using once f unfolding closes_once_def s3_eq by simp_all
    have "s' = (w3\<lparr>removals := removals w3 @ [conn]\<rparr>, c3)"
      using s' run_close_cb [of c3 conn w3] c3(1) assms unfolding s3_eq by simp
    moreover have "conn_state c \<noteq> kDisconnected" using st by auto
    ultimately show ?thesis unfolding closes_once_def by (simp add: c3)
  qed
  then show ?thesis by (simp add: keeps_def)
qed

lemma disconnecting_once:
  "conn_state c \<noteq> kDisconnected \<Longrightarrow> closes_once conn (w, c) (w, set_state kDisconnecting c)"
  by (simp add: closes_once_def set_state_def)

lemma force_close_once:
  assumes "conn_loop c \<noteq> base"
  shows "keeps (closes_once conn) (w, c) (force_close (k conn) (cbs_of conn) here (w, c))"
    and "keeps (closes_once conn) (w, c) (force_close_task (k conn) (cbs_of conn) here (w, c))"
proof -
  have loop: "conn_loop (set_state kDisconnecting c) \<noteq> base" using assms by (simp add: set_state_def)
  show task: "keeps (closes_once conn) (w, c) (force_close_task (k conn) (cbs_of conn) here (w, c))"
    using handle_close_once [OF assms] by (simp add: force_close_task_def)
  show "keeps (closes_once conn) (w, c) (force_close (k conn) (cbs_of conn) here (w, c))"
  proof (cases "conn_state c = kConnected \<or> conn_state c = kDisconnecting")
    case False
    then show ?thesis by (simp add: force_close_def)
  next
    case True
    let ?d = "set_state kDisconnecting c"
    have first: "closes_once conn (w, c) (w, ?d)" by (rule disconnecting_once) (use True in auto)
    have inner: "keeps (closes_once conn) (w, ?d) (force_close_task (k conn) (cbs_of conn) here (w, ?d))"
      using handle_close_once [OF loop] by (simp add: force_close_task_def)
    have posted: "closes_once conn (w, ?d) (w, post ForceCloseTask ?d)"
      by (simp add: closes_once_def post_def)
    show ?thesis
    proof (cases here)
      case True
      with inner first \<open>conn_state c = kConnected \<or> conn_state c = kDisconnecting\<close> show ?thesis
        by (simp add: force_close_def keeps_def) (metis closes_once_trans)
    next
      case False
      with closes_once_trans [OF first posted] \<open>conn_state c = kConnected \<or> conn_state c = kDisconnecting\<close>
      show ?thesis by (simp add: force_close_def)
    qed
  qed
qed

lemma handle_read_once:
  assumes "conn_loop c \<noteq> base" and "conn_state c = kConnected \<or> conn_state c = kDisconnecting"
  shows "keeps (closes_once conn) (w, c) (handle_read (k conn) (cbs_of conn) here answer (w, c))"
proof -
  have "closes_once conn (w, c) s'"
    if read: "handle_read (k conn) (cbs_of conn) here answer (w, c) = Inr s'" for s'
  proof -
    from read obtain r b where rb: "read_fd answer (in_buffer c) = Inr (r, b)"
      by (auto simp: handle_read_def bindE_eq_Inr)
    let ?c1 = "c\<lparr>in_buffer := b\<rparr>"
    have loop: "conn_loop ?c1 \<noteq> base" "conn_loop (set_state kDisconnecting ?c1) \<noteq> base"
      using assms(1) by (simp_all add: set_state_def)
    have first: "closes_once conn (w, c) (w, ?c1)" by (rule same_frame_closes_once) simp
    have second: "closes_once conn (w, ?c1) (w, set_state kDisconnecting ?c1)"
      by (rule disconnecting_once) (use assms(2) in auto)
    have msg: "keeps (closes_once conn) (w, ?c1) (run_callback (user_message ucbs conn) (w, ?c1))"
      by (rule user_once) (use loop in auto)
    from read rb consider "run_callback (user_message ucbs conn) (w, ?c1) = Inr s'"
      | "handle_close (k conn) (cbs_of conn) here (w, set_state kDisconnecting ?c1) = Inr s'"
      | "force_close (k conn) (cbs_of conn) here (w, ?c1) = Inr s'"
      | "s' = (w, ?c1)"
      by (auto simp: handle_read_def handle_error_def bindE_eq_Inr Let_def split: if_splits prod.splits)
    then have "closes_once conn (w, ?c1) s'"
    proof cases
      case 1
      with msg show ?thesis by simp
    next
      case 2
      with handle_close_once [OF loop(2), of conn w here] closes_once_trans [OF second] show ?thesis
        by (simp add: keeps_def)
    next
      case 3
      with force_close_once(1) [OF loop(1), of conn w here] show ?thesis by (simp add: keeps_def)
    next
      case 4
      then show ?thesis by simp
    qed
    with first show ?thesis by (rule closes_once_trans)
  qed
  then show ?thesis by (simp add: keeps_def)
qed

lemma established_once:
  assumes "conn_loop c \<noteq> base"
  shows "keeps (closes_once conn) (w, c) (established (k conn) (cbs_of conn) here (w, c))"
proof -
  have "closes_once conn (w, c) s'" if est: "established (k conn) (cbs_of conn) here (w, c) = Inr s'" for s'
  proof -
    from est obtain c1 where st: "conn_state c = kConnecting" and
      c1: "on_channel enable_reading (k conn) here (set_state kConnected c) = Inr c1" and
      cb: "run_callback (user_connection ucbs conn) (w, c1) = Inr s'"
      by (auto simp: established_def bindE_eq_Inr)
    have f: "conn_state c1 = kConnected" "conn_loop c1 = conn_loop c" "posted c1 = posted c"
      using on_channel_frame [OF c1] by (simp_all add: same_frame_def set_state_def)
    have "keeps (closes_once conn) (w, c1) (run_callback (user_connection ucbs conn) (w, c1))"
      by (rule user_once) (use f(2) assms in auto)
    then have "closes_once conn (w, c1) s'" by (simp add: cb)
    moreover have "closes_once conn (w, c) (w, c1)"
      unfolding closes_once_def using st f by simp
    ultimately show ?thesis using closes_once_trans by blast
  qed
  then show ?thesis by (simp add: keeps_def)
qed

lemma lift_frame:
  assumes "\<And>c'. r = Inr c' \<Longrightarrow> same_frame c c'"
  shows "keeps (closes_once conn) (w, c) (bindE r (\<lambda>c'. Inr (w, c')))"
  using assms by (cases r) (auto intro: same_frame_closes_once)

lemma conn_events_once:
  assumes "conn_loop c \<noteq> base" and "conn_state c = kConnected \<or> conn_state c = kDisconnecting"
  shows "keeps (closes_once conn) (w, c) (handle_conn_events (k conn) (cbs_of conn) True answer (w, c))"
proof -
  let ?r = "revents (channel c)"
  have eq: "handle_conn_events (k conn) (cbs_of conn) True answer (w, c) =
      bindE (if ?r AND (EPOLLIN OR EPOLLPRI OR EPOLLRDHUP) \<noteq> 0
             then handle_read (k conn) (cbs_of conn) True answer (w, c) else Inr (w, c))
        (\<lambda>s. if ?r AND EPOLLOUT \<noteq> 0
             then bindE (handle_write (k conn) True (snd s)) (\<lambda>c'. Inr (fst s, c')) else Inr s)"
    by (simp add: handle_conn_events_def handle_events_def conn_channel_callbacks_def call_if_set_def)
  show ?thesis
    unfolding eq
  proof (rule keeps_bind [OF _ _ closes_once_trans])
    show "keeps (closes_once conn) (w, c) (if ?r AND (EPOLLIN OR EPOLLPRI OR EPOLLRDHUP) \<noteq> 0
        then handle_read (k conn) (cbs_of conn) True answer (w, c) else Inr (w, c))"
      using handle_read_once [OF assms] by simp
    fix s1
    have "keeps (closes_once conn) (fst s1, snd s1)
        (bindE (handle_write (k conn) True (snd s1)) (\<lambda>c'. Inr (fst s1, c')))"
      by (rule lift_frame) (rule frame_intros)
    then show "keeps (closes_once conn) s1 (if ?r AND EPOLLOUT \<noteq> 0
        then bindE (handle_write (k conn) True (snd s1)) (\<lambda>c'. Inr (fst s1, c')) else Inr s1)"
      by simp
  qed
qed

lemma run_conn_task_once:
  assumes "conn_loop c \<noteq> base" and "t = DestroyTask \<longrightarrow> conn_state c = kDisconnected"
  shows "keeps (closes_once conn) (w, c) (run_conn_task (k conn) (cbs_of conn) t (w, c))"
proof (cases t)
  case EstablishTask
  with established_once [OF assms(1)] show ?thesis by simp
next
  case (SendTask d)
  have "keeps (closes_once conn) (w, c) (bindE (send_in_loop (k conn) True d c) (\<lambda>c'. Inr (w, c')))"
    by (rule lift_frame) (rule frame_intros)
  with SendTask show ?thesis by simp
next
  case ShutdownTask
  have "same_frame c (shutdown_task (k conn) c)" by (simp add: shutdown_task_def)
  with ShutdownTask show ?thesis by (simp add: same_frame_closes_once)
next
  case ForceCloseTask
  with force_close_once(2) [OF assms(1)] show ?thesis by simp
next
  case DestroyTask
  with assms(2) show ?thesis by (simp add: destroyed_def)
qed

lemma conn_step_once:
  assumes "conn_wf n c" and "conn_loop c \<noteq> base"
    and "DestroyTask \<in> set (posted c) \<longrightarrow> conn_state c = kDisconnected"
  shows "keeps (closes_once conn) (w, c) (conn_step (k conn) (cbs_of conn) ev (w, c))"
proof (cases ev)
  case (Dispatch e answer)
  let ?c1 = "c\<lparr>channel := set_revents e (channel c)\<rparr>"
  show ?thesis
  proof (cases "in_interest_list (channel c)")
    case True
    then have "conn_state ?c1 = kConnected \<or> conn_state ?c1 = kDisconnecting"
      using assms(1) by (cases "conn_state c") (auto simp: conn_wf_def conn_inv_def)
    with conn_events_once [of ?c1] assms(2)
    have "keeps (closes_once conn) (w, ?c1) (handle_conn_events (k conn) (cbs_of conn) True answer (w, ?c1))"
      by simp
    from frame_then [OF _ this, of c] True Dispatch show ?thesis by simp
  qed (simp add: Dispatch)
next
  case RunPosted
  show ?thesis
  proof (cases "posted c")
    case (Cons t ts)
    let ?c1 = "c\<lparr>posted := ts\<rparr>"
    have first: "closes_once conn (w, c) (w, ?c1)"
      unfolding closes_once_def by (simp add: Cons)
    have "keeps (closes_once conn) (w, ?c1) (run_conn_task (k conn) (cbs_of conn) t (w, ?c1))"
      by (rule run_conn_task_once) (use assms(2,3) Cons in auto)
    then have "keeps (closes_once conn) (w, c) (run_conn_task (k conn) (cbs_of conn) t (w, ?c1))"
      by (auto simp: keeps_def intro: closes_once_trans [OF first])
    then show ?thesis by (simp add: RunPosted Cons)
  qed (simp add: RunPosted)
next
  case (Send here d)
  have "keeps (closes_once conn) (w, c) (bindE (send_in_loop (k conn) here d c) (\<lambda>c'. Inr (w, c')))"
    by (rule lift_frame) (rule frame_intros)
  moreover have "closes_once conn (w, c) (w, post (SendTask d) c)"
    by (simp add: closes_once_def post_def)
  ultimately show ?thesis by (cases here) (simp_all add: Send send_data_def)
next
  case (Shutdown here)
  have "closes_once conn (w, c) (w, shutdown (k conn) here c)"
    by (simp add: shutdown_def shutdown_task_def closes_once_def post_def set_state_def Let_def)
  then show ?thesis by (simp add: Shutdown)
next
  case (ForceClose here)
  with force_close_once(1) [OF assms(2)] show ?thesis by simp
qed

end

section \<open>Invariant\<close>

text \<open>How the server's bookkeeping of a connection and the connection agree: while it is not closed
  it is in the set and no removal is queued; while it is closed and in the set its removal is
  queued, and what is queued for removal is in the set; when it is no longer in the set, \<open>destroyed\<close>
  is the last task left; \<open>destroyed\<close> is only posted to a closed connection.\<close>

fun linked :: "nat \<Rightarrow> nat \<Rightarrow> nat \<Rightarrow> 'u shared \<Rightarrow> 'x connection option \<Rightarrow> bool" where
  "linked n base conn w None \<longleftrightarrow> conn \<notin> connections w \<and> conn \<notin> set (removals w)"
| "linked n base conn w (Some c) \<longleftrightarrow>
     conn_wf n c \<and> conn_loop c \<noteq> base \<and>
     (conn_state c = kDisconnected \<or> conn \<in> connections w \<and> conn \<notin> set (removals w)) \<and>
     (conn \<in> set (removals w) \<longrightarrow> conn \<in> connections w) \<and>
     (conn_state c = kDisconnected \<and> conn \<in> connections w \<longrightarrow> conn \<in> set (removals w)) \<and>
     (conn \<notin> connections w \<longrightarrow> posted c = [] \<or> last (posted c) = DestroyTask) \<and>
     (DestroyTask \<in> set (posted c) \<longrightarrow> conn_state c = kDisconnected)"

definition server_inv :: "nat \<Rightarrow> ('u, 'x) server \<Rightarrow> bool" where
  "server_inv n s \<longleftrightarrow>
     wf_pool (server_pool s) \<and> server_loop s \<notin> pool_loops (server_pool s) \<and>
     n + 8 \<le> max_string_size \<and> distinct (removals (server_shared s)) \<and>
     (\<forall>conn. linked n (server_loop s) conn (server_shared s) (alive s conn)) \<and>
     (\<forall>conn. fresh s \<le> conn \<longrightarrow> alive s conn = None) \<and>
     (\<forall>conn. orphans s conn = [])"

lemma linked_mono: "linked n b conn w x \<Longrightarrow> m \<le> n \<Longrightarrow> linked m b conn w x"
proof (cases x)
  case (Some c)
  assume l: "linked n b conn w x" and "m \<le> n"
  then have "conn_wf m c" using conn_wf_mono [of n c m] by (simp add: Some)
  with l show ?thesis by (simp add: Some)
qed simp

lemma server_inv_mono: "server_inv n s \<Longrightarrow> m \<le> n \<Longrightarrow> server_inv m s"
  by (auto simp: server_inv_def intro: linked_mono)

text \<open>What changes one connection and only its own entry leaves the others linked.\<close>

lemma linked_other:
  assumes "linked n b j w x"
    and "j \<in> connections w' \<longleftrightarrow> j \<in> connections w" and "j \<in> set (removals w') \<longleftrightarrow> j \<in> set (removals w)"
  shows "linked n b j w' x"
  using assms by (cases x) auto

lemma linked_step:
  assumes "linked m b conn w (Some c)" and "distinct (removals w)"
    and "closes_once conn (w, c) (w', c')" and "conn_wf n c'"
    and closed: "conn_state c = kDisconnected \<Longrightarrow> posted c' = posted c \<or> posted c' = tl (posted c)"
  shows "linked n b conn w' (Some c')" "distinct (removals w')"
    "j \<noteq> conn \<Longrightarrow> linked k b j w x \<Longrightarrow> linked k b j w' x"
proof -
  note once = assms(3) [unfolded closes_once_def, simplified]
  have "posted c' = [] \<or> last (posted c') = DestroyTask" if "conn \<notin> connections w"
  proof -
    have "conn_state c = kDisconnected" "posted c = [] \<or> last (posted c) = DestroyTask"
      using assms(1) that by auto
    with closed show ?thesis by (metis last_tl tl_Nil)
  qed
  then show "linked n b conn w' (Some c')"
    using assms(1,4) once by (auto split: if_splits)
  show "distinct (removals w')"
    using assms(1,2) once by auto
  show "linked k b j w' x" if "j \<noteq> conn" "linked k b j w x"
    using that(2) by (rule linked_other) (use once that(1) in auto)
qed

text \<open>One connection has changed, and with it the pool at most by its next index.\<close>

lemma server_inv_update:
  assumes inv: "server_inv m s" and n: "n \<le> m"
    and pool: "wf_pool p" "pool_loops p = pool_loops (server_pool s)"
    and link: "linked n (server_loop s) conn w x" and dist: "distinct (removals w)"
    and others: "\<And>j. j \<noteq> conn \<Longrightarrow> linked n (server_loop s) j (server_shared s) (alive s j) \<Longrightarrow>
      linked n (server_loop s) j w (alive s j)"
    and fresh: "fresh s \<le> f" "x \<noteq> None \<longrightarrow> conn < f"
  shows "server_inv n (s\<lparr>server_pool := p, server_shared := w, alive := (alive s)(conn := x), fresh := f\<rparr>)"
proof -
  note i = inv [unfolded server_inv_def]
  have link_j: "linked n (server_loop s) j w (((alive s)(conn := x)) j)" for j
  proof (cases "j = conn")
    case True
    with link show ?thesis by simp
  next
    case False
    have "linked m (server_loop s) j (server_shared s) (alive s j)" using i by blast
    from others [OF False linked_mono [OF this n]] False show ?thesis by simp
  qed
  have none: "((alive s)(conn := x)) j = None" if "f \<le> j" for j
    using i that fresh by (cases "j = conn"; cases x) auto
  from i n pool dist link_j none show ?thesis by (simp add: server_inv_def)
qed

lemma conn_wf_start:
  "n + 8 \<le> max_string_size \<Longrightarrow> conn_wf n (post EstablishTask (tcp_connection_ctor l fd a x))"
  using start_wf [of n l fd a x] by (simp add: start_connection_def)

lemma new_connection_ok:
  assumes inv: "server_inv n s"
  shows "\<exists>s' l. server_new_connection k ucbs x0 True fd a s = Inr s' \<and> server_inv n s' \<and>
    server_loop s' = server_loop s \<and> fresh s' = Suc (fresh s) \<and>
    alive s' = (alive s)(fresh s \<mapsto> start_connection l fd a x0)"
proof -
  note i = inv [unfolded server_inv_def]
  from pool.pick [of "server_pool s"] i obtain l p where p: "next_loop True (server_pool s) = Inr (l, p)"
    "wf_pool p" "l \<in> pool_loops (server_pool s)" "pool_loops p = pool_loops (server_pool s)" by blast
  have none: "alive s (fresh s) = None" using i by blast
  then have gone: "fresh s \<notin> connections (server_shared s)" "fresh s \<notin> set (removals (server_shared s))"
    using i by (metis linked.simps(1))+
  have other: "l \<noteq> server_loop s" using p(3) i by auto
  let ?c = "post EstablishTask (tcp_connection_ctor l fd a x0)"
  let ?w = "(server_shared s)\<lparr>connections := insert (fresh s) (connections (server_shared s))\<rparr>"
  let ?s = "s\<lparr>server_pool := p, server_shared := ?w, alive := (alive s)(fresh s \<mapsto> ?c),
      fresh := Suc (fresh s)\<rparr>"
  have eq: "server_new_connection k ucbs x0 True fd a s = Inr ?s"
    using p(1) gone(1) other by (simp add: server_new_connection_def Let_def)
  have "linked n (server_loop s) (fresh s) ?w (Some ?c)"
    using i gone other by (simp add: conn_wf_start) (simp add: post_def tcp_connection_ctor_def)
  moreover have "linked n (server_loop s) j ?w (alive s j)"
    if "j \<noteq> fresh s" "linked n (server_loop s) j (server_shared s) (alive s j)" for j
    using that(2) by (rule linked_other) (use that(1) in simp_all)
  ultimately have "server_inv n ?s"
    using i p by (intro server_inv_update [OF inv]) simp_all
  with eq show ?thesis by (auto simp: start_connection_def)
qed

lemma incoming_ok:
  "server_inv n s \<Longrightarrow>
   \<exists>ended closed s'. accept_loop (Some (server_new_connection k ucbs x0 True)) answers s
       = Inr (ended, closed, s') \<and> server_inv n s' \<and> server_loop s' = server_loop s"
proof (induction answers arbitrary: s)
  case Nil
  then show ?case by auto
next
  case (Cons a answers)
  show ?case
  proof (cases a)
    case (Accepted fd peer_address)
    from new_connection_ok [OF Cons.prems, of k ucbs x0 fd peer_address] obtain s1 where s1:
      "server_new_connection k ucbs x0 True fd peer_address s = Inr s1" "server_inv n s1"
      "server_loop s1 = server_loop s" by blast
    from Cons.IH [OF s1(2)] s1 Accepted show ?thesis by simp
  next
    case (AcceptErr e)
    with Cons.prems show ?thesis by auto
  qed
qed

lemma removal_ok:
  assumes inv: "server_inv n s"
  shows "\<exists>s'. run_removal s = Inr s' \<and> server_inv n s' \<and> server_loop s' = server_loop s"
proof (cases "removals (server_shared s)")
  case Nil
  with inv show ?thesis by (simp add: run_removal_def)
next
  case (Cons conn rest)
  note i = inv [unfolded server_inv_def]
  let ?w = "server_shared s" and ?b = "server_loop s"
  have link: "linked n ?b conn ?w (alive s conn)" using i by blast
  then obtain c where c: "alive s conn = Some c" using Cons by (cases "alive s conn") auto
  have facts: "conn \<in> connections ?w" "conn_state c = kDisconnected" "conn_wf n c" "conn_loop c \<noteq> ?b"
    using link Cons by (auto simp: c)
  have rest: "conn \<notin> set rest" "distinct rest" using i Cons by auto
  let ?w' = "?w\<lparr>removals := rest, connections := connections ?w - {conn}\<rparr>"
  let ?s = "s\<lparr>server_shared := ?w', alive := (alive s)(conn \<mapsto> post DestroyTask c)\<rparr>"
  have eq: "run_removal s = Inr ?s"
    using facts(1) Cons c by (simp add: run_removal_def erase_connection_def Let_def fun_upd_def)
  have "conn_wf n (post DestroyTask c)"
    by (rule conn_wf_post) (use facts in simp_all)
  then have "linked n ?b conn ?w' (Some (post DestroyTask c))"
    using facts rest by (simp add: post_def)
  moreover have "linked n ?b j ?w' (alive s j)" if "j \<noteq> conn" "linked n ?b j ?w (alive s j)" for j
    using that(2) by (rule linked_other) (use that(1) Cons in simp_all)
  moreover have "conn < fresh s" using i c by (metis linorder_not_less option.distinct(1))
  ultimately have "server_inv n (s\<lparr>server_pool := server_pool s, server_shared := ?w',
      alive := (alive s)(conn := Some (post DestroyTask c)), fresh := fresh s\<rparr>)"
    using i rest by (intro server_inv_update [OF inv]) simp_all
  then have "server_inv n ?s" by simp
  with eq show ?thesis by auto
qed

lemma release_ok:
  assumes inv: "server_inv n s"
  shows "\<exists>s'. release k conn s = Inr s' \<and> server_inv n s' \<and> server_loop s' = server_loop s"
proof -
  note i = inv [unfolded server_inv_def]
  have link: "linked n (server_loop s) conn (server_shared s) (alive s conn)" using i by blast
  show ?thesis
  proof (cases "alive s conn")
    case None
    with inv show ?thesis by (simp add: release_def)
  next
    case (Some c)
    show ?thesis
    proof (cases "conn \<in> connections (server_shared s) \<or> conn \<in> set (removals (server_shared s)) \<or>
        list_ex owns_connection (posted c)")
      case True
      then have "release k conn s = Inr s" by (simp add: release_def Some)
      with inv show ?thesis by simp
    next
      case False
      have c: "conn_state c = kDisconnected" "conn_wf n c" and last: "posted c = [] \<or> last (posted c) = DestroyTask"
        using link False Some by auto
      have none: "posted c = []"
      proof (rule ccontr)
        assume "posted c \<noteq> []"
        with last have "DestroyTask \<in> set (posted c)" by (metis last_in_set)
        with False show False by (auto simp: list_ex_iff)
      qed
      let ?s = "s\<lparr>alive := (alive s)(conn := None), orphans := (orphans s)(conn := [])\<rparr>"
      have "connection_dtor (k conn) True c = Inr ((sock c)\<lparr>fd_closed := True\<rparr>)"
        using c by (auto simp: conn_wf_def conn_inv_def connection_dtor_def channel_dtor_iff Let_def)
      then have "release k conn s = Inr ?s" using Some False none by (simp add: release_def)
      moreover have "server_inv n (s\<lparr>server_pool := server_pool s, server_shared := server_shared s,
          alive := (alive s)(conn := None), fresh := fresh s\<rparr>)"
        using i False by (intro server_inv_update [OF inv]) simp_all
      then have "server_inv n ?s" by (simp add: server_inv_def)
      ultimately show ?thesis by auto
    qed
  qed
qed

section \<open>Every event keeps it\<close>

definition user_raised :: "nat \<Rightarrow> ('u, 'x) user_callbacks \<Rightarrow> error \<Rightarrow> bool" where
  "user_raised base ucbs e \<longleftrightarrow>
     (\<exists>conn. \<exists>cb \<in> {user_connection ucbs conn, user_message ucbs conn}. \<exists>s.
        conn_loop (snd s) \<noteq> base \<and> run_callback cb s = Inl e)"

fun server_cost :: "nat \<Rightarrow> server_event \<Rightarrow> nat" where
  "server_cost cost (OnConnection conn ev) = event_cost cost ev"
| "server_cost cost _ = 0"

definition server_step_ok ::
    "nat \<Rightarrow> nat \<Rightarrow> ('u, 'x) user_callbacks \<Rightarrow> ('u, 'x) server result \<Rightarrow> bool" where
  "server_step_ok n base ucbs r \<longleftrightarrow>
     (case r of Inl e \<Rightarrow> user_raised base ucbs e | Inr s \<Rightarrow> server_inv n s \<and> server_loop s = base)"

context server_user
begin

lemma raised_user:
  assumes "raised (cbs_of conn) l e" and "l \<noteq> base"
  shows "user_raised base ucbs e"
proof -
  from assms(1) obtain cb s where cb: "cb \<in> {user_connection ucbs conn, user_message ucbs conn, close_cb (cbs_of conn)}"
    "conn_loop (snd s) = l" "run_callback cb s = Inl e"
    unfolding raised_def callback_simps by blast
  have "run_callback (close_cb (cbs_of conn)) s \<noteq> Inl e"
    using run_close_cb [of "snd s" conn "fst s"] cb(2) assms(2) by simp
  then have "cb \<in> {user_connection ucbs conn, user_message ucbs conn}" using cb(1,3) by auto
  with cb(2,3) assms(2) show ?thesis unfolding user_raised_def by blast
qed

lemma on_connection_ok:
  assumes inv: "server_inv (event_cost cost ev + n) s" and base: "server_loop s = base"
  shows "server_step_ok n base ucbs (server_step k ucbs x0 (OnConnection conn ev) s)"
proof (cases "alive s conn")
  case None
  moreover have "orphans s conn = []" using inv by (simp add: server_inv_def)
  ultimately show ?thesis
    using server_inv_mono [OF inv, of n] base by (simp add: server_step_ok_def)
next
  case (Some c)
  note i = inv [unfolded server_inv_def]
  let ?w = "server_shared s"
  have link: "linked (event_cost cost ev + n) base conn ?w (Some c)"
    using i base Some by metis
  then have wf: "conn_wf (event_cost cost ev + n) c" and loop: "conn_loop c \<noteq> base"
    and destroy: "DestroyTask \<in> set (posted c) \<longrightarrow> conn_state c = kDisconnected" by simp_all
  let ?r = "conn_step (k conn) (cbs_of conn) ev (?w, c)"
  have step: "step_ok (cbs_of conn) n c ?r" by (rule client.conn_step_ok [OF wf])
  have once: "keeps (closes_once conn) (?w, c) ?r" by (rule conn_step_once [OF wf loop destroy])
  show ?thesis
  proof (cases ?r)
    case (Inl e)
    with step raised_user [OF _ loop] Some base show ?thesis
      by (simp add: server_step_ok_def step_ok_def)
  next
    case (Inr s1)
    obtain w' c' where s1: "s1 = (w', c')" by (cases s1)
    have "closes_once conn (?w, c) (w', c')" using once Inr s1 by simp
    moreover have "conn_wf n c'" using step Inr s1 by (simp add: step_ok_def)
    moreover have "distinct (removals ?w)" using i by blast
    moreover have "posted c' = posted c \<or> posted c' = tl (posted c)" if "conn_state c = kDisconnected"
      using closed_step [OF closed_for_good [OF wf that], of "k conn" "cbs_of conn" ev ?w] Inr s1
      by (auto split: if_splits)
    ultimately have l: "linked n base conn w' (Some c')" "distinct (removals w')"
      "\<And>j. j \<noteq> conn \<Longrightarrow> linked n base j ?w (alive s j) \<Longrightarrow> linked n base j w' (alive s j)"
      using linked_step [OF link] by blast+
    have "conn < fresh s" using i Some by (metis linorder_not_less option.distinct(1))
    then have "server_inv n (s\<lparr>server_pool := server_pool s, server_shared := w',
        alive := (alive s)(conn := Some c'), fresh := fresh s\<rparr>)"
      using i l base by (intro server_inv_update [OF inv]) simp_all
    with Inr s1 Some base show ?thesis by (simp add: server_step_ok_def)
  qed
qed

lemma server_step_fine:
  assumes inv: "server_inv (server_cost cost ev + n) s" and base: "server_loop s = base"
  shows "server_step_ok n base ucbs (server_step k ucbs x0 ev s)"
proof (cases ev)
  case (Incoming answers)
  with inv have "server_inv n s" by simp
  from incoming_ok [OF this, of k ucbs x0 answers] base Incoming show ?thesis
    by (auto simp: server_step_ok_def on_incoming_connection_def)
next
  case (OnConnection conn ev')
  with on_connection_ok inv base show ?thesis by simp
next
  case RunRemoval
  with removal_ok [of n s] inv base show ?thesis by (auto simp: server_step_ok_def)
next
  case (Release conn)
  with release_ok [of n s k conn] inv base show ?thesis by (auto simp: server_step_ok_def)
qed

lemma server_run_fine:
  "server_inv (sum_list (map (server_cost cost) evs) + n) s \<Longrightarrow> server_loop s = base \<Longrightarrow>
   server_step_ok n base ucbs (foldE (server_step k ucbs x0) evs s)"
proof (induction evs arbitrary: s)
  case Nil
  then show ?case by (simp add: server_step_ok_def)
next
  case (Cons ev evs)
  let ?rest = "sum_list (map (server_cost cost) evs) + n"
  have "server_inv (server_cost cost ev + ?rest) s" using Cons.prems(1) by (simp add: add.assoc)
  from server_step_fine [OF this Cons.prems(2), of x0] have
    step: "server_step_ok ?rest base ucbs (server_step k ucbs x0 ev s)" .
  show ?case
  proof (cases "server_step k ucbs x0 ev s")
    case (Inl e)
    with step show ?thesis by (simp add: server_step_ok_def)
  next
    case (Inr s1)
    with step Cons.IH [of s1] show ?thesis by (simp add: server_step_ok_def)
  qed
qed

end

section \<open>Where an error comes from\<close>

text \<open>The errors of the user's callbacks are replaced by a mark; those of the server's own close
  callback, with its assertion that a connection is erased once, are not.\<close>

definition marked_user :: "error \<Rightarrow> ('u, 'x) user_callbacks \<Rightarrow> ('u, 'x) user_callbacks" where
  "marked_user m ucbs =
     \<lparr>user_connection = (\<lambda>conn. marked_callback m (user_connection ucbs conn)),
      user_message = (\<lambda>conn. marked_callback m (user_message ucbs conn))\<rparr>"

lemma marked_user_marks:
  "callbacks_marks m (server_callbacks base ucbs conn) (server_callbacks base (marked_user m ucbs) conn)"
  by (simp add: callbacks_marks_def server_callbacks_def marked_user_def marked_callback_marks)

lemma new_connection_marks:
  "marks m (server_new_connection k ucbs x0 here fd a s) (server_new_connection k (marked_user m ucbs) x0 here fd a s)"
  unfolding server_new_connection_def Let_def
  by (auto intro!: marks_bind established_marks [OF marked_user_marks] split: prod.split)

lemma incoming_marks:
  "marks m (accept_loop (Some (server_new_connection k ucbs x0 here)) answers s)
     (accept_loop (Some (server_new_connection k (marked_user m ucbs) x0 here)) answers s)"
proof (induction answers arbitrary: s)
  case (Cons a answers)
  then show ?case by (cases a) (auto intro!: marks_bind new_connection_marks)
qed simp

lemma server_step_marks:
  "marks m (server_step k ucbs x0 ev s) (server_step k (marked_user m ucbs) x0 ev s)"
  by (cases ev)
    (auto simp: on_incoming_connection_def simp del: conn_step.simps intro!: marks_bind incoming_marks
      conn_step_marks [OF marked_user_marks] split: option.split prod.split)

lemma good_marked_user: "good_user base cost ucbs \<Longrightarrow> good_user base cost (marked_user m ucbs)"
  by (simp add: good_user_def good_user_callback_def good_callback_def marked_user_def keeps_def)

lemma user_raised_marked: "user_raised base (marked_user m ucbs) e \<Longrightarrow> e = m"
  by (auto simp: user_raised_def marked_user_def dest: marked_callback_Inl)

lemma server_run_error:
  assumes "\<And>conn. kernel_ok (k conn)" and "good_user base cost ucbs"
    and "server_inv (sum_list (map (server_cost cost) evs)) s" and "server_loop s = base"
    and "foldE (server_step k ucbs x0) evs s = Inl e"
  shows "foldE (server_step k (marked_user m ucbs) x0) evs s = Inl m"
proof (rule marks_error [OF marks_fold [OF server_step_marks] _ assms(5)])
  have user: "server_user k base (marked_user m ucbs) cost"
    using assms(1) good_marked_user [OF assms(2)] by unfold_locales
  fix e'
  assume "foldE (server_step k (marked_user m ucbs) x0) evs s = Inl e'"
  with server_user.server_run_fine [OF user, of evs 0 s x0] assms(3,4) show "e' = m"
    by (auto simp: server_step_ok_def dest: user_raised_marked)
qed

section \<open>A closed connection goes away\<close>

text \<open>What is still to be run for the closed connection \<open>conn\<close>: \<open>m\<close> tasks, its removal included.\<close>

definition departing :: "nat \<Rightarrow> nat \<Rightarrow> ('u, 'x) server \<Rightarrow> bool" where
  "departing conn m s \<longleftrightarrow>
     (\<exists>c. alive s conn = Some c \<and> conn_state c = kDisconnected \<and>
        length (posted c) + (if conn \<in> set (removals (server_shared s)) then 1 else 0) \<le> m)"

lemma removal_departing:
  assumes "server_inv n s" and "departing conn m s" and "removals (server_shared s) = j # rest"
  shows "\<exists>s'. run_removal s = Inr s' \<and> server_inv n s' \<and> server_loop s' = server_loop s \<and>
    departing conn m s' \<and> removals (server_shared s') = rest"
proof -
  from removal_ok [OF assms(1)] obtain s' where s': "run_removal s = Inr s'" "server_inv n s'"
    "server_loop s' = server_loop s" by blast
  have eq: "server_shared s' = (server_shared s)\<lparr>removals := rest, connections := connections (server_shared s) - {j}\<rparr>"
    "alive s' = (alive s)(j := map_option (post DestroyTask) (alive s j))"
    using s'(1) assms(3) by (auto simp: run_removal_def erase_connection_def bindE_eq_Inr Let_def)
  have "j \<notin> set rest" using assms(1,3) by (auto simp: server_inv_def)
  with assms(2,3) have "departing conn m s'"
    by (cases "j = conn") (auto simp: departing_def eq post_def)
  with s' eq show ?thesis by simp
qed

lemma removals_run:
  "server_inv n s \<Longrightarrow> departing conn m s \<Longrightarrow>
   \<exists>s'. foldE (server_step k ucbs x0) (replicate (length (removals (server_shared s))) RunRemoval) s = Inr s' \<and>
     server_inv n s' \<and> departing conn m s' \<and> removals (server_shared s') = []"
proof (induction "removals (server_shared s)" arbitrary: s)
  case Nil
  then show ?case by auto
next
  case (Cons j rest)
  from removal_departing [OF Cons.prems Cons.hyps(2) [symmetric]] obtain s1 where s1:
    "run_removal s = Inr s1" "server_inv n s1" "departing conn m s1" "removals (server_shared s1) = rest"
    by blast
  from Cons.hyps(1) [OF s1(4) [symmetric] s1(2,3)] s1(1,4) Cons.hyps(2) show ?case
    by (auto simp flip: Cons.hyps(2))
qed

lemma tasks_run:
  "alive s conn = Some c \<Longrightarrow> closed_for_good c \<Longrightarrow> length (posted c) \<le> m \<Longrightarrow>
   \<exists>s' c'. foldE (server_step k ucbs x0) (replicate m (OnConnection conn RunPosted)) s = Inr s' \<and>
     server_shared s' = server_shared s \<and> alive s' conn = Some c' \<and> closed_for_good c' \<and> posted c' = []"
proof (induction m arbitrary: s c)
  case 0
  then show ?case by simp
next
  case (Suc m)
  from closed_step [OF Suc.prems(2), of "k conn" "server_callbacks (server_loop s) ucbs conn" RunPosted "server_shared s"]
  obtain c1 where c1: "conn_step (k conn) (server_callbacks (server_loop s) ucbs conn) RunPosted (server_shared s, c)
      = Inr (server_shared s, c1)" "closed_for_good c1" "posted c1 = tl (posted c)" by auto
  let ?s = "s\<lparr>server_shared := server_shared s, alive := (alive s)(conn \<mapsto> c1)\<rparr>"
  have step: "server_step k ucbs x0 (OnConnection conn RunPosted) s = Inr ?s"
    using Suc.prems(1) c1(1) by simp
  have "length (posted c1) \<le> m" using c1(3) Suc.prems(3) by simp
  with Suc.IH [of ?s c1] c1(2) step show ?case by simp
qed

lemma release_departed:
  assumes "alive s conn = Some c" and "closed_for_good c" and "posted c = []"
    and "conn \<notin> connections (server_shared s)" and "conn \<notin> set (removals (server_shared s))"
  shows "\<exists>s'. release k conn s = Inr s' \<and> alive s' conn = None \<and> server_shared s' = server_shared s"
  using assms
  by (simp add: release_def connection_dtor_def closed_for_good_def channel_dtor_iff Let_def)

lemma departure:
  assumes inv: "server_inv n s" and c: "alive s conn = Some c" "conn_state c = kDisconnected"
  shows "\<exists>s'. foldE (server_step k ucbs x0)
      (replicate (length (removals (server_shared s))) RunRemoval @
       replicate (Suc (length (posted c))) (OnConnection conn RunPosted) @ [Release conn]) s = Inr s' \<and>
    alive s' conn = None \<and> conn \<notin> connections (server_shared s') \<and> removals (server_shared s') = []"
proof -
  have "departing conn (Suc (length (posted c))) s" using c by (simp add: departing_def)
  from removals_run [OF inv this, of k ucbs x0] obtain s1 where s1:
    "foldE (server_step k ucbs x0) (replicate (length (removals (server_shared s))) RunRemoval) s = Inr s1"
    "server_inv n s1" "departing conn (Suc (length (posted c))) s1" "removals (server_shared s1) = []" by blast
  from s1(3,4) obtain c1 where c1: "alive s1 conn = Some c1" "conn_state c1 = kDisconnected"
    "length (posted c1) \<le> Suc (length (posted c))" by (auto simp: departing_def)
  have link: "linked n (server_loop s1) conn (server_shared s1) (Some c1)"
    using s1(2) c1(1) by (metis server_inv_def)
  then have "closed_for_good c1" using c1(2) closed_for_good by auto
  from tasks_run [OF c1(1) this c1(3), of k ucbs x0] obtain s2 c2 where s2:
    "foldE (server_step k ucbs x0) (replicate (Suc (length (posted c))) (OnConnection conn RunPosted)) s1 = Inr s2"
    "server_shared s2 = server_shared s1" "alive s2 conn = Some c2" "closed_for_good c2" "posted c2 = []" by blast
  have gone: "conn \<notin> connections (server_shared s1)" using link c1(2) s1(4) by auto
  from release_departed [OF s2(3-5), of k] gone s1(4) s2(2) obtain s3 where
    "release k conn s2 = Inr s3" "alive s3 conn = None" "server_shared s3 = server_shared s1" by auto
  with s1(1,4) s2(1) gone show ?thesis
    by (intro exI [of _ s3]) (simp add: foldE_append del: replicate_Suc)
qed

section \<open>Starting\<close>

lemma started_inv:
  assumes "server_ctor base fd bind_ok local u = Inr s0" and "n + 8 \<le> max_string_size"
    and "base \<notin> range new_loop" and "server_start new_loop ctl_ok True s0 = Inr s"
  shows "server_inv n s" "server_loop s = base"
proof -
  obtain p0 where p0: "pool_ctor base kNumThreads = Inr p0" and s0: "server_pool s0 = p0"
    "server_loop s0 = base" "server_shared s0 = \<lparr>connections = {}, removals = [], user_state = u\<rparr>"
    "alive s0 = Map.empty" "\<forall>conn. orphans s0 conn = []"
    using assms(1) by (auto simp: server_ctor_def bindE_eq_Inr)
  from pool_start_spec [OF p0, of new_loop] obtain p where p:
    "pool_start True new_loop p0 = Inr p" "wf_pool p" "base_loop p = base"
    "workers p = map new_loop [0..<nat kNumThreads]" by blast
  have "workers p \<noteq> []" using p(4) by (simp add: kNumThreads_def)
  then have loops: "base \<notin> pool_loops p" using p(4) assms(3) by (auto simp: pool_loops_def)
  obtain a where s: "s = s0\<lparr>server_pool := p, server_acceptor := a\<rparr>"
    using assms(4) s0(1) p(1) by (auto simp: server_start_def start_task_def bindE_eq_Inr)
  show "server_loop s = base" using s s0(2) by simp
  show "server_inv n s"
    using p(2) loops assms(2) s0 by (simp add: server_inv_def s)
qed

lemma start_succeeds:
  assumes "server_ctor base fd bind_ok local u = Inr s0"
  shows "\<exists>s. server_start new_loop True True s0 = Inr s"
proof -
  obtain p0 where p0: "pool_ctor base kNumThreads = Inr p0" and s0: "server_pool s0 = p0"
    "server_acceptor s0 = acceptor_ctor base fd bind_ok local"
    using assms by (auto simp: server_ctor_def bindE_eq_Inr)
  from pool_start_spec [OF p0, of new_loop] s0 show ?thesis
    by (auto simp: server_start_def start_task_def acceptor_listen_def acceptor_ctor_def Let_def
        bindE_assertE enable_reading_eq)
qed

section \<open>Properties\<close>

text \<open>C5: No matter how connections come in, what the peers send, how much \<open>write\<close> takes over and
  with which errors it and \<open>readv\<close> end, in which order the loops run their events and tasks, and
  which calls of \<open>send\<close>, \<open>shutdown\<close> and \<open>force_close\<close> the server's user makes from any thread, no
  assertion of the server, of its connections or of their channels fails, the one that a connection
  is erased exactly once among them: a run that ends with an error ended with the error that a
  callback of the user returned in the state the run had reached, as replacing the errors of the
  user's callbacks by any mark ends it with the mark. After every run each connection that is not
  closed is in the server's set, each queued removal finds its connection there, and a connection is
  destroyed only when it has left the epoll instance and no task is left that would use it, the
  tasks that have captured \<open>this\<close> without sharing its ownership included. This rests on: \<open>epoll_ctl\<close>
  succeeds and \<open>write\<close> takes over no more than it is given (\<open>kernel_ok\<close>); the user's callbacks keep
  the contract \<open>good_user\<close> (at most \<open>cost\<close> bytes sent, the connection closed by its own operations
  only); no worker's loop is the server's; an event is reported for a registered channel only
  (\<open>Stale_Report\<close> has the reports that have gone stale); a call from another thread is one step
  (\<open>Cross_Thread\<close> has the calls that the loop splits, after which the erase-once assertion fails);
  and all bytes together fit into a string.\<close>

theorem server_invariant:
  assumes "\<And>conn. kernel_ok (k conn)" and "good_user base cost ucbs"
    and "server_ctor base fd bind_ok local u = Inr s0"
    and "base \<notin> range new_loop" and "server_start new_loop ctl_ok True s0 = Inr s"
    and "sum_list (map (server_cost cost) evs) + 8 \<le> max_string_size"
  shows "case foldE (server_step k ucbs x0) evs s of
           Inl e \<Rightarrow> \<forall>m. foldE (server_step k (marked_user m ucbs) x0) evs s = Inl m
         | Inr s' \<Rightarrow> (\<forall>conn. linked 0 base conn (server_shared s') (alive s' conn)) \<and>
             (\<forall>conn. orphans s' conn = [])"
proof -
  have user: "server_user k base ucbs cost" using assms(1,2) by unfold_locales
  note start = started_inv [OF assms(3,6,4,5)]
  have err: "\<forall>m. foldE (server_step k (marked_user m ucbs) x0) evs s = Inl m"
    if "foldE (server_step k ucbs x0) evs s = Inl e" for e
    using server_run_error [OF assms(1,2) start that] by simp
  from server_user.server_run_fine [OF user, of evs 0 s x0] start err show ?thesis
    by (auto simp: server_step_ok_def server_inv_def split: sum.splits)
qed

text \<open>A user that answers every message.\<close>

definition answering_user :: "bytes \<Rightarrow> (nat, unit) user_callbacks" where
  "answering_user t = \<lparr>user_connection = (\<lambda>_. None),
     user_message = (\<lambda>_. Some (\<lambda>(w, c). bindE (send_data slow_kernel True t c) (\<lambda>c'. Inr (w, c'))))\<rparr>"

lemma answering_user_good: "good_user base (length t) (answering_user t)"
proof -
  have adv: "advances n c c' \<and> posts_nothing_else c c'"
    if inv: "conn_inv (n + length t) c" and st: "conn_state c \<noteq> kConnecting"
      and send: "send_data slow_kernel True t c = Inr c'" for n and c c' :: "unit connection"
  proof -
    have inv1: "conn_inv (length t + n) c" using inv by (simp add: add.commute)
    have inv2: "conn_inv n c" using inv by (rule conn_inv_mono) simp
    from send_in_loop_spec [OF slow_kernel_ok inv1 st] send inv2 show ?thesis
      by (auto simp: send_data_def advances_refl posts_nothing_else_eq split: if_splits)
  qed
  have frame: "same_frame c c'" if "send_data slow_kernel True t c = Inr c'" for c c' :: "unit connection"
    using that send_in_loop_frame by (auto simp: send_data_def split: if_splits)
  have "good_user_callback base (length t) conn (user_message (answering_user t) conn)" for conn
    using adv frame
    by (auto simp: good_user_callback_def good_callback_def answering_user_def run_callback_def
        call_if_set_def bindE_eq_Inr keeps_def intro: same_frame_closes_once)
  moreover have "good_user_callback base (length t) conn (user_connection (answering_user t) conn)" for conn
    by (simp add: good_user_callback_def answering_user_def good_callback_None run_callback_def
        call_if_set_def)
  ultimately show ?thesis by (simp add: good_user_def)
qed

theorem server_invariant_witness:
  "\<exists>s0 s. server_ctor 0 3 True zero_sockaddr (0 :: nat) = Inr s0 \<and> server_start Suc True True s0 = Inr s \<and>
    (case foldE (server_step (\<lambda>_. slow_kernel) (answering_user ''hello'') ())
        [Incoming [Accepted 7 zero_sockaddr, Accepted 8 zero_sockaddr, AcceptErr 11], OnConnection 1 RunPosted,
         OnConnection 0 RunPosted, OnConnection 1 (Dispatch EPOLLIN (ReadOk ''x'')),
         OnConnection 1 (Dispatch EPOLLIN (ReadOk [])), RunRemoval, OnConnection 1 RunPosted, Release 1] s of
       Inl e \<Rightarrow> \<forall>m. foldE (server_step (\<lambda>_. slow_kernel) (marked_user m (answering_user ''hello'')) ())
        [Incoming [Accepted 7 zero_sockaddr, Accepted 8 zero_sockaddr, AcceptErr 11], OnConnection 1 RunPosted,
         OnConnection 0 RunPosted, OnConnection 1 (Dispatch EPOLLIN (ReadOk ''x'')),
         OnConnection 1 (Dispatch EPOLLIN (ReadOk [])), RunRemoval, OnConnection 1 RunPosted, Release 1] s = Inl m
     | Inr s' \<Rightarrow> (\<forall>conn. linked 0 0 conn (server_shared s') (alive s' conn)) \<and> (\<forall>conn. orphans s' conn = []))"
proof -
  obtain s0 :: "(nat, unit) server" where s0: "server_ctor 0 3 True zero_sockaddr (0 :: nat) = Inr s0"
    by (simp add: server_ctor_def pool_ctor_def kNumThreads_def)
  from start_succeeds [OF s0, of Suc] obtain s where s: "server_start Suc True True s0 = Inr s" by blast
  have k: "kernel_ok slow_kernel" by (rule slow_kernel_ok)
  have "case foldE (server_step (\<lambda>_. slow_kernel) (answering_user ''hello'') ())
        [Incoming [Accepted 7 zero_sockaddr, Accepted 8 zero_sockaddr, AcceptErr 11], OnConnection 1 RunPosted,
         OnConnection 0 RunPosted, OnConnection 1 (Dispatch EPOLLIN (ReadOk ''x'')),
         OnConnection 1 (Dispatch EPOLLIN (ReadOk [])), RunRemoval, OnConnection 1 RunPosted, Release 1] s of
       Inl e \<Rightarrow> \<forall>m. foldE (server_step (\<lambda>_. slow_kernel) (marked_user m (answering_user ''hello'')) ())
        [Incoming [Accepted 7 zero_sockaddr, Accepted 8 zero_sockaddr, AcceptErr 11], OnConnection 1 RunPosted,
         OnConnection 0 RunPosted, OnConnection 1 (Dispatch EPOLLIN (ReadOk ''x'')),
         OnConnection 1 (Dispatch EPOLLIN (ReadOk [])), RunRemoval, OnConnection 1 RunPosted, Release 1] s = Inl m
     | Inr s' \<Rightarrow> (\<forall>conn. linked 0 0 conn (server_shared s') (alive s' conn)) \<and> (\<forall>conn. orphans s' conn = [])"
    by (rule server_invariant [OF k answering_user_good s0 _ s])
      (simp_all add: max_string_size_def image_iff)
  with s0 s show ?thesis by blast
qed

text \<open>C6: No connection leaks. After any run of the server, a connection that is closed goes away: when
  the server's loop has run the removals queued in it and the connection's loop the tasks queued
  for the connection, then it is out of the set and its last owner is gone, so that the destructor
  closes the descriptor.\<close>

theorem closed_connection_released:
  assumes "\<And>conn. kernel_ok (k conn)" and "good_user base cost ucbs"
    and "server_ctor base fd bind_ok local u = Inr s0"
    and "base \<notin> range new_loop" and "server_start new_loop ctl_ok True s0 = Inr s"
    and "sum_list (map (server_cost cost) evs) + 8 \<le> max_string_size"
    and "foldE (server_step k ucbs x0) evs s = Inr s1"
    and "alive s1 conn = Some c" and "conn_state c = kDisconnected"
  shows "\<exists>s2. foldE (server_step k ucbs x0)
      (replicate (length (removals (server_shared s1))) RunRemoval @
       replicate (Suc (length (posted c))) (OnConnection conn RunPosted) @ [Release conn]) s1 = Inr s2 \<and>
    alive s2 conn = None \<and> conn \<notin> connections (server_shared s2) \<and> removals (server_shared s2) = []"
proof -
  have user: "server_user k base ucbs cost" using assms(1,2) by unfold_locales
  have "sum_list (map (server_cost cost) evs) + 0 + 8 \<le> max_string_size" using assms(6) by simp
  note start = started_inv [OF assms(3) this assms(4,5)]
  from server_user.server_run_fine [OF user start, of x0] assms(7) have "server_inv 0 s1"
    by (simp add: server_step_ok_def)
  from departure [OF this assms(8,9)] show ?thesis .
qed

lemma release_pool: "release k conn s = Inr s' \<Longrightarrow> server_pool s' = server_pool s"
  by (auto simp: release_def bindE_eq_Inr split: option.splits if_splits)

text \<open>A server that has been started cannot be destroyed, whatever connections it has: at the latest
  the destructor of its first thread, whose \<open>std::thread\<close> nobody joins, ends the process.\<close>

theorem started_server_dtor_ends:
  assumes "server_ctor base fd bind_ok local u = Inr s0" and "server_start new_loop ctl_ok True s0 = Inr s"
    and "worker_threads (server_pool s') = worker_threads (server_pool s)"
  shows "\<not> is_ok (server_dtor k conns ctl_ok' s')"
proof -
  obtain p0 where p0: "pool_ctor base kNumThreads = Inr p0" "server_pool s0 = p0"
    using assms(1) by (auto simp: server_ctor_def bindE_eq_Inr)
  from pool_start_spec [OF p0(1), of new_loop] assms(2) p0(2) have
    ts: "length (worker_threads (server_pool s)) = nat kNumThreads"
    "\<forall>t \<in> set (worker_threads (server_pool s)). thread_joinable t = Some True \<and> loop_ptr t = None"
    by (auto simp: server_start_def start_task_def bindE_eq_Inr)
  have pool: "server_pool s2 = server_pool s1"
    if "foldE (\<lambda>conn s. release k conn (s\<lparr>server_shared := (server_shared s)
      \<lparr>connections := connections (server_shared s) - {conn}\<rparr>\<rparr>)) conns s1 = Inr s2" for s1 s2
    using that
  proof (induction conns arbitrary: s1)
    case (Cons conn conns)
    from Cons.prems obtain s2' where s2: "release k conn (s1\<lparr>server_shared := (server_shared s1)
        \<lparr>connections := connections (server_shared s1) - {conn}\<rparr>\<rparr>) = Inr s2'"
      and rest: "foldE (\<lambda>conn s. release k conn (s\<lparr>server_shared := (server_shared s)
        \<lparr>connections := connections (server_shared s) - {conn}\<rparr>\<rparr>)) conns s2' = Inr s2"
      by (auto simp: bindE_eq_Inr)
    from release_pool [OF s2] Cons.IH [OF rest] show ?case by simp
  qed simp
  have "pool_dtor (server_pool s') = Inl Terminate"
    using ts assms(3) by (intro pool_dtor_terminates) (auto simp: kNumThreads_def)
  then show ?thesis
    using pool [of s'] by (auto simp: server_dtor_def is_ok_iff bindE_eq_Inr)
qed

theorem started_server_dtor_ends_witness:
  "\<exists>s0 s :: (nat, unit) server. server_ctor 0 3 True zero_sockaddr 0 = Inr s0 \<and> server_start Suc True True s0 = Inr s \<and>
    \<not> is_ok (server_dtor (\<lambda>_. slow_kernel) [] True s)"
proof -
  obtain s0 :: "(nat, unit) server" where s0: "server_ctor 0 3 True zero_sockaddr (0 :: nat) = Inr s0"
    by (simp add: server_ctor_def pool_ctor_def kNumThreads_def)
  from start_succeeds [OF s0, of Suc] obtain s where s: "server_start Suc True True s0 = Inr s" by blast
  from started_server_dtor_ends [OF s0 s refl] s0 s show ?thesis by blast
qed

lemma force_closed_run:
  assumes "server_ctor 0 3 True zero_sockaddr (0 :: nat) = Inr s0" and "server_start Suc True True s0 = Inr s"
  shows "\<exists>s1 c. foldE (server_step (\<lambda>_. slow_kernel) (answering_user ''hello'') ())
      [Incoming [Accepted 7 zero_sockaddr, AcceptErr 11], OnConnection 0 RunPosted,
       OnConnection 0 (ForceClose True)] s = Inr s1 \<and>
    alive s1 0 = Some c \<and> conn_state c = kDisconnected \<and> removals (server_shared s1) = [0] \<and> posted c = []"
proof -
  have "server_inv 0 s" "server_loop s = 0"
    using started_inv [OF assms(1) _ _ assms(2), of 0] by (simp_all add: max_string_size_def image_iff)
  note i = this(1) [unfolded server_inv_def]
  have new: "fresh s = 0" "server_shared s = \<lparr>connections = {}, removals = [], user_state = 0\<rparr>"
    using assms by (auto simp: server_ctor_def server_start_def start_task_def bindE_eq_Inr)
  from pool.pick [of "server_pool s"] i obtain l p where p: "next_loop True (server_pool s) = Inr (l, p)"
    "l \<in> pool_loops (server_pool s)" by blast
  then have l: "l \<noteq> 0" using i \<open>server_loop s = 0\<close> by metis
  show ?thesis
    using p(1) l \<open>server_loop s = 0\<close>
    by (simp add: on_incoming_connection_def server_new_connection_def new Let_def post_def
        tcp_connection_ctor_def established_def set_state_def on_channel_eq [OF slow_kernel_ok]
        server_callbacks_def answering_user_def run_callback_def call_if_set_def force_close_def
        force_close_task_def handle_close_def has_none_events_def new_channel_def remove_connection_def)
qed

theorem closed_connection_released_witness:
  "\<exists>s0 s s1 s2 :: (nat, unit) server. server_ctor 0 3 True zero_sockaddr 0 = Inr s0 \<and>
    server_start Suc True True s0 = Inr s \<and>
    foldE (server_step (\<lambda>_. slow_kernel) (answering_user ''hello'') ())
      [Incoming [Accepted 7 zero_sockaddr, AcceptErr 11], OnConnection 0 RunPosted,
       OnConnection 0 (ForceClose True)] s = Inr s1 \<and> alive s1 0 \<noteq> None \<and>
    foldE (server_step (\<lambda>_. slow_kernel) (answering_user ''hello'') ())
      [RunRemoval, OnConnection 0 RunPosted, Release 0] s1 = Inr s2 \<and>
    alive s2 0 = None \<and> 0 \<notin> connections (server_shared s2) \<and> removals (server_shared s2) = []"
proof -
  obtain s0 :: "(nat, unit) server" where s0: "server_ctor 0 3 True zero_sockaddr (0 :: nat) = Inr s0"
    by (simp add: server_ctor_def pool_ctor_def kNumThreads_def)
  from start_succeeds [OF s0, of Suc] obtain s where s: "server_start Suc True True s0 = Inr s" by blast
  from force_closed_run [OF s0 s] obtain s1 c where s1:
    "foldE (server_step (\<lambda>_. slow_kernel) (answering_user ''hello'') ())
      [Incoming [Accepted 7 zero_sockaddr, AcceptErr 11], OnConnection 0 RunPosted,
       OnConnection 0 (ForceClose True)] s = Inr s1"
    "alive s1 0 = Some c" "conn_state c = kDisconnected" "removals (server_shared s1) = [0]" "posted c = []"
    by blast
  have k: "kernel_ok slow_kernel" by (rule slow_kernel_ok)
  have "\<exists>s2. foldE (server_step (\<lambda>_. slow_kernel) (answering_user ''hello'') ())
      (replicate (length (removals (server_shared s1))) RunRemoval @
       replicate (Suc (length (posted c))) (OnConnection 0 RunPosted) @ [Release 0]) s1 = Inr s2 \<and>
    alive s2 0 = None \<and> 0 \<notin> connections (server_shared s2) \<and> removals (server_shared s2) = []"
    by (rule closed_connection_released [OF k answering_user_good s0 _ s _ s1(1-3)])
      (simp_all add: max_string_size_def image_iff)
  then obtain s2 where "foldE (server_step (\<lambda>_. slow_kernel) (answering_user ''hello'') ())
      [RunRemoval, OnConnection 0 RunPosted, Release 0] s1 = Inr s2"
    "alive s2 0 = None" "0 \<notin> connections (server_shared s2)" "removals (server_shared s2) = []"
    using s1(4,5) by (auto simp del: foldE.simps)
  with s0 s s1(1,2) show ?thesis by blast
qed

end
