(* ===== verification/Cross_Thread.thy ===== *)
theory Cross_Thread
  imports Tcp_Server
begin

text \<open>
  Calls of \<open>send\<close>, \<open>shutdown\<close> and \<open>force_close\<close> of \<open>wuduo/tcp_connection.cpp\<close> from another thread,
  in two steps. \<open>state_\<close> is neither locked nor atomic, and these operations first test it and act
  afterwards, while the loop's thread goes on in between. Beside the events of \<open>Tcp_Server\<close>, where
  such a call is one step, another thread can here pass the test (\<open>Check\<close>) and act later (\<open>Act\<close>).
  A call holds a shared pointer to its connection until it returns, so the connection is not
  released in the meantime.
\<close>

section \<open>The two halves of a call\<close>

datatype outside_call = CallSend bytes | CallShutdown | CallForceClose

fun passes_check :: "outside_call \<Rightarrow> 'x connection \<Rightarrow> bool" where
  "passes_check (CallSend d) c \<longleftrightarrow> conn_state c = kConnected"
| "passes_check CallShutdown c \<longleftrightarrow> conn_state c = kConnected"
| "passes_check CallForceClose c \<longleftrightarrow> conn_state c = kConnected \<or> conn_state c = kDisconnecting"

fun act :: "outside_call \<Rightarrow> 'x connection \<Rightarrow> 'x connection" where
  "act (CallSend d) c = post (SendTask d) c"
| "act CallShutdown c = post ShutdownTask (set_state kDisconnecting c)"
| "act CallForceClose c = post ForceCloseTask (set_state kDisconnecting c)"

text \<open>Done without anything in between, the two halves are the call.\<close>

fun whole_call :: "outside_call \<Rightarrow> conn_event" where
  "whole_call (CallSend d) = Send False d"
| "whole_call CallShutdown = Shutdown False"
| "whole_call CallForceClose = ForceClose False"

lemma whole_call_step:
  "conn_step k cbs (whole_call call) (w, c) = Inr (w, if passes_check call c then act call c else c)"
  by (cases call) (simp_all add: send_data_def shutdown_def force_close_def Let_def)

section \<open>The server with split calls\<close>

record ('u, 'x) busy_server =
  srv :: "('u, 'x) server"
  under_way :: "(nat \<times> outside_call) list"

datatype busy_event = Whole server_event | Check nat outside_call | Act

fun busy_step ::
    "(nat \<Rightarrow> kernel) \<Rightarrow> ('u, 'x) user_callbacks \<Rightarrow> 'x \<Rightarrow> busy_event
      \<Rightarrow> ('u, 'x) busy_server \<Rightarrow> ('u, 'x) busy_server result" where
  "busy_step k ucbs x0 (Whole ev) b =
     (if (case ev of Release conn \<Rightarrow> conn \<in> set (map fst (under_way b)) | _ \<Rightarrow> False) then Inr b
      else bindE (server_step k ucbs x0 ev (srv b)) (\<lambda>s. Inr (b\<lparr>srv := s\<rparr>)))"
| "busy_step k ucbs x0 (Check conn call) b =
     Inr (case alive (srv b) conn of
            Some c \<Rightarrow> if passes_check call c then b\<lparr>under_way := under_way b @ [(conn, call)]\<rparr> else b
          | None \<Rightarrow> b)"
| "busy_step k ucbs x0 Act b =
     (case under_way b of
        [] \<Rightarrow> Inr b
      | (conn, call) # rest \<Rightarrow>
          Inr (b\<lparr>under_way := rest,
                srv := (srv b)\<lparr>alive := (alive (srv b))(conn := map_option (act call) (alive (srv b) conn))\<rparr>\<rparr>))"

text \<open>The server as \<open>Tcp_Server\<close> runs it is the case in which every call acts at once.\<close>

lemma atomic_call:
  assumes "alive (srv b) conn = Some c" and "under_way b = []"
  shows "foldE (busy_step k ucbs x0) [Check conn call, Act] b =
    busy_step k ucbs x0 (Whole (OnConnection conn (whole_call call))) b"
proof (cases "passes_check call c")
  case True
  with assms show ?thesis by (simp add: whole_call_step)
next
  case False
  have "(alive (srv b))(conn \<mapsto> c) = alive (srv b)" using assms(1) by auto
  with False assms show ?thesis by (simp add: whole_call_step)
qed

section \<open>A connection whose end races with a call\<close>

text \<open>A connection in the middle of its life, and the same when the end of the stream has been read.\<close>

definition open_server :: "nat \<Rightarrow> 'x connection \<Rightarrow> ('u, 'x) server \<Rightarrow> bool" where
  "open_server conn c s \<longleftrightarrow>
     alive s conn = Some c \<and> conn_loop c \<noteq> server_loop s \<and> conn_inv 0 c \<and> conn_state c = kConnected \<and>
     posted c = [] \<and> conn \<in> connections (server_shared s) \<and> removals (server_shared s) = []"

definition peer_closes :: "nat \<Rightarrow> server_event" where
  "peer_closes conn = OnConnection conn (Dispatch EPOLLIN (ReadOk []))"

lemma peer_closes_step:
  assumes "kernel_ok (k conn)" and "open_server conn c s" and "user_connection ucbs conn = None"
  shows "\<exists>c'. server_step k ucbs x0 (peer_closes conn) s =
      Inr (s\<lparr>server_shared := (server_shared s)\<lparr>removals := [conn]\<rparr>, alive := (alive s)(conn \<mapsto> c')\<rparr>) \<and>
    conn_state c' = kDisconnected \<and> conn_loop c' = conn_loop c \<and> posted c' = [] \<and>
    \<not> in_interest_list (channel c') \<and> events (channel c') = 0"
proof -
  note o = assms(2) [unfolded open_server_def]
  have inv: "conn_inv 0 c" and st: "conn_state c = kConnected" using o by blast+
  note open_c = open_writing [OF inv disjI1 [OF st]]
  have read: "read_fd (ReadOk []) (in_buffer c) = Inr ((0, None), in_buffer c)"
    using inv by (intro read_end_of_stream) (simp add: conn_inv_def)
  have "EPOLLIN AND EPOLLHUP = 0" "EPOLLIN AND EPOLLERR = 0" "EPOLLIN AND EPOLLOUT = 0"
    "EPOLLIN AND (EPOLLIN OR EPOLLPRI OR EPOLLRDHUP) \<noteq> 0"
    by (simp_all add: epoll_constants)
  then show ?thesis
    using o open_c(1,2) read assms(3)
    by (intro exI [of _ "c\<lparr>conn_state := kDisconnected, channel := (channel c)
            \<lparr>revents := EPOLLIN, events := 0, in_interest_list := False\<rparr>,
          sock := (sock c)\<lparr>calls := Suc (calls (sock c))\<rparr>\<rparr>"])
      (simp add: peer_closes_def handle_conn_events_def handle_events_def conn_channel_callbacks_def
        call_if_set_def handle_read_def set_revents_def handle_close_def set_state_def has_none_events_def
        on_channel_eq [OF assms(1)] server_callbacks_def run_callback_def remove_connection_def Let_def)
qed

section \<open>Properties\<close>

text \<open>C30: A call from another thread that tests \<open>state_\<close> before and acts after the peer's end of the
  stream was handled breaks what \<open>Tcp_Server\<close> shows of calls in one step. \<open>force_close\<close> turns the
  closed connection back to disconnecting, so that it closes a second time and the assertion that a
  connection is erased once ends the process; \<open>send\<close> queues a task that has only captured \<open>this\<close>,
  and that runs after the connection is gone.\<close>

theorem late_call_breaks_connection:
  assumes "kernel_ok (k conn)" and "open_server conn c s" and "user_connection ucbs conn = None"
  shows "foldE (busy_step k ucbs x0)
      [Check conn CallForceClose, Whole (peer_closes conn), Act, Whole (OnConnection conn RunPosted),
       Whole RunRemoval, Whole RunRemoval] \<lparr>srv = s, under_way = []\<rparr> = Inl AssertFailure \<and>
    foldE (busy_step k ucbs x0)
      [Check conn (CallSend d), Whole (peer_closes conn), Whole RunRemoval,
       Whole (OnConnection conn RunPosted), Act, Whole (Release conn), Whole (OnConnection conn RunPosted)]
      \<lparr>srv = s, under_way = []\<rparr> = Inl UseAfterFree"
proof -
  from peer_closes_step [of k conn c s ucbs x0] assms obtain c' where c':
    "server_step k ucbs x0 (peer_closes conn) s =
      Inr (s\<lparr>server_shared := (server_shared s)\<lparr>removals := [conn]\<rparr>, alive := (alive s)(conn \<mapsto> c')\<rparr>)"
    "conn_state c' = kDisconnected" "conn_loop c' = conn_loop c" "posted c' = []"
    "\<not> in_interest_list (channel c')" "events (channel c') = 0" by auto
  have whole: "(case peer_closes conn of Release j \<Rightarrow> P j | _ \<Rightarrow> False) \<longleftrightarrow> False" for P
    by (simp add: peer_closes_def)
  note o = assms(2) [unfolded open_server_def]
  show ?thesis
    using o c' assms(3)
    by (simp add: whole run_removal_def erase_connection_def post_def set_state_def release_def
        force_close_task_def handle_close_def has_none_events_def server_callbacks_def run_callback_def
        call_if_set_def remove_connection_def destroyed_def connection_dtor_def channel_dtor_iff Let_def
        del: server_step.simps(1))
qed

text \<open>A server that has accepted one connection.\<close>

lemma opened_run:
  assumes "server_ctor 0 3 True zero_sockaddr (0 :: nat) = Inr s0" and "server_start Suc True True s0 = Inr s"
  shows "\<exists>s1 c. foldE (server_step (\<lambda>_. slow_kernel) (answering_user ''hello'') ())
      [Incoming [Accepted 7 zero_sockaddr, AcceptErr 11], OnConnection 0 RunPosted] s = Inr s1 \<and> open_server 0 c s1"
proof -
  have user: "server_user (\<lambda>_. slow_kernel) 0 (answering_user ''hello'') 5"
    using slow_kernel_ok answering_user_good [of 0 "''hello''"] by unfold_locales (simp_all add: eval_nat_numeral)
  have inv: "server_inv 100 s" and base: "server_loop s = 0"
    using started_inv [OF assms(1) _ _ assms(2), of 100] by (simp_all add: max_string_size_def image_iff)
  note i = inv [unfolded server_inv_def]
  have new: "fresh s = 0" "server_shared s = \<lparr>connections = {}, removals = [], user_state = 0\<rparr>"
    using assms by (auto simp: server_ctor_def server_start_def start_task_def bindE_eq_Inr)
  from pool.pick [of "server_pool s"] i obtain l p where p: "next_loop True (server_pool s) = Inr (l, p)"
    "l \<in> pool_loops (server_pool s)" by blast
  then have l: "l \<noteq> 0" using i base by metis
  let ?evs = "[Incoming [Accepted 7 zero_sockaddr, AcceptErr 11], OnConnection 0 RunPosted]"
  have "\<exists>s1 c. foldE (server_step (\<lambda>_. slow_kernel) (answering_user ''hello'') ()) ?evs s = Inr s1 \<and>
      alive s1 0 = Some c \<and> conn_loop c \<noteq> server_loop s1 \<and> conn_state c = kConnected \<and> posted c = [] \<and>
      0 \<in> connections (server_shared s1) \<and> removals (server_shared s1) = []"
    using p(1) l base
    by (simp add: on_incoming_connection_def server_new_connection_def new Let_def post_def
        tcp_connection_ctor_def established_def set_state_def on_channel_eq [OF slow_kernel_ok]
        server_callbacks_def answering_user_def run_callback_def call_if_set_def)
  then obtain s1 c where s1: "foldE (server_step (\<lambda>_. slow_kernel) (answering_user ''hello'') ()) ?evs s = Inr s1"
    "alive s1 0 = Some c" "conn_loop c \<noteq> server_loop s1" "conn_state c = kConnected" "posted c = []"
    "0 \<in> connections (server_shared s1)" "removals (server_shared s1) = []" by blast
  have "server_inv (sum_list (map (server_cost 5) ?evs) + 0) s"
    using inv by (rule server_inv_mono) simp
  from server_user.server_run_fine [OF user this base, of "()"] s1(1) have "server_inv 0 s1"
    by (simp add: server_step_ok_def)
  then have "linked 0 (server_loop s1) 0 (server_shared s1) (Some c)"
    using s1(2) by (metis server_inv_def)
  then have "conn_inv 0 c" using s1(5) by (simp add: conn_wf_def posted_bytes_def)
  with s1 show ?thesis by (auto simp: open_server_def simp del: foldE.simps)
qed

theorem late_call_breaks_connection_witness:
  "\<exists>(s :: (nat, unit) server) c. open_server 0 c s \<and> foldE (busy_step (\<lambda>_. slow_kernel) (answering_user ''hello'') ())
      [Check 0 CallForceClose, Whole (peer_closes 0), Act, Whole (OnConnection 0 RunPosted),
       Whole RunRemoval, Whole RunRemoval] \<lparr>srv = s, under_way = []\<rparr> = Inl AssertFailure \<and>
    foldE (busy_step (\<lambda>_. slow_kernel) (answering_user ''hello'') ())
      [Check 0 (CallSend ''x''), Whole (peer_closes 0), Whole RunRemoval,
       Whole (OnConnection 0 RunPosted), Act, Whole (Release 0), Whole (OnConnection 0 RunPosted)]
      \<lparr>srv = s, under_way = []\<rparr> = Inl UseAfterFree"
proof -
  obtain s0 :: "(nat, unit) server" where s0: "server_ctor 0 3 True zero_sockaddr (0 :: nat) = Inr s0"
    by (simp add: server_ctor_def pool_ctor_def kNumThreads_def)
  from start_succeeds [OF s0, of Suc] obtain s where s: "server_start Suc True True s0 = Inr s" by blast
  from opened_run [OF s0 s] obtain s1 :: "(nat, unit) server" and c where o: "open_server 0 c s1" by blast
  have "user_connection (answering_user ''hello'') 0 = None" by (simp add: answering_user_def)
  from late_call_breaks_connection [OF slow_kernel_ok o this] o show ?thesis by blast
qed

end
