(* ===== verification/Stale_Report.thy ===== *)
theory Stale_Report
  imports Cross_Thread
begin

text \<open>
  Reports that have become stale. \<open>EventLoop::loop\<close> handles the channels of one \<open>wait\<close> one after the
  other. \<open>Tcp_Server\<close> lets a connection handle events as long as its channel is registered, which is what
  the kernel reports; but a callback of an earlier channel may close a later one of the same loop in the
  meantime, and the loop calls its \<open>handle_events\<close> all the same: that is \<open>handle_report\<close>. The HTTP server
  never does this, since its callbacks only act on their own connection; that then the two agree, in the
  whole of an iteration, is shown in \<open>Loop_Iterations\<close>.
\<close>

section \<open>What a stale report does\<close>

text \<open>A connection is closed by a callback while its end of stream is still to be handled: the handler
  turns it back to disconnecting, closes it again and queues a second removal, which fails the assertion
  that a connection is erased once.\<close>

theorem stale_report_closes_twice:
  assumes "kernel_ok (k conn)" and "open_server conn c s" and "user_connection ucbs conn = None"
  shows "bindE (server_step k ucbs x0 (OnConnection conn (ForceClose True)) s) (\<lambda>s1.
     bindE (handle_report k ucbs conn EPOLLIN (ReadOk []) s1)
       (foldE (server_step k ucbs x0) [RunRemoval, RunRemoval])) = Inl AssertFailure"
proof -
  note o = assms(2) [unfolded open_server_def]
  have inv: "conn_inv 0 c" and st: "conn_state c = kConnected" using o by blast+
  note open_c = open_writing [OF inv disjI1 [OF st]]
  have read: "read_fd (ReadOk []) (in_buffer c) = Inr ((0, None), in_buffer c)"
    using inv by (intro read_end_of_stream) (simp add: conn_inv_def)
  have masks: "EPOLLIN AND EPOLLHUP = 0" "EPOLLIN AND EPOLLERR = 0" "EPOLLIN AND EPOLLOUT = 0"
    "EPOLLIN AND (EPOLLIN OR EPOLLPRI OR EPOLLRDHUP) \<noteq> 0"
    by (simp_all add: epoll_constants)
  show ?thesis
    using o open_c(1,2) read assms(3) masks
    by (simp add: force_close_def force_close_task_def handle_report_def handle_conn_events_def handle_events_def
        conn_channel_callbacks_def call_if_set_def handle_read_def set_revents_def handle_close_def set_state_def
        has_none_events_def on_channel_eq [OF assms(1)] server_callbacks_def run_callback_def remove_connection_def
        run_removal_def erase_connection_def post_def Let_def)
qed

theorem stale_report_closes_twice_witness:
  "\<exists>(s :: (nat, unit) server) c. open_server 0 c s \<and>
    bindE (server_step (\<lambda>_. slow_kernel) (answering_user ''hello'') () (OnConnection 0 (ForceClose True)) s) (\<lambda>s1.
     bindE (handle_report (\<lambda>_. slow_kernel) (answering_user ''hello'') 0 EPOLLIN (ReadOk []) s1)
       (foldE (server_step (\<lambda>_. slow_kernel) (answering_user ''hello'') ()) [RunRemoval, RunRemoval])) = Inl AssertFailure"
proof -
  obtain s0 :: "(nat, unit) server" where s0: "server_ctor 0 3 True zero_sockaddr (0 :: nat) = Inr s0"
    by (simp add: server_ctor_def pool_ctor_def kNumThreads_def)
  from start_succeeds [OF s0, of Suc] obtain s where s: "server_start Suc True True s0 = Inr s" by blast
  from opened_run [OF s0 s] obtain s1 :: "(nat, unit) server" and c where o: "open_server 0 c s1" by blast
  have "user_connection (answering_user ''hello'') 0 = None" by (simp add: answering_user_def)
  from stale_report_closes_twice [OF slow_kernel_ok o this] o show ?thesis by blast
qed

end
