(* ===== verification/Conn_Context.thy ===== *)
theory Conn_Context
  imports Tcp_Server
begin

text \<open>
  The context that a user stores in a connection (\<open>set_context\<close> of \<open>wuduo/tcp_connection.h\<close>) belongs
  to the callbacks: no operation of the connection touches it. A property of the context that the
  callbacks keep is therefore kept by every event of the connection.
\<close>

definition ctx_ok :: "('x \<Rightarrow> bool) \<Rightarrow> 'x connection \<Rightarrow> bool" where
  "ctx_ok P c \<longleftrightarrow> P (conn_context c)"

text \<open>The operation keeps the property of the context.\<close>

definition keeps_context :: "('x \<Rightarrow> bool) \<Rightarrow> ('w \<times> 'x connection \<Rightarrow> ('w \<times> 'x connection) result) \<Rightarrow> bool" where
  "keeps_context P f \<longleftrightarrow> (\<forall>s s'. ctx_ok P (snd s) \<longrightarrow> f s = Inr s' \<longrightarrow> ctx_ok P (snd s'))"

definition same_context :: "'x connection \<Rightarrow> 'x connection \<Rightarrow> bool" where
  "same_context c c' \<longleftrightarrow> conn_context c' = conn_context c"

lemma same_context_ok: "same_context c c' \<Longrightarrow> ctx_ok P c \<Longrightarrow> ctx_ok P c'"
  by (simp add: same_context_def ctx_ok_def)

lemma ctx_ok_simps [simp]:
  "ctx_ok P (c\<lparr>posted := ts\<rparr>) = ctx_ok P c" "ctx_ok P (c\<lparr>in_buffer := b\<rparr>) = ctx_ok P c"
  "ctx_ok P (c\<lparr>channel := ch\<rparr>) = ctx_ok P c" "ctx_ok P (c\<lparr>sock := so\<rparr>) = ctx_ok P c"
  "ctx_ok P (set_state st c) = ctx_ok P c" "ctx_ok P (post t c) = ctx_ok P c"
  by (simp_all add: ctx_ok_def set_state_def post_def)

lemma on_channel_context [dest]: "on_channel f k here c = Inr c' \<Longrightarrow> same_context c c'"
  by (auto simp: on_channel_def bindE_eq_Inr same_context_def)

lemma on_socket_context [dest]: "on_socket k d c = (r, c') \<Longrightarrow> same_context c c'"
  by (auto simp: on_socket_def same_context_def split: prod.splits)

lemma send_in_loop_context: "send_in_loop k here d c = Inr c' \<Longrightarrow> same_context c c'"
  by (auto simp: send_in_loop_def bindE_eq_Inr Let_def split: if_splits prod.splits write_result.splits
      dest!: on_channel_context on_socket_context) (auto simp: same_context_def)

lemma handle_write_context: "handle_write k here c = Inr c' \<Longrightarrow> same_context c c'"
  unfolding handle_write_def shutdown_quiet
  by (auto simp: bindE_eq_Inr Let_def split: if_splits prod.splits write_result.splits
      dest!: on_channel_context on_socket_context) (auto simp: same_context_def)

lemma send_data_context: "send_data k here d c = Inr c' \<Longrightarrow> same_context c c'"
  using send_in_loop_context by (fastforce simp: send_data_def same_context_def post_def split: if_splits)

lemma shutdown_context: "same_context c (shutdown k here c)"
  by (simp add: same_context_def shutdown_def shutdown_task_def set_state_def post_def Let_def)

definition callbacks_keep :: "('x \<Rightarrow> bool) \<Rightarrow> ('w, 'x) conn_callbacks \<Rightarrow> bool" where
  "callbacks_keep P cbs \<longleftrightarrow>
     keeps_context P (run_callback (connection_cb cbs)) \<and> keeps_context P (run_callback (message_cb cbs)) \<and>
     keeps_context P (run_callback (close_cb cbs))"

lemma keepsD: "keeps_context P f \<Longrightarrow> ctx_ok P (snd s) \<Longrightarrow> f s = Inr s' \<Longrightarrow> ctx_ok P (snd s')"
  unfolding keeps_context_def by blast

lemma keepsI: "(\<And>s s'. ctx_ok P (snd s) \<Longrightarrow> f s = Inr s' \<Longrightarrow> ctx_ok P (snd s')) \<Longrightarrow> keeps_context P f"
  unfolding keeps_context_def by blast

lemma keeps_conn: "(\<And>c c'. f c = Inr c' \<Longrightarrow> same_context c c') \<Longrightarrow> keeps_context P (\<lambda>s. bindE (f (snd s)) (\<lambda>c. Inr (fst s, c)))"
  by (rule keepsI) (auto simp: bindE_eq_Inr same_context_def ctx_ok_def)

lemma leave_context:
  "(if \<not> has_none_events (channel (set_state st c)) then on_channel disable_all k here (set_state st c)
    else Inr (set_state st c)) = Inr c' \<Longrightarrow> same_context c c'"
  using on_channel_context [of disable_all k here "set_state st c" c']
  by (auto simp: same_context_def set_state_def split: if_splits)

lemma callbacksD:
  assumes "callbacks_keep P cbs"
  shows "keeps_context P (run_callback (connection_cb cbs))" "keeps_context P (run_callback (message_cb cbs))"
    "keeps_context P (run_callback (close_cb cbs))"
  using assms by (simp_all add: callbacks_keep_def)

lemma handle_close_context_kept:
  assumes "callbacks_keep P cbs"
  shows "keeps_context P (handle_close k cbs here)"
proof (rule keepsI)
  fix s s'
  assume t: "ctx_ok P (snd s)" and run: "handle_close k cbs here s = Inr s'"
  then obtain c2 s3 where c2: "(if \<not> has_none_events (channel (set_state kDisconnected (snd s)))
      then on_channel disable_all k here (set_state kDisconnected (snd s))
      else Inr (set_state kDisconnected (snd s))) = Inr c2"
    and s3: "run_callback (connection_cb cbs) (fst s, c2) = Inr s3" "run_callback (close_cb cbs) s3 = Inr s'"
    by (auto simp: handle_close_def bindE_eq_Inr Let_def)
  have "ctx_ok P (snd (fst s, c2))" using same_context_ok [OF leave_context [OF c2] t] by simp
  from keepsD [OF callbacksD(3) [OF assms] keepsD [OF callbacksD(1) [OF assms] this s3(1)] s3(2)]
  show "ctx_ok P (snd s')" .
qed

lemma force_close_task_context_kept: "callbacks_keep P cbs \<Longrightarrow> keeps_context P (force_close_task k cbs here)"
  using handle_close_context_kept [of P cbs k here] by (auto simp: keeps_context_def force_close_task_def)

lemma force_close_context_kept:
  assumes "callbacks_keep P cbs"
  shows "keeps_context P (force_close k cbs here)"
proof (rule keepsI)
  fix s s'
  assume t: "ctx_ok P (snd s)" and run: "force_close k cbs here s = Inr s'"
  have "ctx_ok P (snd (fst s, set_state kDisconnecting (snd s)))" using t by simp
  from keepsD [OF force_close_task_context_kept [OF assms] this] run t show "ctx_ok P (snd s')"
    by (auto simp: force_close_def Let_def split: if_splits)
qed

lemma established_context_kept:
  assumes "callbacks_keep P cbs"
  shows "keeps_context P (established k cbs here)"
proof (rule keepsI)
  fix s s'
  assume t: "ctx_ok P (snd s)" and run: "established k cbs here s = Inr s'"
  then obtain c where c: "on_channel enable_reading k here (set_state kConnected (snd s)) = Inr c"
    "run_callback (connection_cb cbs) (fst s, c) = Inr s'"
    by (auto simp: established_def bindE_eq_Inr)
  have "ctx_ok P (snd (fst s, c))" using same_context_ok [OF on_channel_context [OF c(1)]] t by simp
  from keepsD [OF callbacksD(1) [OF assms] this c(2)] show "ctx_ok P (snd s')" .
qed

lemma destroyed_context_kept:
  assumes "callbacks_keep P cbs"
  shows "keeps_context P (destroyed k cbs here)"
proof (rule keepsI)
  fix s s'
  assume t: "ctx_ok P (snd s)" and run: "destroyed k cbs here s = Inr s'"
  show "ctx_ok P (snd s')"
  proof (cases "conn_state (snd s) = kConnected")
    case True
    with run obtain c where c: "(if \<not> has_none_events (channel (set_state kDisconnected (snd s)))
        then on_channel disable_all k here (set_state kDisconnected (snd s))
        else Inr (set_state kDisconnected (snd s))) = Inr c"
      "run_callback (connection_cb cbs) (fst s, c) = Inr s'"
      by (auto simp: destroyed_def bindE_eq_Inr Let_def)
    have "ctx_ok P (snd (fst s, c))" using same_context_ok [OF leave_context [OF c(1)] t] by simp
    from keepsD [OF callbacksD(1) [OF assms] this c(2)] show ?thesis .
  next
    case False
    with run t show ?thesis by (auto simp: destroyed_def bindE_eq_Inr)
  qed
qed

lemma run_conn_task_context_kept:
  assumes "callbacks_keep P cbs"
  shows "keeps_context P (run_conn_task k cbs t)"
proof (cases t)
  case (SendTask d)
  have "run_conn_task k cbs t = (\<lambda>s. bindE (send_in_loop k True d (snd s)) (\<lambda>c. Inr (fst s, c)))"
    by (simp add: SendTask fun_eq_iff)
  then show ?thesis by (simp only:) (rule keeps_conn [OF send_in_loop_context])
next
  case ShutdownTask
  then show ?thesis by (intro keepsI) (auto simp: shutdown_task_def)
next
  case EstablishTask
  then have "run_conn_task k cbs t = established k cbs True" by (simp add: fun_eq_iff)
  then show ?thesis using established_context_kept [OF assms] by simp
next
  case ForceCloseTask
  then have "run_conn_task k cbs t = force_close_task k cbs True" by (simp add: fun_eq_iff)
  then show ?thesis using force_close_task_context_kept [OF assms] by simp
next
  case DestroyTask
  then have "run_conn_task k cbs t = destroyed k cbs True" by (simp add: fun_eq_iff)
  then show ?thesis using destroyed_context_kept [OF assms] by simp
qed

lemma handle_read_context_kept:
  assumes "callbacks_keep P cbs"
  shows "keeps_context P (handle_read k cbs here answer)"
proof (rule keepsI)
  fix s s'
  assume t: "ctx_ok P (snd s)" and run: "handle_read k cbs here answer s = Inr s'"
  then obtain x where here and x: "read_fd answer (in_buffer (snd s)) = Inr x"
    by (cases "read_fd answer (in_buffer (snd s))") (auto simp: handle_read_def bindE_assertE split: if_splits)
  moreover obtain n e b where "x = ((n, e), b)" by (cases x) auto
  ultimately have r: "(if n > 0 then run_callback (message_cb cbs) (fst s, (snd s)\<lparr>in_buffer := b\<rparr>)
     else if n = 0 then handle_close k cbs here (fst s, set_state kDisconnecting ((snd s)\<lparr>in_buffer := b\<rparr>))
     else if n = -1 \<and> e \<noteq> Some EAGAIN then handle_error k cbs here (fst s, (snd s)\<lparr>in_buffer := b\<rparr>)
     else Inr (fst s, (snd s)\<lparr>in_buffer := b\<rparr>)) = Inr s'"
    using run by (simp add: handle_read_def Let_def cong: if_cong)
  have c: "ctx_ok P (snd (fst s, (snd s)\<lparr>in_buffer := b\<rparr>))"
    "ctx_ok P (snd (fst s, set_state kDisconnecting ((snd s)\<lparr>in_buffer := b\<rparr>)))" using t by simp_all
  from r keepsD [OF callbacksD(2) [OF assms] c(1)] keepsD [OF handle_close_context_kept [OF assms] c(2)]
    keepsD [OF force_close_context_kept [OF assms] c(1)] c(1)
  show "ctx_ok P (snd s')" by (auto simp: handle_error_def split: if_splits)
qed

lemma conn_events_context_kept:
  assumes "callbacks_keep P cbs"
  shows "keeps_context P (handle_conn_events k cbs here answer)"
proof (rule keepsI)
  fix s s'
  assume t: "ctx_ok P (snd s)" and run: "handle_conn_events k cbs here answer s = Inr s'"
  let ?e = "revents (channel (snd s))"
  have "handle_conn_events k cbs here answer s = bindE (assertE here) (\<lambda>_.
      bindE (if ?e AND (EPOLLIN OR EPOLLPRI OR EPOLLRDHUP) \<noteq> 0 then handle_read k cbs here answer s else Inr s) (\<lambda>s1.
      if ?e AND EPOLLOUT \<noteq> 0 then bindE (handle_write k here (snd s1)) (\<lambda>c. Inr (fst s1, c)) else Inr s1))"
    by (simp add: handle_conn_events_def handle_events_def conn_channel_callbacks_def call_if_set_def cong: if_cong)
  with run obtain s1 where
    "(if ?e AND (EPOLLIN OR EPOLLPRI OR EPOLLRDHUP) \<noteq> 0 then handle_read k cbs here answer s else Inr s) = Inr s1"
    "(if ?e AND EPOLLOUT \<noteq> 0 then bindE (handle_write k here (snd s1)) (\<lambda>c. Inr (fst s1, c)) else Inr s1) = Inr s'"
    by (auto simp only: bindE_eq_Inr)
  then have "s1 = s \<or> handle_read k cbs here answer s = Inr s1"
    "s' = s1 \<or> bindE (handle_write k here (snd s1)) (\<lambda>c. Inr (fst s1, c)) = Inr s'"
    by (auto split: if_splits)
  moreover have "ctx_ok P (snd s')"
    if "bindE (handle_write k here (snd s1)) (\<lambda>c. Inr (fst s1, c)) = Inr s'" "ctx_ok P (snd s1)"
    using keepsD [OF keeps_conn [of "handle_write k here", OF handle_write_context] that(2,1)] .
  ultimately show "ctx_ok P (snd s')" using keepsD [OF handle_read_context_kept [OF assms] t] t by blast
qed

lemma conn_step_context_kept:
  assumes "callbacks_keep P cbs" and "ctx_ok P c" and "conn_step k cbs ev (w, c) = Inr (w', c')"
  shows "ctx_ok P c'"
proof (cases ev)
  case (Dispatch e answer)
  then show ?thesis
    using assms(2,3) keepsD [OF conn_events_context_kept [OF assms(1)], of "(w, c\<lparr>channel := set_revents e (channel c)\<rparr>)"]
    by (auto split: if_splits)
next
  case RunPosted
  then show ?thesis
    using assms(2,3) keepsD [OF run_conn_task_context_kept [OF assms(1)], of "(w, c\<lparr>posted := _\<rparr>)"]
    by (auto split: list.splits)
next
  case (Send here d)
  then have "send_data k here d c = Inr c'" using assms(3) by (auto simp: bindE_eq_Inr)
  from same_context_ok [OF send_data_context [OF this] assms(2)] show ?thesis .
next
  case (Shutdown here)
  then show ?thesis using assms(2,3) same_context_ok [OF shutdown_context] by auto
next
  case (ForceClose here)
  then show ?thesis using assms(2,3) keepsD [OF force_close_context_kept [OF assms(1)], of "(w, c)"] by auto
qed

section \<open>From the connection callback on\<close>

text \<open>A property that the connection callback gives to an open connection, and that the callbacks
  keep, holds of every connection that is no longer connecting.\<close>

definition ctx_held :: "('x \<Rightarrow> bool) \<Rightarrow> 'x connection \<Rightarrow> bool" where
  "ctx_held P c \<longleftrightarrow> (conn_state c \<noteq> kConnecting \<longrightarrow> ctx_ok P c)"

lemma conn_step_held:
  assumes "callbacks_keep P cbs" and "conn_wf n c" and "ctx_held P c"
    and gives: "\<And>s s'. conn_state (snd s) = kConnected \<Longrightarrow> run_callback (connection_cb cbs) s = Inr s' \<Longrightarrow>
      ctx_ok P (snd s')"
    and step: "conn_step k cbs ev (w, c) = Inr (w', c')"
  shows "ctx_held P c'"
proof (cases "conn_state c = kConnecting")
  case False
  with assms(3) have "ctx_ok P c" by (simp add: ctx_held_def)
  from conn_step_context_kept [OF assms(1) this step] show ?thesis by (simp add: ctx_held_def)
next
  case True
  with assms(2) have c: "posted c = [EstablishTask]" "\<not> in_interest_list (channel c)"
    by (simp_all add: conn_wf_def conn_inv_def)
  show ?thesis
  proof (cases "ev = RunPosted")
    case False
    then have "c' = c"
      using True c step by (cases ev) (auto simp: send_data_def shutdown_def force_close_def)
    with assms(3) show ?thesis by simp
  next
    case True
    with step c(1) obtain c1 where
      c1: "on_channel enable_reading k True (set_state kConnected (c\<lparr>posted := []\<rparr>)) = Inr c1"
      and cb: "run_callback (connection_cb cbs) (w, c1) = Inr (w', c')"
      by (auto simp: established_def bindE_eq_Inr)
    have "conn_state c1 = kConnected"
      using on_channel_frame [OF c1] by (simp add: same_frame_def set_state_def)
    with gives [OF _ cb] show ?thesis by (simp add: ctx_held_def)
  qed
qed

end
