(* ===== verification/Http_Request.thy ===== *)
theory Http_Request
  imports Prelude
begin

text \<open>
  Requests: \<open>wuduo/http/http_request.h\<close> and \<open>wuduo/http/http_request.cpp\<close>. A parse that the
  code refuses is \<open>Inr None\<close> (\<open>std::nullopt\<close>) or \<open>False\<close>; a parse that ends the process is
  \<open>Inl\<close> of the error. The header fields, an \<open>unordered_map\<close> only looked up and emplaced
  into, are a map.
\<close>

section \<open>Request lines\<close>

datatype http_method = kGet | kHead | kPost | kUnknownMethod

datatype http_version = kHttp10 | kHttp11 | kUnknownVersion

record request_line =
  req_method :: http_method
  url :: bytes
  path :: bytes
  query :: bytes
  version :: http_version

definition default_request_line :: request_line where
  "default_request_line =
     \<lparr>req_method = kUnknownMethod, url = [], path = [], query = [], version = kUnknownVersion\<rparr>"

abbreviation sp :: char where
  "sp \<equiv> CHR '' ''"

abbreviation cr :: char where
  "cr \<equiv> CHR 0x0D"

definition method_from :: "bytes \<Rightarrow> http_method option" where
  "method_from m =
     (if m = ''GET'' then Some kGet else if m = ''HEAD'' then Some kHead
      else if m = ''POST'' then Some kPost else None)"

definition version_from :: "bytes \<Rightarrow> http_version option" where
  "version_from v =
     (if v = ''HTTP/1.0'' then Some kHttp10 else if v = ''HTTP/1.1'' then Some kHttp11 else None)"

text \<open>Path and query of a URL. For the empty URL the length given to \<open>std::string\<close> wraps around
  to the largest \<open>size_t\<close>, and the constructor throws.\<close>

definition path_query_from :: "bytes \<Rightarrow> (bytes \<times> bytes) result" where
  "path_query_from u =
     (case find_char (CHR ''?'') u of
        Some question_pos \<Rightarrow> Inr (take question_pos u, drop question_pos u)
      | None \<Rightarrow>
          if u = ''/'' then Inr (''index.html'', [])
          else if max_string_size < size_sub (length u) 1 then Inl LengthError
          else Inr (drop 1 u, []))"

definition request_line_from_parts ::
    "bytes \<Rightarrow> bytes \<Rightarrow> bytes \<Rightarrow> request_line option result" where
  "request_line_from_parts m u v =
     (case method_from m of
        None \<Rightarrow> Inr None
      | Some me \<Rightarrow>
          bindE (path_query_from u) (\<lambda>(p, q).
          case version_from v of
            None \<Rightarrow> Inr None
          | Some ve \<Rightarrow>
              Inr (Some \<lparr>req_method = me, url = u, path = p, query = q, version = ve\<rparr>)))"

definition request_line_from :: "bytes \<Rightarrow> request_line option result" where
  "request_line_from line0 =
     (let line = (case find_char cr line0 of None \<Rightarrow> line0 | Some pos_cr_lf \<Rightarrow> take pos_cr_lf line0) in
      case find_char sp line of
        None \<Rightarrow> Inr None
      | Some space_pos \<Rightarrow>
          let m = take space_pos line in
          bindE (assertE (space_pos + 1 < length line)) (\<lambda>_.
          let line1 = drop (space_pos + 1) line in
          case find_char sp line1 of
            None \<Rightarrow> Inr None
          | Some space_pos1 \<Rightarrow>
              let u = take space_pos1 line1 in
              bindE (assertE (space_pos1 + 1 < length line1)) (\<lambda>_.
              request_line_from_parts m u (drop (space_pos1 + 1) line1))))"

fun method_name :: "http_method \<Rightarrow> bytes" where
  "method_name kGet = ''GET''"
| "method_name kHead = ''HEAD''"
| "method_name kPost = ''POST''"
| "method_name kUnknownMethod = ''UNKNOWN''"

fun version_name :: "http_version \<Rightarrow> bytes" where
  "version_name kHttp10 = ''HTTP/1.0''"
| "version_name kHttp11 = ''HTTP/1.1''"
| "version_name kUnknownVersion = ''UNKNOWN VERSION''"

definition request_line_to_string :: "request_line \<Rightarrow> bytes" where
  "request_line_to_string l =
     method_name (req_method l) @ '' '' @ url l @ '' '' @ version_name (version l)"

section \<open>Requests\<close>

record http_request =
  req_line :: request_line
  headers :: "bytes \<rightharpoonup> bytes"

definition new_request :: http_request where
  "new_request = \<lparr>req_line = default_request_line, headers = Map.empty\<rparr>"

definition set_request_line_from :: "bytes \<Rightarrow> http_request \<Rightarrow> (bool \<times> http_request) result" where
  "set_request_line_from line r =
     bindE (request_line_from line) (\<lambda>l.
     Inr (case l of None \<Rightarrow> (False, r) | Some l' \<Rightarrow> (True, r\<lparr>req_line := l'\<rparr>)))"

definition add_header_from :: "bytes \<Rightarrow> http_request \<Rightarrow> bool \<times> http_request" where
  "add_header_from line r =
     (case find_char (CHR '':'') line of
        None \<Rightarrow> (False, r)
      | Some pos_colon \<Rightarrow>
          case find_not_char sp line (pos_colon + 1) of
            None \<Rightarrow> (False, r)
          | Some pos_value \<Rightarrow>
              let key = take pos_colon line; val = drop pos_value line in
              if key \<in> dom (headers r) then (False, r)
              else (True, r\<lparr>headers := (headers r)(key \<mapsto> val)\<rparr>))"

definition get_header :: "bytes \<Rightarrow> http_request \<Rightarrow> bytes option" where
  "get_header key r = headers r key"

definition swap_requests :: "http_request \<times> http_request \<Rightarrow> http_request \<times> http_request" where
  "swap_requests p =
     (let a = fst p; b = snd p in
      (\<lparr>req_line = req_line b, headers = headers b\<rparr>, \<lparr>req_line = req_line a, headers = headers a\<rparr>))"

definition is_close_connection :: "http_request \<Rightarrow> bool" where
  "is_close_connection r =
     (case get_header ''Connection'' r of
        None \<Rightarrow> True
      | Some v \<Rightarrow> v \<noteq> ''keep-alive'' \<and> v \<noteq> ''Keep-Alive'')"

section \<open>Lemmas\<close>

text \<open>The line up to the first CR, which is all the parser looks at.\<close>

definition cut_at_cr :: "bytes \<Rightarrow> bytes" where
  "cut_at_cr s = takeWhile (\<lambda>c. c \<noteq> cr) s"

lemma cut_at_cr_eq:
  "(case find_char cr s of None \<Rightarrow> s | Some i \<Rightarrow> take i s) = cut_at_cr s"
proof (cases "find_char cr s")
  case None
  then have "cut_at_cr s = s"
    unfolding cut_at_cr_def takeWhile_eq_all_conv by (auto simp: find_char_eq_None)
  with None show ?thesis by simp
next
  case (Some i)
  from find_char_SomeD [OF Some] have "takeWhile (\<lambda>c. c \<noteq> cr) s = take i s"
    by (intro takeWhile_eq_take_P_nth) (auto simp: in_set_conv_nth)
  with Some show ?thesis by (simp add: cut_at_cr_def)
qed

lemma cut_at_cr_id: "cr \<notin> set s \<Longrightarrow> cut_at_cr s = s"
  unfolding cut_at_cr_def takeWhile_eq_all_conv by auto

lemma method_from_name: "method_from m = Some me \<longleftrightarrow> m = method_name me \<and> me \<noteq> kUnknownMethod"
  by (cases me) (auto simp: method_from_def)

lemma version_from_name:
  "version_from v = Some ve \<longleftrightarrow> v = version_name ve \<and> ve \<noteq> kUnknownVersion"
  by (cases ve) (auto simp: version_from_def)

lemma version_name_nonempty [simp]: "version_name v \<noteq> []"
  by (cases v) simp_all

lemma sp_in_method_name: "me \<noteq> kUnknownMethod \<Longrightarrow> sp \<notin> set (method_name me)"
  "cr \<notin> set (method_name me)"
  by (cases me; simp)+

lemma cr_in_version_name: "cr \<notin> set (version_name v)"
  by (cases v; simp)

text \<open>The parser splits at the first and the second space.\<close>

definition parse_split :: "bytes \<Rightarrow> request_line option result" where
  "parse_split line =
     (case find_char sp line of
        None \<Rightarrow> Inr None
      | Some i \<Rightarrow>
          bindE (assertE (i + 1 < length line)) (\<lambda>_.
          case find_char sp (drop (i + 1) line) of
            None \<Rightarrow> Inr None
          | Some j \<Rightarrow>
              bindE (assertE (j + 1 < length (drop (i + 1) line))) (\<lambda>_.
              request_line_from_parts (take i line) (take j (drop (i + 1) line))
                (drop (j + 1) (drop (i + 1) line)))))"

lemma request_line_from_split: "request_line_from s = parse_split (cut_at_cr s)"
  by (simp only: request_line_from_def parse_split_def cut_at_cr_eq Let_def)

lemma parse_split_three:
  assumes "sp \<notin> set m" "sp \<notin> set u" "v \<noteq> []"
  shows "parse_split (m @ sp # u @ sp # v) = request_line_from_parts m u v"
  using assms by (simp add: parse_split_def)

lemma parse_split_shape:
  "(sp \<notin> set line \<and> parse_split line = Inr None) \<or>
   (\<exists>m. sp \<notin> set m \<and> line = m @ [sp] \<and> parse_split line = Inl AssertFailure) \<or>
   (\<exists>m r. sp \<notin> set m \<and> sp \<notin> set r \<and> r \<noteq> [] \<and> line = m @ sp # r \<and> parse_split line = Inr None) \<or>
   (\<exists>m u. sp \<notin> set m \<and> sp \<notin> set u \<and> line = m @ sp # u @ [sp]
      \<and> parse_split line = Inl AssertFailure) \<or>
   (\<exists>m u v. sp \<notin> set m \<and> sp \<notin> set u \<and> v \<noteq> [] \<and> line = m @ sp # u @ sp # v
      \<and> parse_split line = request_line_from_parts m u v)"
proof (cases "find_char sp line")
  case None
  then show ?thesis by (simp add: parse_split_def find_char_eq_None)
next
  case (Some i)
  define m r where "m = take i line" and "r = drop (Suc i) line"
  have line: "line = m @ sp # r" and m: "sp \<notin> set m"
    using find_char_split [OF Some] find_char_SomeD [OF Some] by (simp_all add: m_def r_def)
  show ?thesis
  proof (cases "find_char sp r")
    case None
    then have r: "sp \<notin> set r" by (simp add: find_char_eq_None)
    show ?thesis
    proof (cases "r = []")
      case True
      with line m have "sp \<notin> set m \<and> line = m @ [sp] \<and> parse_split line = Inl AssertFailure"
        by (simp add: parse_split_def)
      then show ?thesis by blast
    next
      case False
      with line m r have "parse_split line = Inr None" by (simp add: parse_split_def)
      with False line m r show ?thesis by blast
    qed
  next
    case (Some j)
    define u v where "u = take j r" and "v = drop (Suc j) r"
    have r: "r = u @ sp # v" and u: "sp \<notin> set u"
      using find_char_split [OF Some] find_char_SomeD [OF Some] by (simp_all add: u_def v_def)
    show ?thesis
    proof (cases "v = []")
      case True
      with line m r u have "line = m @ sp # u @ [sp] \<and> parse_split line = Inl AssertFailure"
        by (simp add: parse_split_def)
      with m u show ?thesis by blast
    next
      case False
      with line r parse_split_three [OF m u False] m u show ?thesis by blast
    qed
  qed
qed

lemma from_parts_Some:
  assumes "request_line_from_parts m u v = Inr (Some l)"
  shows "m = method_name (req_method l)" "u = url l" "v = version_name (version l)"
    "req_method l \<noteq> kUnknownMethod" "version l \<noteq> kUnknownVersion"
    "path_query_from u = Inr (path l, query l)"
  using assms
  by (auto simp: request_line_from_parts_def bindE_eq_Inr method_from_name version_from_name
      split: option.splits)

lemma from_parts_print:
  assumes "req_method l \<noteq> kUnknownMethod" "version l \<noteq> kUnknownVersion"
    and "path_query_from (url l) = Inr (path l, query l)"
  shows "request_line_from_parts (method_name (req_method l)) (url l) (version_name (version l))
    = Inr (Some l)"
proof -
  have "method_from (method_name (req_method l)) = Some (req_method l)"
    "version_from (version_name (version l)) = Some (version l)"
    using assms(1,2) by (simp_all add: method_from_name version_from_name)
  with assms(3) show ?thesis by (simp add: request_line_from_parts_def)
qed

text \<open>The lines on which the parser ends the process.\<close>

definition fatal_line :: "bytes \<Rightarrow> bool" where
  "fatal_line line \<longleftrightarrow>
     (\<exists>m. sp \<notin> set m \<and> line = m @ [sp]) \<or>
     (\<exists>m u. sp \<notin> set m \<and> sp \<notin> set u \<and> line = m @ sp # u @ [sp]) \<or>
     (\<exists>m v. m \<in> {''GET'', ''HEAD'', ''POST''} \<and> v \<noteq> [] \<and> line = m @ sp # sp # v)"

lemma fatal_line_no_space: "sp \<notin> set line \<Longrightarrow> \<not> fatal_line line"
  by (auto simp: fatal_line_def)

lemma fatal_line_split:
  assumes "sp \<notin> set m"
  shows "fatal_line (m @ sp # r) \<longleftrightarrow>
     r = [] \<or> (\<exists>u. sp \<notin> set u \<and> r = u @ [sp]) \<or>
     (m \<in> {''GET'', ''HEAD'', ''POST''} \<and> (\<exists>v. v \<noteq> [] \<and> r = sp # v))"
proof -
  have "(\<exists>m'. sp \<notin> set m' \<and> m @ sp # r = m' @ [sp]) \<longleftrightarrow> r = []"
    using split_at_unique [of sp m _ r "[]"] assms by auto
  moreover have "(\<exists>m' u. sp \<notin> set m' \<and> sp \<notin> set u \<and> m @ sp # r = m' @ sp # u @ [sp])
      \<longleftrightarrow> (\<exists>u. sp \<notin> set u \<and> r = u @ [sp])"
    using split_at_unique [of sp m] assms by auto
  moreover have "(\<exists>m' v. m' \<in> {''GET'', ''HEAD'', ''POST''} \<and> v \<noteq> [] \<and> m @ sp # r = m' @ sp # sp # v)
      \<longleftrightarrow> m \<in> {''GET'', ''HEAD'', ''POST''} \<and> (\<exists>v. v \<noteq> [] \<and> r = sp # v)"
  proof -
    have "sp \<notin> set m'" if "m' \<in> {''GET'', ''HEAD'', ''POST''}" for m'
      using that by auto
    then show ?thesis using split_at_unique [of sp m] assms by metis
  qed
  ultimately show ?thesis by (simp only: fatal_line_def)
qed

lemma fatal_rest:
  assumes "sp \<notin> set u" "v \<noteq> []"
  shows "(\<exists>u'. sp \<notin> set u' \<and> u @ sp # v = u' @ [sp]) \<longleftrightarrow> False"
    and "(\<exists>v'. v' \<noteq> [] \<and> u @ sp # v = sp # v') \<longleftrightarrow> u = []"
    and "u @ sp # v \<noteq> []"
  using assms split_at_unique [of sp u _ v "[]"] by (auto simp: append_eq_Cons_conv)

lemma path_query_error:
  assumes "length u \<le> max_string_size"
  shows "path_query_from u = Inl e \<longleftrightarrow> u = [] \<and> e = LengthError"
proof -
  have "max_string_size < size_sub 0 1"
    by (simp add: size_sub_def size_mod_def max_string_size_def)
  moreover have "size_sub (length u) 1 \<le> max_string_size" if "u \<noteq> []"
  proof -
    have "1 \<le> length u" using that by (cases u) simp_all
    then have "size_sub (length u) 1 = length u - 1"
      using assms string_size_bound by (intro size_sub_exact) auto
    with assms show ?thesis by simp
  qed
  ultimately show ?thesis
    by (cases "u = []") (auto simp: path_query_from_def split: option.splits)
qed

lemma from_parts_error:
  assumes "length u \<le> max_string_size"
  shows "request_line_from_parts m u v = Inl e \<longleftrightarrow>
    m \<in> {''GET'', ''HEAD'', ''POST''} \<and> u = [] \<and> e = LengthError"
proof (cases "method_from m")
  case None
  then show ?thesis
    by (auto simp: request_line_from_parts_def method_from_def split: if_splits)
next
  case (Some me)
  then have "m \<in> {''GET'', ''HEAD'', ''POST''}"
    by (auto simp: method_from_def split: if_splits)
  with Some show ?thesis
    using path_query_error [OF assms]
    by (cases "path_query_from u")
      (auto simp: request_line_from_parts_def split: option.splits)
qed

lemma cr_in_printed_line: "cr \<notin> set (url l) \<Longrightarrow> cr \<notin> set (request_line_to_string l)"
  using sp_in_method_name(2) cr_in_version_name by (simp add: request_line_to_string_def)

lemma parse_printed_line:
  assumes "req_method l \<noteq> kUnknownMethod" and "version l \<noteq> kUnknownVersion"
    and "sp \<notin> set (url l)" and "cr \<notin> set (url l)"
    and "path_query_from (url l) = Inr (path l, query l)"
  shows "request_line_from (request_line_to_string l) = Inr (Some l)"
proof -
  have "cr \<notin> set (request_line_to_string l)"
    using assms(4) by (rule cr_in_printed_line)
  then have "request_line_from (request_line_to_string l)
      = parse_split (method_name (req_method l) @ sp # url l @ sp # version_name (version l))"
    by (simp add: request_line_from_split cut_at_cr_id request_line_to_string_def)
  also have "\<dots> = request_line_from_parts (method_name (req_method l)) (url l) (version_name (version l))"
    using assms(1,3) by (simp add: parse_split_three sp_in_method_name)
  finally show ?thesis using from_parts_print assms by simp
qed

section \<open>Properties\<close>

text \<open>Parsing inverts printing: a request line with a known method and version, whose URL
  holds no space and no CR and whose path and query are those of its URL, is read back from
  the text that \<open>to_string\<close> makes of it.\<close>

theorem request_line_roundtrip:
  assumes "req_method l \<noteq> kUnknownMethod" and "version l \<noteq> kUnknownVersion"
    and "sp \<notin> set (url l)" and "cr \<notin> set (url l)"
    and "path_query_from (url l) = Inr (path l, query l)"
  shows "request_line_from (request_line_to_string l) = Inr (Some l)"
  by (rule parse_printed_line [OF assms])

theorem request_line_roundtrip_witness:
  "request_line_from (request_line_to_string
      \<lparr>req_method = kGet, url = ''/a?b=1'', path = ''/a'', query = ''?b=1'', version = kHttp11\<rparr>)
   = Inr (Some \<lparr>req_method = kGet, url = ''/a?b=1'', path = ''/a'', query = ''?b=1'', version = kHttp11\<rparr>)"
  by (rule request_line_roundtrip) (simp_all add: path_query_from_def)

text \<open>C29: Printing inverts parsing: whatever line the parser accepts, \<open>to_string\<close> of the result
  is the line up to its first CR, byte for byte; so no two different lines are taken for the
  same request line, and the accepted lines have a known method and version.\<close>

theorem accepted_line_is_printed:
  assumes "request_line_from s = Inr (Some l)"
  shows "request_line_to_string l = takeWhile (\<lambda>c. c \<noteq> cr) s \<and>
    req_method l \<noteq> kUnknownMethod \<and> version l \<noteq> kUnknownVersion \<and> sp \<notin> set (url l)"
proof -
  have "parse_split (cut_at_cr s) = Inr (Some l)"
    using assms by (simp add: request_line_from_split)
  with parse_split_shape [of "cut_at_cr s"] obtain m u v where
    "sp \<notin> set u" "cut_at_cr s = m @ sp # u @ sp # v" "request_line_from_parts m u v = Inr (Some l)"
    by auto
  with from_parts_Some [OF this(3)] show ?thesis
    by (simp add: request_line_to_string_def cut_at_cr_def)
qed

theorem accepted_line_is_printed_witness:
  "\<exists>l. request_line_from (''GET / HTTP/1.1'' @ crlf) = Inr (Some l) \<and>
     request_line_to_string l = takeWhile (\<lambda>c. c \<noteq> cr) (''GET / HTTP/1.1'' @ crlf) \<and>
     req_method l \<noteq> kUnknownMethod \<and> version l \<noteq> kUnknownVersion \<and> sp \<notin> set (url l)"
proof -
  let ?l = "\<lparr>req_method = kGet, url = ''/'', path = ''index.html'', query = [], version = kHttp11\<rparr>"
  have p: "request_line_from (''GET / HTTP/1.1'' @ crlf) = Inr (Some ?l)"
    by (simp add: request_line_from_def request_line_from_parts_def method_from_def
        version_from_def path_query_from_def)
  with accepted_line_is_printed [OF p] show ?thesis by blast
qed

text \<open>C36: The lines that end the process instead of being refused are exactly these: a first or
  second space with nothing behind it (an assertion), and a known method with an empty URL
  (an exception that nothing catches). Every other line is accepted or refused.\<close>

theorem request_line_fatal_iff:
  assumes "length s \<le> max_string_size"
  shows "is_ok (request_line_from s) \<longleftrightarrow> \<not> fatal_line (takeWhile (\<lambda>c. c \<noteq> cr) s)"
proof -
  let ?line = "cut_at_cr s"
  have short: "length ?line \<le> max_string_size"
    using assms length_takeWhile_le [of "\<lambda>c. c \<noteq> cr" s] by (simp add: cut_at_cr_def)
  have "is_ok (parse_split ?line) \<longleftrightarrow> \<not> fatal_line ?line"
    using parse_split_shape [of ?line]
  proof (elim disjE exE conjE)
    fix m u v assume *: "sp \<notin> set m" "sp \<notin> set u" "v \<noteq> []" "?line = m @ sp # u @ sp # v"
      "parse_split ?line = request_line_from_parts m u v"
    have "length u \<le> max_string_size" using short *(4) by simp
    from from_parts_error [OF this, of m v]
    have "is_ok (parse_split ?line) \<longleftrightarrow> \<not> (m \<in> {''GET'', ''HEAD'', ''POST''} \<and> u = [])"
      unfolding *(5) by (cases "request_line_from_parts m u v") auto
    then show ?thesis
      unfolding *(4) using fatal_line_split [OF *(1)] fatal_rest *(2,3) by simp
  qed (auto simp: fatal_line_split fatal_line_no_space)
  then show ?thesis by (simp add: request_line_from_split cut_at_cr_def)
qed

theorem request_line_fatal_iff_witness:
  "is_ok (request_line_from ''GET /'') \<longleftrightarrow> \<not> fatal_line (takeWhile (\<lambda>c. c \<noteq> cr) ''GET /'')"
  by (rule request_line_fatal_iff) (simp add: max_string_size_def)

lemma add_header_parsed:
  assumes "CHR '':'' \<notin> set key" "v \<noteq> []" "hd v \<noteq> sp"
  shows "add_header_from (key @ CHR '':'' # replicate n sp @ v) r =
     (if key \<in> dom (headers r) then (False, r)
      else (True, r\<lparr>headers := (headers r)(key \<mapsto> v)\<rparr>))"
proof -
  have "takeWhile (\<lambda>x. x = sp) (replicate n sp @ v) = replicate n sp"
    using assms(2,3) by (cases v) (simp_all add: takeWhile_append)
  with assms show ?thesis
    by (simp add: add_header_from_def find_not_char_def Let_def)
qed

lemma add_header_refused:
  "CHR '':'' \<notin> set line \<Longrightarrow> add_header_from line r = (False, r)"
  "CHR '':'' \<notin> set key \<Longrightarrow> add_header_from (key @ CHR '':'' # replicate n sp) r = (False, r)"
  by (simp_all add: add_header_from_def find_not_char_def Let_def)

text \<open>A header line \<open>key:  value\<close> stores the value from its first byte that is no space on
  under the key, and the stored value is what \<open>get_header\<close> returns; a key that is there
  already is refused and keeps its first value; a line without colon, or without a value, is
  refused and changes nothing.\<close>

theorem add_header_first_wins:
  assumes "CHR '':'' \<notin> set key" and "v \<noteq> []" and "hd v \<noteq> sp"
  shows "(case add_header_from (key @ CHR '':'' # replicate n sp @ v) r of (ok, r') \<Rightarrow>
           (ok \<longleftrightarrow> get_header key r = None) \<and> req_line r' = req_line r \<and>
           (\<forall>k. get_header k r' = (if ok \<and> k = key then Some v else get_header k r))) \<and>
         add_header_from key r = (False, r) \<and>
         add_header_from (key @ CHR '':'' # replicate n sp) r = (False, r)"
  using assms add_header_refused
  by (auto simp: add_header_parsed get_header_def)

theorem add_header_first_wins_witness:
  "(case add_header_from (''Host'' @ CHR '':'' # replicate 1 sp @ ''a:80'') new_request of (ok, r') \<Rightarrow>
      (ok \<longleftrightarrow> get_header ''Host'' new_request = None) \<and> req_line r' = req_line new_request \<and>
      (\<forall>k. get_header k r' = (if ok \<and> k = ''Host'' then Some ''a:80'' else get_header k new_request))) \<and>
   add_header_from ''Host'' new_request = (False, new_request) \<and>
   add_header_from (''Host'' @ CHR '':'' # replicate 1 sp) new_request = (False, new_request)"
  by (rule add_header_first_wins) simp_all

text \<open>The file a URL names depends on whether it has a query: without one the leading slash is
  dropped and the path is relative to the working directory, with one the slash stays and the
  path is absolute; and the query keeps its question mark.\<close>

theorem path_keeps_slash_with_query:
  assumes "CHR ''?'' \<notin> set p" and "p \<noteq> []" and "length p \<le> max_string_size"
  shows "path_query_from (CHR ''/'' # p) = Inr (p, []) \<and>
         path_query_from (CHR ''/'' # p @ CHR ''?'' # q) = Inr (CHR ''/'' # p, CHR ''?'' # q)"
proof -
  have "size_sub (Suc (length p)) 1 = length p"
    using assms(3) max_string_size_less by (subst size_sub_exact) auto
  moreover have "find_char (CHR ''?'') (CHR ''/'' # p @ CHR ''?'' # q) = Some (Suc (length p))"
    using assms(1) by simp
  ultimately show ?thesis
    using assms by (simp add: path_query_from_def)
qed

theorem path_keeps_slash_with_query_witness:
  "path_query_from (CHR ''/'' # ''etc/passwd'') = Inr (''etc/passwd'', []) \<and>
   path_query_from (CHR ''/'' # ''etc/passwd'' @ CHR ''?'' # ''x'')
     = Inr (CHR ''/'' # ''etc/passwd'', CHR ''?'' # ''x'')"
  by (rule path_keeps_slash_with_query) (simp_all add: max_string_size_def)

end
