(* ===== verification/Http_Context.thy ===== *)
theory Http_Context
  imports Buffer Http_Request
begin

text \<open>
  The incremental request parser: \<open>wuduo/http/http_context.h\<close> and
  \<open>wuduo/http/http_context.cpp\<close>. \<open>parse_request\<close> works on the connection's input buffer; the
  same parser on a plain byte sequence is \<open>parse_bytes\<close>, and the contract of the buffer gives
  that the first computes the second. The facts about splitting the input are proved there.
\<close>

section \<open>The parser\<close>

datatype parsing_phase = kRequestLine | kHeaderLines | kEntityBody | kCompleted

record http_context =
  phase :: parsing_phase
  request :: http_request

definition new_context :: http_context where
  "new_context = \<lparr>phase = kRequestLine, request = new_request\<rparr>"

definition parsing_completed :: "http_context \<Rightarrow> bool" where
  "parsing_completed c \<longleftrightarrow> phase c = kCompleted"

definition reset_context :: "http_context \<Rightarrow> http_context" where
  "reset_context c =
     (let c1 = c\<lparr>phase := kRequestLine\<rparr>; dummy = new_context;
          swapped = swap_requests (request c1, request dummy)
      in c1\<lparr>request := fst swapped\<rparr>)"

text \<open>\<open>std::stoll\<close> in base ten: leading white space, a sign, then as many digits as there are;
  \<open>None\<close> stands for the exceptions \<open>invalid_argument\<close> and \<open>out_of_range\<close>.\<close>

definition is_space :: "char \<Rightarrow> bool" where
  "is_space ch \<longleftrightarrow> ch = sp \<or> 9 \<le> (of_char ch :: nat) \<and> (of_char ch :: nat) \<le> 13"

definition stoll :: "bytes \<Rightarrow> int option" where
  "stoll s =
     (let s1 = dropWhile is_space s;
          negative = (s1 \<noteq> [] \<and> hd s1 = CHR ''-'');
          s2 = (if s1 \<noteq> [] \<and> (hd s1 = CHR ''-'' \<or> hd s1 = CHR ''+'') then tl s1 else s1);
          ds = takeWhile is_digit s2;
          v = (if negative then - int (dec_val ds) else int (dec_val ds))
      in if ds = [] then None
         else if - (2 ^ 63) \<le> v \<and> v < 2 ^ 63 then Some v else None)"

text \<open>The value of the header \<open>Content-length\<close>, -1 when \<open>stoll\<close> throws.\<close>

definition contents_length_value :: "bytes \<Rightarrow> int" where
  "contents_length_value s = (case stoll s of None \<Rightarrow> -1 | Some v \<Rightarrow> v)"

text \<open>Every recursive call is in a later phase, or in the same with fewer readable bytes.\<close>

fun phase_rank :: "parsing_phase \<Rightarrow> nat" where
  "phase_rank kRequestLine = 3"
| "phase_rank kHeaderLines = 2"
| "phase_rank kEntityBody = 1"
| "phase_rank kCompleted = 0"

function parse_request :: "buffer \<Rightarrow> http_context \<Rightarrow> (bool \<times> buffer \<times> http_context) result" where
  "parse_request b c =
     (case phase c of
        kRequestLine \<Rightarrow>
          (case find_sub crlf (contents b) of
             None \<Rightarrow> Inr (True, b, c)
           | Some pos_cr_lf \<Rightarrow>
               bindE (set_request_line_from (take pos_cr_lf (contents b)) (request c)) (\<lambda>(ok, r).
               if \<not> ok then Inr (False, b, c\<lparr>request := r\<rparr>)
               else bindE (assertE (readable_bytes b > pos_cr_lf + 2)) (\<lambda>_.
                    bindE (retrieve (pos_cr_lf + 2) b) (\<lambda>b'.
                    parse_request b' (c\<lparr>request := r, phase := kHeaderLines\<rparr>)))))
      | kHeaderLines \<Rightarrow>
          (case find_sub crlf (contents b) of
             None \<Rightarrow> Inr (True, b, c)
           | Some pos_cr_lf \<Rightarrow>
               let line = take pos_cr_lf (contents b) in
               if line = []
               then bindE (assertE (pos_cr_lf = 0)) (\<lambda>_.
                    bindE (retrieve 2 b) (\<lambda>b'.
                    parse_request b' (c\<lparr>phase := kEntityBody\<rparr>)))
               else (case add_header_from line (request c) of (ok, r) \<Rightarrow>
                    if \<not> ok then Inr (False, b, c\<lparr>request := r\<rparr>)
                    else bindE (assertE (readable_bytes b \<ge> pos_cr_lf + 2)) (\<lambda>_.
                         bindE (retrieve (pos_cr_lf + 2) b) (\<lambda>b'.
                         parse_request b' (c\<lparr>request := r\<rparr>)))))
      | kEntityBody \<Rightarrow>
          if req_method (req_line (request c)) \<noteq> kPost
          then Inr (True, b, c\<lparr>phase := kCompleted\<rparr>)
          else (case get_header ''Content-length'' (request c) of
                  None \<Rightarrow> Inr (False, b, c)
                | Some contents_length \<Rightarrow>
                    let value = contents_length_value contents_length in
                    if value < 0 then Inr (False, b, c)
                    else if readable_bytes b < nat value then Inr (True, b, c)
                    else Inr (True, retrieve_all b, c\<lparr>phase := kCompleted\<rparr>))
      | kCompleted \<Rightarrow> Inr (True, b, c))"
  by pat_completeness auto

termination
  by (relation "measures [\<lambda>(b, c). phase_rank (phase c), \<lambda>(b, c). readable_bytes b]")
    (auto dest: retrieve_readable)

declare parse_request.simps [simp del]

section \<open>The same parser on a byte sequence\<close>

function parse_bytes :: "bytes \<Rightarrow> http_context \<Rightarrow> (bool \<times> bytes \<times> http_context) result" where
  "parse_bytes q c =
     (case phase c of
        kRequestLine \<Rightarrow>
          (case find_sub crlf q of
             None \<Rightarrow> Inr (True, q, c)
           | Some i \<Rightarrow>
               bindE (set_request_line_from (take i q) (request c)) (\<lambda>(ok, r).
               if \<not> ok then Inr (False, q, c\<lparr>request := r\<rparr>)
               else if length q = i + 2 then Inl AssertFailure
               else parse_bytes (drop (i + 2) q) (c\<lparr>request := r, phase := kHeaderLines\<rparr>)))
      | kHeaderLines \<Rightarrow>
          (case find_sub crlf q of
             None \<Rightarrow> Inr (True, q, c)
           | Some i \<Rightarrow>
               if i = 0 then parse_bytes (drop 2 q) (c\<lparr>phase := kEntityBody\<rparr>)
               else (case add_header_from (take i q) (request c) of (ok, r) \<Rightarrow>
                    if ok then parse_bytes (drop (i + 2) q) (c\<lparr>request := r\<rparr>)
                    else Inr (False, q, c\<lparr>request := r\<rparr>)))
      | kEntityBody \<Rightarrow>
          if req_method (req_line (request c)) \<noteq> kPost then Inr (True, q, c\<lparr>phase := kCompleted\<rparr>)
          else (case get_header ''Content-length'' (request c) of
                  None \<Rightarrow> Inr (False, q, c)
                | Some v \<Rightarrow>
                    if contents_length_value v < 0 then Inr (False, q, c)
                    else if length q < nat (contents_length_value v) then Inr (True, q, c)
                    else Inr (True, [], c\<lparr>phase := kCompleted\<rparr>))
      | kCompleted \<Rightarrow> Inr (True, q, c))"
  by pat_completeness auto

termination
  by (relation "measures [\<lambda>(q, c). phase_rank (phase c), \<lambda>(q, c). length q]")
    (auto dest: find_sub_crlf_length)

declare parse_bytes.simps [simp del]

text \<open>A result on buffers, started from \<open>b0\<close>, shows the result on bytes.\<close>

definition outcome :: "(bool \<times> buffer \<times> http_context) result \<Rightarrow> (bool \<times> bytes \<times> http_context) result" where
  "outcome = map_sum id (\<lambda>(ok, b, c). (ok, contents b, c))"

definition parsed_as ::
    "buffer \<Rightarrow> (bool \<times> buffer \<times> http_context) result \<Rightarrow> (bool \<times> bytes \<times> http_context) result \<Rightarrow> bool" where
  "parsed_as b0 p a \<longleftrightarrow>
     outcome p = a \<and>
     (\<forall>ok b c. p = Inr (ok, b, c) \<longrightarrow> wf_buffer b \<and> (\<forall>k. room b0 k \<longrightarrow> room b k))"

lemma parsed_as_simps:
  "parsed_as b0 (Inl e) a \<longleftrightarrow> a = Inl e"
  "parsed_as b0 (Inr (ok, b, c)) a \<longleftrightarrow>
     wf_buffer b \<and> (\<forall>k. room b0 k \<longrightarrow> room b k) \<and> a = Inr (ok, contents b, c)"
  by (auto simp: parsed_as_def outcome_def)

lemma parsed_as_mono:
  "parsed_as b1 p a \<Longrightarrow> (\<forall>k. room b0 k \<longrightarrow> room b1 k) \<Longrightarrow> parsed_as b0 p a"
  by (simp add: parsed_as_def)

lemma parse_request_refines:
  "wf_buffer b \<Longrightarrow> parsed_as b (parse_request b c) (parse_bytes (contents b) c)"
proof (induction b c rule: parse_request.induct)
  case (1 b c)
  note wf = "1.prems"
  have len: "readable_bytes b = length (contents b)" using length_contents [OF wf] by simp
  have take_out: "\<exists>b'. retrieve n b = Inr b' \<and> wf_buffer b' \<and> contents b' = drop n (contents b)
      \<and> (\<forall>k. room b k \<longrightarrow> room b' k)"
    if "n \<le> length (contents b)" for n
    using buf.discard [OF wf that] by blast
  show ?case
  proof (cases "phase c")
    case kRequestLine
    show ?thesis
    proof (cases "find_sub crlf (contents b)")
      case None
      with kRequestLine wf show ?thesis
        by (simp add: parse_request.simps [of b] parse_bytes.simps [of "contents b"] parsed_as_simps)
    next
      case (Some i)
      note bound = find_sub_crlf_length [OF Some]
      show ?thesis
      proof (cases "set_request_line_from (take i (contents b)) (request c)")
        case (Inl e)
        with kRequestLine Some show ?thesis
          by (simp add: parse_request.simps [of b] parse_bytes.simps [of "contents b"] parsed_as_simps)
      next
        case (Inr okr)
        obtain b' where b': "retrieve (i + 2) b = Inr b'" "wf_buffer b'"
          "contents b' = drop (i + 2) (contents b)" "\<forall>k. room b k \<longrightarrow> room b' k"
          using take_out bound by blast
        obtain ok r where okr: "okr = (ok, r)" by (cases okr) auto
        have rec: "parsed_as b (parse_request b' (c\<lparr>request := r, phase := kHeaderLines\<rparr>))
            (parse_bytes (drop (i + 2) (contents b)) (c\<lparr>request := r, phase := kHeaderLines\<rparr>))"
          if "ok" "readable_bytes b > i + 2"
          using "1.IH"(1) [OF kRequestLine Some Inr okr [symmetric], of "()" b'] that b'
          by (auto intro: parsed_as_mono)
        show ?thesis
          using kRequestLine Some Inr okr bound b' wf len rec
          by (auto simp: parse_request.simps [of b c] parse_bytes.simps [of "contents b" c]
              parsed_as_simps bindE_assertE)
      qed
    qed
  next
    case kHeaderLines
    show ?thesis
    proof (cases "find_sub crlf (contents b)")
      case None
      with kHeaderLines wf show ?thesis
        by (simp add: parse_request.simps [of b] parse_bytes.simps [of "contents b"] parsed_as_simps)
    next
      case (Some i)
      note bound = find_sub_crlf_length [OF Some]
      obtain b' where b': "retrieve (i + 2) b = Inr b'" "wf_buffer b'"
        "contents b' = drop (i + 2) (contents b)" "\<forall>k. room b k \<longrightarrow> room b' k"
        using take_out bound by blast
      show ?thesis
      proof (cases "i = 0")
        case True
        with b'(1) have two: "retrieve 2 b = Inr b'" by (simp add: numeral_2_eq_2)
        with True have "parsed_as b (parse_request b' (c\<lparr>phase := kEntityBody\<rparr>))
            (parse_bytes (contents b') (c\<lparr>phase := kEntityBody\<rparr>))"
          using "1.IH"(2) [OF kHeaderLines Some refl, of "()" b'] b'(2,4)
          by (auto intro: parsed_as_mono)
        with True kHeaderLines Some b'(3) two show ?thesis
          by (simp add: parse_request.simps [of b] parse_bytes.simps [of "contents b"] Let_def
              numeral_2_eq_2)
      next
        case False
        then have line: "take i (contents b) \<noteq> []" using bound by auto
        obtain ok r where okr: "add_header_from (take i (contents b)) (request c) = (ok, r)"
          by (cases "add_header_from (take i (contents b)) (request c)") auto
        have rec: "parsed_as b (parse_request b' (c\<lparr>request := r\<rparr>))
            (parse_bytes (drop (i + 2) (contents b)) (c\<lparr>request := r\<rparr>))" if "ok"
          using "1.IH"(3) [OF kHeaderLines Some refl line okr [symmetric], of "()" b'] that b' bound len
          by (auto intro: parsed_as_mono)
        show ?thesis
          using False kHeaderLines Some okr bound b' wf len rec line
          by (auto simp: parse_request.simps [of b c] parse_bytes.simps [of "contents b" c]
              parsed_as_simps bindE_assertE Let_def)
      qed
    qed
  next
    case kEntityBody
    with wf len buf.clear [OF wf] show ?thesis
      by (auto simp: parse_request.simps [of b c] parse_bytes.simps [of "contents b" c]
          parsed_as_simps Let_def split: option.splits)
  next
    case kCompleted
    with wf show ?thesis
      by (simp add: parse_request.simps [of b] parse_bytes.simps [of "contents b"] parsed_as_simps)
  qed
qed

lemma parse_request_ok:
  assumes "wf_buffer b" and "parse_request b c = Inr (ok, b1, c1)"
  shows "wf_buffer b1" "room b k \<Longrightarrow> room b1 k"
    "parse_bytes (contents b) c = Inr (ok, contents b1, c1)"
  using parse_request_refines [OF assms(1), of c] assms(2) by (auto simp: parsed_as_simps)

lemma parse_request_outcome:
  "wf_buffer b \<Longrightarrow> outcome (parse_request b c) = parse_bytes (contents b) c"
  using parse_request_refines [of b c] by (simp add: parsed_as_def)

section \<open>Splitting the input\<close>

lemma parse_bytes_phase:
  "phase c = kCompleted \<Longrightarrow> parse_bytes q c = Inr (True, q, c)"
  by (simp add: parse_bytes.simps)

text \<open>Bytes behind those that the parser has seen and found incomplete change nothing in what it
  has done with them.\<close>

lemma parse_bytes_append:
  "parse_bytes q c = Inr (True, q1, c1) \<Longrightarrow> phase c1 \<noteq> kCompleted \<Longrightarrow>
   parse_bytes (q @ t) c = parse_bytes (q1 @ t) c1"
proof (induction q c rule: parse_bytes.induct)
  case (1 q c)
  note eq = parse_bytes.simps [of q c] parse_bytes.simps [of "q @ t" c]
  show ?case
  proof (cases "phase c")
    case kRequestLine
    show ?thesis
    proof (cases "find_sub crlf q")
      case None
      with kRequestLine "1.prems" show ?thesis by (simp add: eq(1))
    next
      case (Some i)
      note bound = find_sub_crlf_length [OF Some]
      from kRequestLine Some "1.prems"(1) obtain r where
        r: "set_request_line_from (take i q) (request c) = Inr (True, r)" "length q \<noteq> i + 2"
        "parse_bytes (drop (i + 2) q) (c\<lparr>request := r, phase := kHeaderLines\<rparr>) = Inr (True, q1, c1)"
        by (auto simp: eq(1) bindE_eq_Inr split: if_splits)
      from "1.IH"(1) [OF kRequestLine Some r(1) refl _ r(2,3) "1.prems"(2)]
      have "parse_bytes (drop (i + 2) q @ t) (c\<lparr>request := r, phase := kHeaderLines\<rparr>)
          = parse_bytes (q1 @ t) c1" by simp
      with kRequestLine find_sub_append [OF Some, of t] r bound show ?thesis
        by (simp add: eq(2))
    qed
  next
    case kHeaderLines
    show ?thesis
    proof (cases "find_sub crlf q")
      case None
      with kHeaderLines "1.prems" show ?thesis by (simp add: eq(1))
    next
      case (Some i)
      note bound = find_sub_crlf_length [OF Some]
      show ?thesis
      proof (cases "i = 0")
        case True
        with kHeaderLines Some "1.prems"
        have "parse_bytes (drop 2 q) (c\<lparr>phase := kEntityBody\<rparr>) = Inr (True, q1, c1)"
          by (simp add: eq(1))
        from "1.IH"(2) [OF kHeaderLines Some True this "1.prems"(2)]
        show ?thesis
          using kHeaderLines find_sub_append [OF Some, of t] True bound
          by (simp add: eq(2) numeral_2_eq_2)
      next
        case False
        with kHeaderLines Some "1.prems"(1) obtain r where
          r: "add_header_from (take i q) (request c) = (True, r)"
          "parse_bytes (drop (i + 2) q) (c\<lparr>request := r\<rparr>) = Inr (True, q1, c1)"
          by (auto simp: eq(1) split: if_splits prod.splits)
        from "1.IH"(3) [OF kHeaderLines Some False r(1) [symmetric] _ r(2) "1.prems"(2)]
        have "parse_bytes (drop (i + 2) q @ t) (c\<lparr>request := r\<rparr>) = parse_bytes (q1 @ t) c1" by simp
        with kHeaderLines find_sub_append [OF Some, of t] False r(1) bound show ?thesis
          by (simp add: eq(2))
      qed
    qed
  next
    case kEntityBody
    with "1.prems" show ?thesis
      by (auto simp: eq(1) split: if_splits option.splits)
  next
    case kCompleted
    with "1.prems" show ?thesis by (auto simp: eq(1))
  qed
qed

text \<open>What the connection's message callback does with the buffer and the context while a
  request arrives in pieces.\<close>

fun feed :: "bytes list \<Rightarrow> buffer \<Rightarrow> http_context \<Rightarrow> (bool \<times> buffer \<times> http_context) result" where
  "feed [] b c = Inr (True, b, c)"
| "feed (t # ts) b c =
     bindE (append t b) (\<lambda>b1.
     bindE (parse_request b1 c) (\<lambda>(ok, b2, c2).
     if ok \<and> \<not> parsing_completed c2 then feed ts b2 c2 else Inr (ok, b2, c2)))"

lemma feed_one:
  assumes "wf_buffer b" "room b (length t + k)"
  shows "\<exists>b'. append t b = Inr b' \<and> wf_buffer b' \<and> contents b' = contents b @ t \<and> room b' k \<and>
    outcome (parse_request b' c) = parse_bytes (contents b @ t) c"
  using buf.put [OF assms] parse_request_outcome by metis

lemma feed_incomplete:
  "wf_buffer b \<Longrightarrow> room b (length (concat ts) + k) \<Longrightarrow>
   feed ts b c = Inr (True, b1, c1) \<Longrightarrow> phase c1 \<noteq> kCompleted \<Longrightarrow>
   wf_buffer b1 \<and> room b1 k \<and>
   (\<forall>t. parse_bytes (contents b1 @ t) c1 = parse_bytes (contents b @ concat ts @ t) c)"
proof (induction ts arbitrary: b c)
  case Nil
  then show ?case by simp
next
  case (Cons t ts)
  have "room b (length t + (length (concat ts) + k))"
    using Cons.prems(2) by (simp add: add.assoc)
  from feed_one [OF Cons.prems(1) this] obtain b' where
    b': "append t b = Inr b'" "wf_buffer b'" "contents b' = contents b @ t"
      "room b' (length (concat ts) + k)" by blast
  from Cons.prems(3,4) b'(1) obtain b2 c2 where
    p: "parse_request b' c = Inr (True, b2, c2)" "phase c2 \<noteq> kCompleted"
      "feed ts b2 c2 = Inr (True, b1, c1)"
    by (auto simp: bindE_eq_Inr parsing_completed_def split: if_splits)
  note q = parse_request_ok [OF b'(2) p(1)]
  have "parse_bytes ((contents b @ t) @ s) c = parse_bytes (contents b2 @ s) c2" for s
    using parse_bytes_append [OF q(3) p(2)] by (simp add: b'(3))
  with Cons.IH [OF q(1) q(2) [OF b'(4)] p(3) Cons.prems(4)] show ?case by simp
qed

section \<open>Whole requests\<close>

definition header_line :: "bytes \<times> bytes \<Rightarrow> bytes" where
  "header_line h = fst h @ CHR '':'' # sp # snd h @ crlf"

definition plain_header :: "bytes \<times> bytes \<Rightarrow> bool" where
  "plain_header h \<longleftrightarrow> CHR '':'' \<notin> set (fst h) \<and> cr \<notin> set (fst h) \<and>
     snd h \<noteq> [] \<and> hd (snd h) \<noteq> sp \<and> cr \<notin> set (snd h)"

definition plain_line :: "request_line \<Rightarrow> bool" where
  "plain_line l \<longleftrightarrow> req_method l \<noteq> kUnknownMethod \<and> version l \<noteq> kUnknownVersion \<and>
     sp \<notin> set (url l) \<and> cr \<notin> set (url l) \<and> path_query_from (url l) = Inr (path l, query l)"

definition request_text :: "request_line \<Rightarrow> (bytes \<times> bytes) list \<Rightarrow> bytes" where
  "request_text l hs = request_line_to_string l @ crlf @ concat (map header_line hs) @ crlf"

lemma parse_request_line:
  assumes "plain_line l" and "phase c = kRequestLine" and "rest \<noteq> []"
  shows "parse_bytes (request_line_to_string l @ crlf @ rest) c =
     parse_bytes rest (c\<lparr>request := (request c)\<lparr>req_line := l\<rparr>, phase := kHeaderLines\<rparr>)"
proof -
  have "cr \<notin> set (request_line_to_string l)"
    using assms(1) by (simp add: plain_line_def cr_in_printed_line)
  then have f: "find_sub crlf (request_line_to_string l @ crlf @ rest)
      = Some (length (request_line_to_string l))"
    by (rule find_sub_crlf_append)
  have "set_request_line_from (request_line_to_string l) (request c)
      = Inr (True, (request c)\<lparr>req_line := l\<rparr>)"
    using assms(1) by (simp add: set_request_line_from_def parse_printed_line plain_line_def)
  with assms(2,3) f show ?thesis
    by (subst parse_bytes.simps) simp
qed

lemma parse_accepted_line:
  assumes "cr \<notin> set line" and "line \<noteq> []" and "phase c = kHeaderLines"
    and "add_header_from line (request c) = (True, r)"
  shows "parse_bytes (line @ crlf @ rest) c = parse_bytes rest (c\<lparr>request := r\<rparr>)"
  using assms find_sub_crlf_append [OF assms(1), of rest] by (subst parse_bytes.simps) simp

lemma parse_header_line:
  assumes "plain_header h" and "phase c = kHeaderLines" and "fst h \<notin> dom (headers (request c))"
  shows "parse_bytes (header_line h @ rest) c =
     parse_bytes rest
       (c\<lparr>request := (request c)\<lparr>headers := (headers (request c))(fst h \<mapsto> snd h)\<rparr>\<rparr>)"
proof -
  let ?line = "fst h @ CHR '':'' # replicate 1 sp @ snd h"
  have shape: "header_line h @ rest = ?line @ crlf @ rest" by (simp add: header_line_def)
  have "add_header_from ?line (request c)
      = (True, (request c)\<lparr>headers := (headers (request c))(fst h \<mapsto> snd h)\<rparr>)"
    using assms by (subst add_header_parsed) (auto simp: plain_header_def)
  then show ?thesis
    unfolding shape using assms by (intro parse_accepted_line) (auto simp: plain_header_def)
qed

lemma parse_headers:
  assumes "\<forall>h \<in> set hs. plain_header h" and "phase c = kHeaderLines" and "distinct (map fst hs)"
    and "fst ` set hs \<inter> dom (headers (request c)) = {}"
  shows "parse_bytes (concat (map header_line hs) @ crlf @ rest) c =
     parse_bytes rest
       (c\<lparr>request := (request c)\<lparr>headers := headers (request c) ++ map_of hs\<rparr>, phase := kEntityBody\<rparr>)"
  using assms
proof (induction hs arbitrary: c)
  case Nil
  then show ?case by (subst parse_bytes.simps) simp
next
  case (Cons h hs)
  obtain k v where h: "h = (k, v)" by (cases h) auto
  let ?c1 = "c\<lparr>request := (request c)\<lparr>headers := (headers (request c))(k \<mapsto> v)\<rparr>\<rparr>"
  have "parse_bytes (header_line h @ concat (map header_line hs) @ crlf @ rest) c
      = parse_bytes (concat (map header_line hs) @ crlf @ rest) ?c1"
    using Cons.prems h by (subst parse_header_line) auto
  also have "\<dots> = parse_bytes rest
      (?c1\<lparr>request := (request ?c1)\<lparr>headers := headers (request ?c1) ++ map_of hs\<rparr>, phase := kEntityBody\<rparr>)"
  proof (rule Cons.IH)
    show "fst ` set hs \<inter> dom (headers (request ?c1)) = {}"
      using Cons.prems(3,4) h by auto
  qed (use Cons.prems in auto)
  also have "headers (request ?c1) ++ map_of hs = headers (request c) ++ map_of (h # hs)"
    using Cons.prems(3) by (simp add: h map_add_upd_left dom_map_of_conv_image_fst)
  finally show ?case by (simp del: map_of.simps)
qed

lemma parse_text:
  assumes "plain_line l" "\<forall>h \<in> set hs. plain_header h" "distinct (map fst hs)"
  shows "parse_bytes (request_text l hs @ rest) new_context =
     parse_bytes rest \<lparr>phase = kEntityBody, request = \<lparr>req_line = l, headers = map_of hs\<rparr>\<rparr>"
proof -
  have "parse_bytes (request_text l hs @ rest) new_context =
      parse_bytes (concat (map header_line hs) @ crlf @ rest)
        (new_context\<lparr>request := (request new_context)\<lparr>req_line := l\<rparr>, phase := kHeaderLines\<rparr>)"
    using parse_request_line [OF assms(1), of new_context "concat (map header_line hs) @ crlf @ rest"]
    by (simp add: request_text_def new_context_def)
  also have "\<dots> = parse_bytes rest \<lparr>phase = kEntityBody, request = \<lparr>req_line = l, headers = map_of hs\<rparr>\<rparr>"
    using assms by (subst parse_headers) (auto simp: new_context_def new_request_def)
  finally show ?thesis .
qed

lemma stoll_dec: "int n < 2 ^ 63 \<Longrightarrow> stoll (dec n) = Some (int n)"
proof -
  assume n: "int n < 2 ^ 63"
  obtain d ds where d: "dec n = d # ds" by (cases "dec n") simp_all
  have dig: "\<forall>x \<in> set (dec n). is_digit x" by (rule dec_digits)
  then have "is_digit d" by (simp add: d)
  then have sep: "\<not> is_space d" "d \<noteq> CHR ''-''" "d \<noteq> CHR ''+''"
    by (auto simp: is_space_def is_digit_def)
  have digits: "takeWhile is_digit (dec n) = dec n"
    using dig by (simp add: takeWhile_eq_all_conv)
  have start: "dropWhile is_space (dec n) = dec n" "hd (dec n) = d"
    using sep by (simp_all add: d)
  show ?thesis
    unfolding stoll_def start Let_def using n sep by (simp add: start digits del: takeWhile_eq_all_conv)
qed

section \<open>Properties\<close>

lemma outcome_InrE:
  assumes "outcome p = Inr (ok, q, c)"
  obtains b where "p = Inr (ok, b, c)" "contents b = q"
  using assms by (cases p) (auto simp: outcome_def)

lemma parse_request_InrI:
  assumes "wf_buffer b" and "parse_bytes (contents b) c = Inr (ok, q, c')"
  shows "\<exists>b'. parse_request b c = Inr (ok, b', c') \<and> wf_buffer b' \<and> contents b' = q"
  using parse_request_outcome [OF assms(1), of c] assms(2) parse_request_ok(1) [OF assms(1)]
  by (metis outcome_InrE)

text \<open>The request of a text, once its header fields are read.\<close>

abbreviation text_request :: "request_line \<Rightarrow> (bytes \<times> bytes) list \<Rightarrow> http_request" where
  "text_request l hs \<equiv> \<lparr>req_line = l, headers = map_of hs\<rparr>"

abbreviation well_formed_text :: "request_line \<Rightarrow> (bytes \<times> bytes) list \<Rightarrow> bool" where
  "well_formed_text l hs \<equiv>
     plain_line l \<and> (\<forall>h \<in> set hs. plain_header h) \<and> distinct (map fst hs)"

abbreviation sample_line :: "http_method \<Rightarrow> request_line" where
  "sample_line m \<equiv>
     \<lparr>req_method = m, url = ''/a.txt'', path = ''a.txt'', query = [], version = kHttp11\<rparr>"

lemma sample_line_plain: "plain_line (sample_line kGet)" "plain_line (sample_line kPost)"
  by (simp_all add: plain_line_def path_query_from_def max_string_size_def size_sub_def size_mod_def)

lemma parse_whole_request:
  assumes "wf_buffer b" and "contents b = request_text l hs @ rest"
    and "well_formed_text l hs" and "req_method l \<noteq> kPost"
  shows "\<exists>b'. parse_request b new_context =
            Inr (True, b', \<lparr>phase = kCompleted, request = text_request l hs\<rparr>) \<and>
          wf_buffer b' \<and> contents b' = rest"
proof (rule parse_request_InrI [OF assms(1)])
  show "parse_bytes (contents b) new_context =
      Inr (True, rest, \<lparr>phase = kCompleted, request = text_request l hs\<rparr>)"
    using assms(2-4) by (simp add: parse_text parse_bytes.simps [of rest])
qed

text \<open>C18: A GET or HEAD request of any number of header fields, in front of whatever follows, is
  parsed completely: the context holds its request line and exactly its header fields, and the
  bytes behind the empty line, and only they, are left in the buffer.\<close>

theorem whole_request_parsed:
  assumes "wf_buffer b" and "contents b = request_text l hs @ rest"
    and "well_formed_text l hs" and "req_method l \<noteq> kPost"
  shows "\<exists>b'. parse_request b new_context =
            Inr (True, b', \<lparr>phase = kCompleted, request = text_request l hs\<rparr>) \<and>
          wf_buffer b' \<and> contents b' = rest"
  by (rule parse_whole_request [OF assms])

theorem whole_request_parsed_witness:
  "let l = sample_line kGet; hs = [(''Host'', ''h''), (''A'', ''b c'')] in
   \<exists>b'. parse_request (buffer_holding (request_text l hs @ ''GET'')) new_context =
          Inr (True, b', \<lparr>phase = kCompleted, request = text_request l hs\<rparr>) \<and>
        wf_buffer b' \<and> contents b' = ''GET''"
  unfolding Let_def
  by (rule whole_request_parsed)
    (simp_all add: buffer_holding sample_line_plain request_text_def header_line_def
      request_line_to_string_def plain_header_def max_string_size_def)

text \<open>C19: How the input is cut into reads does not matter: when the pieces so far left the request
  incomplete, the next piece gives the same answer, the same context and the same rest, or the
  same abort, as if all of it had come in one read.\<close>

theorem parsing_by_pieces:
  assumes "wf_buffer b" and "room b (length (concat ts) + length t)"
    and "feed ts b c = Inr (True, b1, c1)" and "phase c1 \<noteq> kCompleted"
  shows "outcome (feed [t] b1 c1) = outcome (feed [concat ts @ t] b c)"
proof -
  have one: "outcome (feed [s] b' c') = parse_bytes (contents b' @ s) c'"
    if "wf_buffer b'" "room b' (length s)" for s b' c'
  proof -
    from feed_one [OF that(1), of s 0] that(2) obtain b'' where b'':
      "append s b' = Inr b''" "outcome (parse_request b'' c') = parse_bytes (contents b' @ s) c'"
      by auto
    then show ?thesis
      by (auto simp: outcome_def bindE_def split: sum.splits prod.splits)
  qed
  note after = feed_incomplete [OF assms]
  with one [of b1 t c1] one [of b "concat ts @ t" c] assms(1,2) show ?thesis by simp
qed

theorem parsing_by_pieces_witness:
  "\<exists>b1 c1. feed [''GET /a''] new_buffer new_context = Inr (True, b1, c1) \<and>
     outcome (feed [''.txt HTTP/1.1'' @ crlf @ crlf] b1 c1) =
     outcome (feed [concat [''GET /a''] @ ''.txt HTTP/1.1'' @ crlf @ crlf] new_buffer new_context)"
proof -
  have "parse_bytes (contents new_buffer @ ''GET /a'') new_context = Inr (True, ''GET /a'', new_context)"
    by (simp add: parse_bytes.simps new_context_def)
  with feed_one [of new_buffer "''GET /a''" 0 new_context] obtain b1 where r:
    "feed [''GET /a''] new_buffer new_context = Inr (True, b1, new_context)"
    by (auto simp: max_string_size_def elim!: outcome_InrE) (auto simp: parsing_completed_def new_context_def)
  have "outcome (feed [''.txt HTTP/1.1'' @ crlf @ crlf] b1 new_context) =
     outcome (feed [concat [''GET /a''] @ ''.txt HTTP/1.1'' @ crlf @ crlf] new_buffer new_context)"
    by (rule parsing_by_pieces [OF _ _ r]) (simp_all add: max_string_size_def new_context_def)
  with r show ?thesis by blast
qed

text \<open>A request line that arrives alone, its CR LF the last bytes in the buffer, ends the
  process: the assertion before \<open>retrieve\<close> asks for a byte behind the line's end.\<close>

theorem bare_request_line_aborts:
  assumes "wf_buffer b" and "plain_line l" and "contents b = request_line_to_string l @ crlf"
  shows "parse_request b new_context = Inl AssertFailure"
proof -
  have "cr \<notin> set (request_line_to_string l)"
    using assms(2) by (simp add: plain_line_def cr_in_printed_line)
  then have f: "find_sub crlf (request_line_to_string l @ crlf) = Some (length (request_line_to_string l))"
    using find_sub_crlf_append [of _ "[]"] by simp
  have "set_request_line_from (request_line_to_string l) new_request
      = Inr (True, new_request\<lparr>req_line := l\<rparr>)"
    using assms(2) by (simp add: set_request_line_from_def parse_printed_line plain_line_def)
  with f have "outcome (parse_request b new_context) = Inl AssertFailure"
    using parse_request_outcome [OF assms(1), of new_context]
    by (simp add: assms(3) parse_bytes.simps [of "_ @ crlf"] new_context_def)
  then show ?thesis by (cases "parse_request b new_context") (auto simp: outcome_def)
qed

theorem bare_request_line_aborts_witness:
  "parse_request (buffer_holding (request_line_to_string (sample_line kGet) @ crlf)) new_context
     = Inl AssertFailure"
  by (rule bare_request_line_aborts [OF _ sample_line_plain(1)])
    (simp_all add: buffer_holding request_line_to_string_def max_string_size_def)

text \<open>C34: A POST request is complete once the buffer holds as many bytes as its header
  \<open>Content-length\<close> says, and not before; then the whole buffer is emptied, the bytes behind the
  body included. A POST without a header of exactly this name is refused.\<close>

theorem post_waits_for_body:
  assumes "wf_buffer b" and "contents b = request_text l hs @ body"
    and "well_formed_text l hs" and "req_method l = kPost"
  shows "case map_of hs ''Content-length'' of
           None \<Rightarrow> \<exists>b'. parse_request b new_context =
                     Inr (False, b', \<lparr>phase = kEntityBody, request = text_request l hs\<rparr>)
         | Some v \<Rightarrow> \<forall>n. v = dec n \<and> int n < 2 ^ 63 \<longrightarrow>
             (\<exists>b'. parse_request b new_context =
                Inr (True, b', \<lparr>phase = (if length body < n then kEntityBody else kCompleted),
                               request = text_request l hs\<rparr>) \<and>
                contents b' = (if length body < n then body else []))"
proof -
  let ?c = "\<lparr>phase = kEntityBody, request = text_request l hs\<rparr>"
  have p: "parse_bytes (contents b) new_context = parse_bytes body ?c"
    using assms(2,3) by (simp add: parse_text)
  show ?thesis
  proof (cases "map_of hs ''Content-length''")
    case None
    then have "parse_bytes (contents b) new_context = Inr (False, body, ?c)"
      using assms(4) by (simp add: p parse_bytes.simps [of body] get_header_def)
    from parse_request_InrI [OF assms(1) this] None show ?thesis by auto
  next
    case (Some v)
    have "\<exists>b'. parse_request b new_context =
        Inr (True, b', ?c\<lparr>phase := (if length body < n then kEntityBody else kCompleted)\<rparr>) \<and>
        wf_buffer b' \<and> contents b' = (if length body < n then body else [])"
      if "v = dec n" "int n < 2 ^ 63" for n
      using that assms(4) Some
      by (intro parse_request_InrI [OF assms(1)])
        (simp add: p parse_bytes.simps [of body] get_header_def contents_length_value_def stoll_dec)
    with Some show ?thesis by fastforce
  qed
qed

theorem post_waits_for_body_witness:
  "let l = sample_line kPost; hs = [(''Content-length'', dec 3)] in
   \<exists>b'. parse_request (buffer_holding (request_text l hs @ ''abcGET /'')) new_context =
          Inr (True, b', \<lparr>phase = kCompleted, request = text_request l hs\<rparr>) \<and> contents b' = []"
proof -
  let ?l = "sample_line kPost" and ?hs = "[(''Content-length'', dec 3)]"
  let ?b = "buffer_holding (request_text ?l ?hs @ ''abcGET /'')"
  have d: "dec 3 = ''3''" by (simp add: dec.simps)
  have len: "length (request_text ?l ?hs @ ''abcGET /'') + 8 \<le> max_string_size"
    by (simp add: d request_text_def header_line_def request_line_to_string_def max_string_size_def)
  have wf: "well_formed_text ?l ?hs"
    by (simp add: sample_line_plain plain_header_def d)
  note p = post_waits_for_body [OF buffer_holding(1,2) [OF len] wf]
  have "\<exists>b'. parse_request ?b new_context =
      Inr (True, b', \<lparr>phase = (if length ''abcGET /'' < 3 then kEntityBody else kCompleted),
                     request = text_request ?l ?hs\<rparr>) \<and>
      contents b' = (if length ''abcGET /'' < 3 then ''abcGET /'' else [])"
    using p by (auto dest: spec [of _ "3::nat"])
  then show ?thesis by (simp add: Let_def)
qed

end
