(* ===== verification/Http_Response.thy ===== *)
theory Http_Response
  imports Http_Context "HOL-Library.AList" "HOL-Library.Multiset"
begin

text \<open>
  Responses: \<open>wuduo/http/http_response.h\<close> and \<open>wuduo/http/http_response.cpp\<close>. The header
  fields are an \<open>unordered_map\<close> that the code iterates over, so they are an association list
  and the order of the iteration is a parameter \<open>order\<close> of the printing operations, of which
  only that it is a permutation is assumed (\<open>some_order\<close>). What \<open>open\<close>, \<open>fstat\<close> and the
  successive calls of \<open>readv\<close> answer are arguments of \<open>analyse\<close>; the list of the answers of
  \<open>readv\<close> bounds its loop, and when the list is used up while the loop still reads, the result
  says so (\<open>StillReading\<close>) instead of making up an answer.
\<close>

section \<open>Content types and status codes\<close>

definition kDefault :: bytes where
  "kDefault = ''text/html;charset=utf-8''"

definition mime_types :: "(bytes \<times> bytes) list" where
  "mime_types =
     [(''.html'', kDefault), (''.avi'', ''video/x-msvideo''), (''.bmp'', ''image/bmp''),
      (''.c'', ''text/plain''), (''.doc'', ''application/msword''), (''.gif'', ''image/gif''),
      (''.gz'', ''application/x-gzip''), (''.htm'', ''text/html''), (''.ico'', ''image/x-icon''),
      (''.jpg'', ''image/jpeg''), (''.png'', ''image/png''), (''.txt'', ''text/plain''),
      (''.mp3'', ''audio/mp3''), (''.mp4'', ''video/mp4''), (''default'', kDefault)]"

text \<open>\<open>operator[]\<close> would insert an empty type for a missing default.\<close>

definition mime_from :: "bytes \<Rightarrow> bytes" where
  "mime_from suffix =
     (case map_of mime_types suffix of
        None \<Rightarrow> (case map_of mime_types ''default'' of None \<Rightarrow> [] | Some t \<Rightarrow> t)
      | Some t \<Rightarrow> t)"

datatype http_status =
  k200Ok | k301MovedPermanently | k400BadRequest | k404NotFound | k505HttpVersionNotSupported

fun status_number :: "http_status \<Rightarrow> nat" where
  "status_number k200Ok = 200"
| "status_number k301MovedPermanently = 301"
| "status_number k400BadRequest = 400"
| "status_number k404NotFound = 404"
| "status_number k505HttpVersionNotSupported = 505"

fun status_phrase :: "http_status \<Rightarrow> bytes" where
  "status_phrase k200Ok = ''OK''"
| "status_phrase k301MovedPermanently = ''Moved Permanentyly''"
| "status_phrase k400BadRequest = ''Bad Request''"
| "status_phrase k404NotFound = ''Not Found''"
| "status_phrase k505HttpVersionNotSupported = ''HTTP Version Not Supported''"

section \<open>The response and its setters\<close>

record http_response =
  resp_headers :: "(bytes \<times> bytes) list"
  status_code :: http_status
  phrase :: bytes
  entity_body :: buffer
  response_messages :: buffer
  close_connection :: bool

definition set_phrase :: "bytes \<Rightarrow> http_response \<Rightarrow> http_response" where
  "set_phrase p r = r\<lparr>phrase := p\<rparr>"

definition set_status_code :: "http_status \<Rightarrow> http_response \<Rightarrow> http_response" where
  "set_status_code code r = (set_phrase (status_phrase code) r)\<lparr>status_code := code\<rparr>"

definition add_header :: "bytes \<Rightarrow> bytes \<Rightarrow> http_response \<Rightarrow> http_response" where
  "add_header key val r = r\<lparr>resp_headers := AList.update key val (resp_headers r)\<rparr>"

definition set_content_type :: "bytes \<Rightarrow> http_response \<Rightarrow> http_response" where
  "set_content_type content_type r = add_header ''Content-Type'' content_type r"

definition set_close_connection :: "bool \<Rightarrow> http_response \<Rightarrow> http_response" where
  "set_close_connection close r =
     (add_header ''Connection'' (if close then ''close'' else ''keep-alive'') r)\<lparr>close_connection := close\<rparr>"

definition new_response :: "bool \<Rightarrow> http_response" where
  "new_response close =
     set_content_type ''text/html;charset=utf-8''
       (set_close_connection close
          \<lparr>resp_headers = [], status_code = k404NotFound, phrase = ''Not Found'',
           entity_body = new_buffer, response_messages = new_buffer, close_connection = close\<rparr>)"

definition set_entity_body :: "bytes \<Rightarrow> http_response \<Rightarrow> http_response result" where
  "set_entity_body body r =
     bindE (append body (entity_body r)) (\<lambda>b. Inr (r\<lparr>entity_body := b\<rparr>))"

section \<open>Printing\<close>

text \<open>\<open>snprintf\<close> into a buffer of 32 bytes, then as many bytes of it as \<open>snprintf\<close> returned:
  all that would have been printed. The last of the 32 bytes is always a NUL, and beyond them
  the read is out of bounds. \<open>snprintf\<close> returns a negative number for no value of these
  formats.\<close>

definition printed :: "bytes \<Rightarrow> bytes result" where
  "printed s =
     (if length s \<le> 31 then Inr s
      else if length s = 32 then Inr (take 31 s @ [CHR 0x00]) else Inl OutOfBounds)"

text \<open>\<open>%zd\<close> takes the size for a signed number.\<close>

definition signed_dec :: "nat \<Rightarrow> bytes" where
  "signed_dec n = (if n < 2 ^ 63 then dec n else CHR ''-'' # dec (2 ^ 64 - n))"

definition append_header :: "bytes \<times> bytes \<Rightarrow> buffer \<Rightarrow> buffer result" where
  "append_header h output =
     bindE (append (fst h) output) (\<lambda>b1. bindE (append '': '' b1) (\<lambda>b2.
     bindE (append (snd h) b2) (append crlf)))"

definition append_status_line_and_headers_to ::
    "((bytes \<times> bytes) list \<Rightarrow> (bytes \<times> bytes) list) \<Rightarrow> http_response \<Rightarrow> buffer \<Rightarrow> buffer result" where
  "append_status_line_and_headers_to order r output =
     bindE (printed (''HTTP/1.1 '' @ dec (status_number (status_code r)) @ '' '')) (\<lambda>line.
     bindE (append line output) (\<lambda>b1.
     bindE (append (phrase r) b1) (\<lambda>b2.
     bindE (append crlf b2) (\<lambda>b3.
     bindE (printed (''Content-Length: '' @ signed_dec (readable_bytes (entity_body r)) @ crlf)) (\<lambda>len.
     bindE (append len b3) (\<lambda>b4.
     bindE (foldE append_header (order (resp_headers r)) b4) (append crlf)))))))"

definition append_to ::
    "((bytes \<times> bytes) list \<Rightarrow> (bytes \<times> bytes) list) \<Rightarrow> http_response \<Rightarrow> buffer \<Rightarrow> buffer result" where
  "append_to order r output =
     bindE (append_status_line_and_headers_to order r output)
       (append (peeked (entity_body r) (readable_bytes (entity_body r))))"

text \<open>The title of the error page is in UTF-8.\<close>

definition error_title :: bytes where
  "error_title =
     ''<html><title>'' @
     [CHR 0xE5, CHR 0x87, CHR 0xBA, CHR 0xE9, CHR 0x94, CHR 0x99, CHR 0xE4, CHR 0xBA, CHR 0x86] @
     ''~</title>''"

definition error_message_with ::
    "((bytes \<times> bytes) list \<Rightarrow> (bytes \<times> bytes) list) \<Rightarrow> http_status \<Rightarrow> http_response
      \<Rightarrow> (buffer \<times> http_response) result" where
  "error_message_with order code r0 =
     (let r1 = set_content_type kDefault (set_status_code code r0);
          body0 = retrieve_all (entity_body r1);
          error_code = dec (status_number code)
      in
      bindE (append error_title body0) (\<lambda>body1.
      bindE (append ''<body><h1>ERROR<hr /></h1><p>'' body1) (\<lambda>body2.
      bindE (append error_code body2) (\<lambda>body3.
      bindE (append '', '' body3) (\<lambda>body4.
      bindE (append (phrase r1) body4) (\<lambda>body5.
      bindE (append ''</p></body></html>'' body5) (\<lambda>body6.
      let r2 = r1\<lparr>entity_body := body6\<rparr> in
      bindE (append_status_line_and_headers_to order r2 new_buffer) (\<lambda>buffer1.
      bindE (append (peeked body6 (readable_bytes body6)) buffer1) (\<lambda>buffer2.
      Inr (buffer2, r2))))))))))"

section \<open>Serving a file\<close>

text \<open>The loop that reads the file, over the answers of \<open>readv\<close>; \<open>st_size\<close> is an \<open>off_t\<close>
  that is cast to \<open>size_t\<close>.\<close>

datatype reading = StillReading | ReadFailed | ReadAll

fun read_file :: "int \<Rightarrow> read_result list \<Rightarrow> buffer \<Rightarrow> (reading \<times> buffer) result" where
  "read_file st_size [] body = Inr (StillReading, body)"
| "read_file st_size (x # xs) body =
     bindE (read_fd x body) (\<lambda>((num_read, saved_errno), body').
     if num_read < 0 then Inr (ReadFailed, body')
     else if readable_bytes body' < nat (st_size mod 2 ^ 64) then read_file st_size xs body'
     else bindE (assertE (readable_bytes body' = nat (st_size mod 2 ^ 64))) (\<lambda>_.
          Inr (ReadAll, body')))"

text \<open>What happens to the file: its descriptor is opened and closed, and the file is read.\<close>

datatype fd_call = FdOpen | FdClose

datatype analysed =
  Responded buffer http_response "fd_call list"
| Reading http_response "fd_call list"

definition response_type :: "bytes \<Rightarrow> bytes" where
  "response_type p =
     (case rfind_char (CHR ''.'') p of None \<Rightarrow> kDefault | Some pos_dot \<Rightarrow> mime_from (drop pos_dot p))"

definition respond_error ::
    "((bytes \<times> bytes) list \<Rightarrow> (bytes \<times> bytes) list) \<Rightarrow> http_response \<Rightarrow> fd_call list \<Rightarrow> analysed result" where
  "respond_error order r calls =
     bindE (error_message_with order k404NotFound r) (\<lambda>(output, r'). Inr (Responded output r' calls))"

definition analyse ::
    "((bytes \<times> bytes) list \<Rightarrow> (bytes \<times> bytes) list) \<Rightarrow> bool \<Rightarrow> int option \<Rightarrow> read_result list
      \<Rightarrow> http_request \<Rightarrow> http_response \<Rightarrow> analysed result" where
  "analyse order opened st_size reads req r0 =
     (let r1 = set_content_type (response_type (path (req_line req)))
                 (set_close_connection (is_close_connection req) r0)
      in
      if \<not> opened then respond_error order r1 []
      else case st_size of
        None \<Rightarrow> respond_error order r1 [FdOpen, FdClose]
      | Some file_size \<Rightarrow>
          bindE (read_file file_size reads (entity_body r1)) (\<lambda>(state, body).
          let r2 = r1\<lparr>entity_body := body\<rparr> in
          case state of
            StillReading \<Rightarrow> Inr (Reading r2 [FdOpen])
          | ReadFailed \<Rightarrow> respond_error order r2 [FdOpen, FdClose]
          | ReadAll \<Rightarrow>
              bindE (append_status_line_and_headers_to order r2 new_buffer) (\<lambda>output1.
              bindE (append (peeked body (readable_bytes body)) output1) (\<lambda>output2.
              Inr (Responded output2 r2 [FdOpen, FdClose])))))"

section \<open>What is printed\<close>

definition some_order :: "((bytes \<times> bytes) list \<Rightarrow> (bytes \<times> bytes) list) \<Rightarrow> bool" where
  "some_order order \<longleftrightarrow> (\<forall>hs. mset (order hs) = mset hs)"

definition status_line :: "http_response \<Rightarrow> bytes" where
  "status_line r = ''HTTP/1.1 '' @ dec (status_number (status_code r)) @ sp # phrase r @ crlf"

definition header_fields ::
    "((bytes \<times> bytes) list \<Rightarrow> (bytes \<times> bytes) list) \<Rightarrow> http_response \<Rightarrow> (bytes \<times> bytes) list" where
  "header_fields order r =
     (''Content-Length'', dec (length (contents (entity_body r)))) # order (resp_headers r)"

definition response_head ::
    "((bytes \<times> bytes) list \<Rightarrow> (bytes \<times> bytes) list) \<Rightarrow> http_response \<Rightarrow> bytes" where
  "response_head order r =
     status_line r @ concat (map header_line (header_fields order r)) @ crlf"

definition response_text ::
    "((bytes \<times> bytes) list \<Rightarrow> (bytes \<times> bytes) list) \<Rightarrow> http_response \<Rightarrow> bytes" where
  "response_text order r = response_head order r @ contents (entity_body r)"

lemma append_header_all: "append_header h = foldE append [fst h, '': '', snd h, crlf]"
  by (rule ext) (simp add: append_header_def bindE_def split: sum.splits)

lemma append_headers_all:
  "foldE append_header hs = foldE append (concat (map (\<lambda>h. [fst h, '': '', snd h, crlf]) hs))"
proof (rule ext)
  show "foldE append_header hs b =
      foldE append (concat (map (\<lambda>h. [fst h, '': '', snd h, crlf]) hs)) b" for b
    by (induction hs arbitrary: b)
      (simp_all add: foldE_fun bindE_assoc append_header_def cong: bindE_cong)
qed

lemma header_lines_concat:
  "concat (concat (map (\<lambda>h. [fst h, '': '', snd h, crlf]) hs)) = concat (map header_line hs)"
  by (induction hs) (simp_all add: header_line_def)

lemma length_status_number: "length (dec (status_number s)) \<le> 3"
  by (rule length_dec) (cases s; simp)+

text \<open>Everything is appended to the output; nothing fails while the output can grow and the
  body is shorter than 10 TB, which is what the 32 bytes of the formatting buffer are enough for.\<close>

abbreviation printable_size :: nat where
  "printable_size \<equiv> 10 ^ 13"

lemma append_head_eq:
  assumes "wf_buffer (entity_body r)" and "length (contents (entity_body r)) < printable_size"
  shows "append_status_line_and_headers_to order r output =
     foldE append
       ([''HTTP/1.1 '' @ dec (status_number (status_code r)) @ '' '', phrase r, crlf,
         ''Content-Length: '' @ dec (length (contents (entity_body r))) @ crlf] @
        concat (map (\<lambda>h. [fst h, '': '', snd h, crlf]) (order (resp_headers r))) @ [crlf]) output"
proof -
  have len: "length (contents (entity_body r)) = readable_bytes (entity_body r)"
    using assms(1) by (rule length_contents)
  have "length (dec (length (contents (entity_body r)))) \<le> 13"
    by (rule length_dec) (use assms(2) in simp_all)
  then have p1: "printed (''Content-Length: '' @ signed_dec (readable_bytes (entity_body r)) @ crlf)
      = Inr (''Content-Length: '' @ dec (length (contents (entity_body r))) @ crlf)"
    using assms(2) unfolding len by (simp add: printed_def signed_dec_def)
  have p2: "printed (''HTTP/1.1 '' @ dec (status_number (status_code r)) @ '' '')
      = Inr (''HTTP/1.1 '' @ dec (status_number (status_code r)) @ '' '')"
    using length_status_number [of "status_code r"] by (simp add: printed_def)
  show ?thesis
    unfolding append_status_line_and_headers_to_def p1 p2 bindE_simps append_headers_all
    by (simp only: foldE_fun bindE_Inr_right bindE_assoc append_Cons append_Nil)
qed

lemma append_head_spec:
  assumes "wf_buffer (entity_body r)" and "length (contents (entity_body r)) < printable_size"
    and "wf_buffer output" and "room output (length (response_head order r) + k)"
  shows "\<exists>b. append_status_line_and_headers_to order r output = Inr b \<and> wf_buffer b \<and>
           contents b = contents output @ response_head order r \<and> room b k"
proof -
  let ?ss = "[''HTTP/1.1 '' @ dec (status_number (status_code r)) @ '' '', phrase r, crlf,
         ''Content-Length: '' @ dec (length (contents (entity_body r))) @ crlf] @
        concat (map (\<lambda>h. [fst h, '': '', snd h, crlf]) (order (resp_headers r))) @ [crlf]"
  have "concat ?ss = response_head order r"
    by (simp add: header_lines_concat response_head_def status_line_def header_fields_def
        header_line_def)
  with buf.put_seq [of "output" ?ss k] assms show ?thesis
    unfolding append_head_eq [OF assms(1,2)] by metis
qed

lemma append_to_spec:
  assumes "wf_buffer (entity_body r)" and "length (contents (entity_body r)) < printable_size"
    and "wf_buffer output" and "room output (length (response_text order r) + k)"
  shows "\<exists>b. append_to order r output = Inr b \<and> wf_buffer b \<and>
           contents b = contents output @ response_text order r \<and> room b k"
proof -
  have "room output (length (response_head order r) + (length (contents (entity_body r)) + k))"
    using assms(4) by (simp add: response_text_def add.assoc)
  from append_head_spec [OF assms(1-3) this] obtain b where b:
    "append_status_line_and_headers_to order r output = Inr b" "wf_buffer b"
    "contents b = contents output @ response_head order r"
    "room b (length (contents (entity_body r)) + k)" by blast
  from buf.put [OF b(2,4)] b(1,3) show ?thesis
    by (auto simp: append_to_def response_text_def contents_def)
qed

section \<open>Header fields a client can read\<close>

definition readable_headers :: "(bytes \<times> bytes) list \<Rightarrow> bool" where
  "readable_headers hs \<longleftrightarrow>
     distinct (map fst hs) \<and> (\<forall>h \<in> set hs. plain_header h) \<and> ''Content-Length'' \<notin> fst ` set hs"

lemma some_orderD:
  assumes "some_order order"
  shows "set (order hs) = set hs" "distinct (map fst (order hs)) \<longleftrightarrow> distinct (map fst hs)"
    "length (concat (map f (order hs))) = length (concat (map f hs))"
proof -
  have m: "mset (order hs) = mset hs" using assms by (simp add: some_order_def)
  then show "set (order hs) = set hs" by (rule mset_eq_setD)
  from m have "mset (map fst (order hs)) = mset (map fst hs)" by simp
  then show "distinct (map fst (order hs)) \<longleftrightarrow> distinct (map fst hs)"
    by (rule mset_eq_imp_distinct_iff)
  have "sum_mset (mset (map (\<lambda>h. length (f h)) (order hs))) = sum_mset (mset (map (\<lambda>h. length (f h)) hs))"
    using m by simp
  then show "length (concat (map f (order hs))) = length (concat (map f hs))"
    by (simp add: length_concat sum_mset_sum_list comp_def del: mset_map)
qed

lemma map_of_order:
  assumes "some_order order" and "distinct (map fst hs)"
  shows "map_of (order hs) = map_of hs"
proof (rule ext)
  fix k
  have "map_of (order hs) k = Some v \<longleftrightarrow> map_of hs k = Some v" for v
    using assms(2) some_orderD(1,2) [OF assms(1)] by (simp add: map_of_eq_Some_iff)
  then show "map_of (order hs) k = map_of hs k" by (metis option.exhaust)
qed

lemma dec_no_cr: "cr \<notin> set (dec n)" "hd (dec n) \<noteq> sp"
proof -
  have "\<forall>c \<in> set (dec n). is_digit c" by (rule dec_digits)
  then show "cr \<notin> set (dec n)" "hd (dec n) \<noteq> sp"
    using hd_in_set [OF dec_nonempty [of n]] by (force simp: is_digit_def)+
qed

lemma plain_content_length: "plain_header (''Content-Length'', dec n)"
  by (simp add: plain_header_def dec_no_cr)

lemma readable_header_fields:
  assumes "readable_headers (resp_headers r)" and "some_order order"
  shows "\<forall>h \<in> set (header_fields order r). plain_header h"
    and "distinct (map fst (header_fields order r))"
    and "map_of (header_fields order r) =
           (map_of (resp_headers r))(''Content-Length'' \<mapsto> dec (length (contents (entity_body r))))"
  using assms some_orderD [OF assms(2)] plain_content_length
  by (auto simp: readable_headers_def header_fields_def map_of_order)

text \<open>The responses the server makes have these two header fields and the phrase of their status.\<close>

definition known_types :: "bytes set" where
  "known_types = snd ` set mime_types"

definition standard_response :: "http_response \<Rightarrow> bool" where
  "standard_response r \<longleftrightarrow>
     wf_buffer (entity_body r) \<and> phrase r = status_phrase (status_code r) \<and>
     (\<exists>t \<in> known_types. resp_headers r =
        [(''Connection'', if close_connection r then ''close'' else ''keep-alive''), (''Content-Type'', t)])"

lemma mime_type_plain:
  "t \<in> known_types \<Longrightarrow> t \<noteq> [] \<and> hd t \<noteq> sp \<and> cr \<notin> set t \<and> length t \<le> 24"
  by (auto simp: known_types_def mime_types_def kDefault_def)

lemma mime_from_known: "mime_from s \<in> known_types"
proof (cases "map_of mime_types s")
  case None
  then show ?thesis by (simp add: mime_from_def mime_types_def known_types_def)
next
  case (Some t)
  then show ?thesis using map_of_SomeD [OF Some] by (force simp: mime_from_def known_types_def)
qed

lemma response_type_known: "response_type p \<in> known_types"
  by (auto simp: response_type_def mime_from_known split: option.splits)
    (simp add: mime_types_def known_types_def)

lemma standard_readable: "standard_response r \<Longrightarrow> readable_headers (resp_headers r)"
  by (auto simp: standard_response_def readable_headers_def plain_header_def dest!: mime_type_plain
      split: if_splits)

lemma standard_head_length:
  assumes "standard_response r" and "some_order order"
    and "length (contents (entity_body r)) < printable_size"
  shows "length (response_head order r) \<le> 200"
proof -
  obtain t where t: "t \<in> known_types" "resp_headers r =
      [(''Connection'', if close_connection r then ''close'' else ''keep-alive''), (''Content-Type'', t)]"
    "phrase r = status_phrase (status_code r)"
    using assms(1) by (auto simp: standard_response_def)
  have "length (dec (length (contents (entity_body r)))) \<le> 13"
    by (rule length_dec) (use assms(3) in simp_all)
  moreover have "length (phrase r) \<le> 26" unfolding t(3) by (cases "status_code r") simp_all
  moreover have "length (concat (map header_line (order (resp_headers r)))) \<le> 70"
    using mime_type_plain [OF t(1)]
    by (simp add: some_orderD(3) [OF assms(2)] t(2) header_line_def)
  moreover note length_status_number [of "status_code r"]
  ultimately show ?thesis
    by (simp add: response_head_def status_line_def header_fields_def header_line_def)
qed

lemma standard_new_response: "standard_response (set_status_code code (new_response close))"
  by (auto simp: standard_response_def new_response_def set_status_code_def set_phrase_def
      set_content_type_def set_close_connection_def add_header_def known_types_def mime_types_def kDefault_def)

lemma standard_set_content_type:
  "standard_response r \<Longrightarrow> t \<in> known_types \<Longrightarrow> standard_response (set_content_type t r)"
  by (auto simp: standard_response_def set_content_type_def add_header_def)

lemma standard_set_close_connection:
  "standard_response r \<Longrightarrow> standard_response (set_close_connection c r)"
  by (auto simp: standard_response_def set_close_connection_def add_header_def)

lemma standard_set_status_code:
  "standard_response r \<Longrightarrow> standard_response (set_status_code c r)"
  by (auto simp: standard_response_def set_status_code_def set_phrase_def)

lemma standard_set_body:
  "standard_response r \<Longrightarrow> wf_buffer b \<Longrightarrow> standard_response (r\<lparr>entity_body := b\<rparr>)"
  by (auto simp: standard_response_def)

lemma setter_simps [simp]:
  "close_connection (set_content_type t r) = close_connection r"
  "close_connection (set_status_code c r) = close_connection r"
  "close_connection (set_close_connection b r) = b"
  "close_connection (new_response b) = b"
  "status_code (set_content_type t r) = status_code r"
  "status_code (set_status_code c r) = c"
  "status_code (set_close_connection b r) = status_code r"
  "entity_body (set_content_type t r) = entity_body r"
  "entity_body (set_status_code c r) = entity_body r"
  "entity_body (set_close_connection b r) = entity_body r"
  "entity_body (new_response b) = new_buffer"
  by (simp_all add: set_content_type_def set_status_code_def set_close_connection_def
      add_header_def set_phrase_def new_response_def)

section \<open>Error pages\<close>

definition error_page :: "http_status \<Rightarrow> bytes" where
  "error_page code =
     error_title @ ''<body><h1>ERROR<hr /></h1><p>'' @ dec (status_number code) @ '', '' @
     status_phrase code @ ''</p></body></html>''"

lemma length_error_page: "length (error_page code) \<le> 150"
  using length_status_number [of code]
  by (cases code) (simp_all add: error_page_def error_title_def)

lemma standard_response_fits:
  assumes "standard_response r" "some_order order"
    and "length (contents (entity_body r)) < printable_size"
  shows "length (response_text order r) < 2 * printable_size"
  using standard_head_length [OF assms] assms(3) by (simp add: response_text_def)

lemma standard_append_head:
  assumes "standard_response r" "some_order order"
    and "length (contents (entity_body r)) < printable_size"
  shows "\<exists>b1 b2. append_status_line_and_headers_to order r new_buffer = Inr b1 \<and>
     append (peeked (entity_body r) (readable_bytes (entity_body r))) b1 = Inr b2 \<and>
     wf_buffer b2 \<and> contents b2 = response_text order r"
proof -
  have wf: "wf_buffer (entity_body r)" using assms(1) by (simp add: standard_response_def)
  have "room new_buffer (length (response_head order r) + (length (contents (entity_body r)) + 0))"
    using standard_response_fits [OF assms]
    by (simp add: response_text_def max_string_size_def)
  from append_head_spec [OF wf assms(3) wf_new_buffer this] obtain b1 where b1:
    "append_status_line_and_headers_to order r new_buffer = Inr b1" "wf_buffer b1"
    "contents b1 = response_head order r" "room b1 (length (contents (entity_body r)) + 0)"
    by auto
  from buf.put [OF b1(2,4)] b1(1,3) show ?thesis
    by (auto simp: response_text_def contents_def)
qed

lemma error_message_spec:
  assumes "standard_response r" and "some_order order"
  shows "\<exists>b r'. error_message_with order code r = Inr (b, r') \<and> wf_buffer b \<and>
     contents b = response_text order r' \<and> standard_response r' \<and> status_code r' = code \<and>
     contents (entity_body r') = error_page code \<and> close_connection r' = close_connection r"
proof -
  let ?r1 = "set_content_type kDefault (set_status_code code r)"
  let ?ss = "[error_title, ''<body><h1>ERROR<hr /></h1><p>'', dec (status_number code), '', '',
    phrase ?r1, ''</p></body></html>'']"
  have std: "standard_response ?r1"
    by (rule standard_set_content_type [OF standard_set_status_code [OF assms(1)]])
      (simp add: known_types_def mime_types_def)
  then have wf: "wf_buffer (entity_body r)" and phrase: "phrase ?r1 = status_phrase code"
    by (simp_all add: standard_response_def)
  have page: "concat ?ss = error_page code" by (simp add: error_page_def phrase)
  have "room (retrieve_all (entity_body r)) (length (concat ?ss) + 0)"
    unfolding page using length_error_page [of code]
    by (simp add: room_def retrieve_all_def kCheapPrepend_def max_string_size_def)
  from buf.put_seq [OF retrieve_all_spec(1) [OF wf] this] obtain body where body:
    "foldE append ?ss (retrieve_all (entity_body r)) = Inr body" "wf_buffer body"
    "contents body = error_page code"
    using page retrieve_all_spec(2) [OF wf] by auto
  let ?r2 = "?r1\<lparr>entity_body := body\<rparr>"
  have std2: "standard_response ?r2" by (rule standard_set_body [OF std body(2)])
  have short: "length (contents (entity_body ?r2)) < printable_size"
    using length_error_page [of code] by (simp add: body(3))
  from standard_append_head [OF std2 assms(2) short] obtain b1 b2 where b:
    "append_status_line_and_headers_to order ?r2 new_buffer = Inr b1"
    "append (peeked body (readable_bytes body)) b1 = Inr b2" "wf_buffer b2"
    "contents b2 = response_text order ?r2" by auto
  have "error_message_with order code r =
      bindE (foldE append ?ss (retrieve_all (entity_body r))) (\<lambda>body6.
      bindE (append_status_line_and_headers_to order (?r1\<lparr>entity_body := body6\<rparr>) new_buffer) (\<lambda>b1.
      bindE (append (peeked body6 (readable_bytes body6)) b1) (\<lambda>b2.
      Inr (b2, ?r1\<lparr>entity_body := body6\<rparr>))))"
    by (simp only: error_message_with_def Let_def foldE_fun bindE_assoc setter_simps bindE_simps)
  also have "\<dots> = Inr (b2, ?r2)" by (simp only: body(1) b(1,2) bindE_simps)
  finally show ?thesis using b(3,4) std2 body(3) by auto
qed

section \<open>Reading the file\<close>

lemma read_file_progress:
  assumes "wf_buffer body" and "room body (length (concat ds) + k)"
    and "length (contents body) + length (concat ds) < nat (st_size mod 2 ^ 64)"
  shows "\<exists>body'. read_file st_size (map ReadOk ds @ xs) body = read_file st_size xs body' \<and>
     wf_buffer body' \<and> contents body' = contents body @ concat ds \<and> room body' k"
  using assms
proof (induction ds arbitrary: body)
  case Nil
  then show ?case by auto
next
  case (Cons d ds)
  have "room body (length d + (length (concat ds) + k))"
    using Cons.prems(2) by (simp add: add.assoc)
  from read_fd_spec [OF Cons.prems(1) this] obtain b where b:
    "read_fd (ReadOk d) body = Inr ((int (length d), None), b)" "wf_buffer b"
    "contents b = contents body @ d" "room b (length (concat ds) + k)" by blast
  have "readable_bytes b < nat (st_size mod 2 ^ 64)"
    using Cons.prems(3) length_contents [OF b(2)] b(3) by simp
  then have "read_file st_size (map ReadOk (d # ds) @ xs) body = read_file st_size (map ReadOk ds @ xs) b"
    by (simp add: b(1))
  with Cons.IH [OF b(2,4)] Cons.prems(3) b(3) show ?case by auto
qed

lemma read_file_last:
  assumes "wf_buffer body" and "room body (length d)"
    and "nat (st_size mod 2 ^ 64) \<le> length (contents body) + length d"
  shows "\<exists>body'. wf_buffer body' \<and> contents body' = contents body @ d \<and>
     read_file st_size (ReadOk d # xs) body =
       (if nat (st_size mod 2 ^ 64) = length (contents body) + length d
        then Inr (ReadAll, body') else Inl AssertFailure)"
proof -
  from read_fd_spec [OF assms(1), of d 0] assms(2) obtain b where b:
    "read_fd (ReadOk d) body = Inr ((int (length d), None), b)" "wf_buffer b"
    "contents b = contents body @ d" by auto
  with length_contents [OF b(2)] assms(3) show ?thesis
    by (auto simp: bindE_assertE)
qed

lemma respond_error_spec:
  assumes "standard_response r" and "some_order order"
  shows "\<exists>b r'. respond_error order r calls = Inr (Responded b r' calls) \<and> wf_buffer b \<and>
     contents b = response_text order r' \<and> standard_response r' \<and> status_code r' = k404NotFound \<and>
     contents (entity_body r') = error_page k404NotFound \<and> close_connection r' = close_connection r"
  using error_message_spec [OF assms, of k404NotFound] by (auto simp: respond_error_def)

text \<open>The response once its header fields are set from the request.\<close>

definition prepared :: "http_request \<Rightarrow> http_response \<Rightarrow> http_response" where
  "prepared req r = set_content_type (response_type (path (req_line req)))
     (set_close_connection (is_close_connection req) r)"

lemma prepared_standard:
  "standard_response r \<Longrightarrow> standard_response (prepared req r)"
  "close_connection (prepared req r) = is_close_connection req"
  "entity_body (prepared req r) = entity_body r"
  "status_code (prepared req r) = status_code r"
  by (simp_all add: prepared_def standard_set_content_type standard_set_close_connection
      response_type_known)

lemma analyse_prepared:
  "analyse order opened st_size reads req r =
     (if \<not> opened then respond_error order (prepared req r) []
      else case st_size of
        None \<Rightarrow> respond_error order (prepared req r) [FdOpen, FdClose]
      | Some file_size \<Rightarrow>
          bindE (read_file file_size reads (entity_body r)) (\<lambda>(state, body).
          let r2 = (prepared req r)\<lparr>entity_body := body\<rparr> in
          case state of
            StillReading \<Rightarrow> Inr (Reading r2 [FdOpen])
          | ReadFailed \<Rightarrow> respond_error order r2 [FdOpen, FdClose]
          | ReadAll \<Rightarrow>
              bindE (append_status_line_and_headers_to order r2 new_buffer) (\<lambda>output1.
              bindE (append (peeked body (readable_bytes body)) output1) (\<lambda>output2.
              Inr (Responded output2 r2 [FdOpen, FdClose])))))"
  by (simp only: analyse_def Let_def prepared_def setter_simps)

abbreviation ok_response :: "bool \<Rightarrow> http_response" where
  "ok_response close \<equiv> set_status_code k200Ok (new_response close)"

lemma file_size_bound: "n < printable_size \<Longrightarrow> nat (int n mod 2 ^ 64) = n"
  by (simp add: nat_mod_as_int)

lemma analyse_progress:
  assumes "length (concat ds) < n" and "n < printable_size"
  shows "\<exists>body. wf_buffer body \<and> contents body = concat ds \<and> room body n \<and>
     read_file (int n) (map ReadOk ds @ xs) new_buffer = read_file (int n) xs body"
proof -
  have "room new_buffer (length (concat ds) + n)"
    using assms by (simp add: max_string_size_def)
  from read_file_progress [OF wf_new_buffer this, of "int n" xs] assms file_size_bound [OF assms(2)]
  show ?thesis by auto
qed

section \<open>Properties\<close>

text \<open>C24: Every response can be read by a client, and by the program's own parser: behind the
  status line come the header fields, \<open>Content-Length\<close> with the exact size of the body among them,
  an empty line, and exactly the body, whatever the order in which the header table is iterated.\<close>

theorem response_framing:
  assumes "wf_buffer (entity_body r)" and "length (contents (entity_body r)) < printable_size"
    and "readable_headers (resp_headers r)" and "some_order order"
    and "wf_buffer out" and "room out (length (response_text order r))"
  shows "\<exists>b rest. append_to order r out = Inr b \<and> contents b = contents out @ status_line r @ rest \<and>
     parse_bytes rest \<lparr>phase = kHeaderLines, request = new_request\<rparr> =
       Inr (True, contents (entity_body r),
         \<lparr>phase = kCompleted, request = new_request
            \<lparr>headers := (map_of (resp_headers r))
               (''Content-Length'' \<mapsto> dec (length (contents (entity_body r))))\<rparr>\<rparr>)"
proof -
  let ?c = "\<lparr>phase = kHeaderLines, request = new_request\<rparr>"
  let ?rest = "concat (map header_line (header_fields order r)) @ crlf @ contents (entity_body r)"
  note h = readable_header_fields [OF assms(3,4)]
  from append_to_spec [OF assms(1,2,5), of order 0] assms(6) obtain b where
    b: "append_to order r out = Inr b" "contents b = contents out @ status_line r @ ?rest"
    by (auto simp: response_text_def response_head_def)
  have "parse_bytes ?rest ?c = parse_bytes (contents (entity_body r))
      (?c\<lparr>request := new_request\<lparr>headers := map_of (header_fields order r)\<rparr>, phase := kEntityBody\<rparr>)"
    using parse_headers [OF h(1) _ h(2), of ?c] by (simp add: new_request_def)
  then show ?thesis
    using b by (intro exI [of _ b] exI [of _ ?rest])
      (simp add: h(3) parse_bytes.simps [of "contents _"] new_request_def default_request_line_def)
qed

theorem response_framing_witness:
  "\<exists>b rest. append_to rev (new_response True) new_buffer = Inr b \<and>
     contents b = contents new_buffer @ status_line (new_response True) @ rest \<and>
     parse_bytes rest \<lparr>phase = kHeaderLines, request = new_request\<rparr> =
       Inr (True, contents (entity_body (new_response True)),
         \<lparr>phase = kCompleted, request = new_request
            \<lparr>headers := (map_of (resp_headers (new_response True)))
               (''Content-Length'' \<mapsto> dec (length (contents (entity_body (new_response True)))))\<rparr>\<rparr>)"
proof (rule response_framing)
  have rev: "some_order rev" by (simp add: some_order_def)
  have "standard_response (set_status_code k404NotFound (new_response True))"
    by (rule standard_new_response)
  then have std: "standard_response (new_response True)"
    by (simp add: standard_response_def set_status_code_def set_phrase_def new_response_def
        set_content_type_def set_close_connection_def add_header_def)
  then show "readable_headers (resp_headers (new_response True))" by (rule standard_readable)
  show "room new_buffer (length (response_text rev (new_response True)))"
    using standard_response_fits [OF std rev] by (simp add: max_string_size_def)
qed (simp_all add: some_order_def)

lemma analyse_serves:
  assumes "some_order order" and "length (concat ds @ d) < printable_size"
    and "ds = [] \<or> d \<noteq> []"
  shows "\<exists>b r. analyse order True (Some (int (length (concat ds @ d)))) (map ReadOk ds @ ReadOk d # later)
            req (ok_response c) = Inr (Responded b r [FdOpen, FdClose]) \<and>
          contents b = response_text order r \<and> status_code r = k200Ok \<and>
          contents (entity_body r) = concat ds @ d \<and> close_connection r = is_close_connection req \<and>
          standard_response r \<and> wf_buffer b"
proof -
  let ?n = "length (concat ds @ d)" and ?r = "prepared req (ok_response c)"
  note size = file_size_bound [OF assms(2)]
  have "\<exists>body0. wf_buffer body0 \<and> contents body0 = concat ds \<and> room body0 ?n \<and>
      read_file (int ?n) (map ReadOk ds @ ReadOk d # later) new_buffer
      = read_file (int ?n) (ReadOk d # later) body0"
  proof (cases "ds = []")
    case True
    with assms(2) show ?thesis
      by (intro exI [of _ new_buffer]) (simp add: max_string_size_def del: read_file.simps)
  next
    case False
    with assms(3) have "length (concat ds) < ?n" by simp
    from analyse_progress [OF this assms(2)] show ?thesis by blast
  qed
  then obtain body0 where body0: "wf_buffer body0" "contents body0 = concat ds" "room body0 ?n"
    "read_file (int ?n) (map ReadOk ds @ ReadOk d # later) new_buffer
      = read_file (int ?n) (ReadOk d # later) body0" by blast
  have "room body0 (length d)" using body0(3) by (simp add: room_def)
  note last = read_file_last [OF body0(1) this, of "int ?n" later]
  have eq: "nat (int ?n mod 2 ^ 64) = length (contents body0) + length d"
    unfolding size body0(2) by simp
  from last [unfolded eq] body0(2) obtain body where body:
    "wf_buffer body" "contents body = concat ds @ d"
    "read_file (int ?n) (ReadOk d # later) body0 = Inr (ReadAll, body)"
    by (auto simp only: simp_thms if_True order_refl)
  let ?r2 = "?r\<lparr>entity_body := body\<rparr>"
  have std: "standard_response ?r2"
    using standard_set_body [OF prepared_standard(1) [OF standard_new_response] body(1)] .
  from standard_append_head [OF std assms(1)] assms(2) obtain b1 b2 where
    "append_status_line_and_headers_to order ?r2 new_buffer = Inr b1"
    "append (peeked body (readable_bytes body)) b1 = Inr b2" "wf_buffer b2"
    "contents b2 = response_text order ?r2"
    by (auto simp: body(2))
  then show ?thesis
    using body0(4) body(2,3) std
    by (simp add: analyse_prepared prepared_standard Let_def del: read_file.simps)
qed

text \<open>C23: A request for a file that \<open>readv\<close> delivers in any number of pieces, as many bytes as
  \<open>fstat\<close> announced, is answered with status 200 and exactly the bytes of the file as the body;
  the descriptor is closed once, and the connection is kept when the request asks for it.\<close>

theorem file_served:
  assumes "some_order order" and "length (concat ds @ d) < printable_size"
    and "ds = [] \<or> d \<noteq> []"
  shows "\<exists>b r. analyse order True (Some (int (length (concat ds @ d)))) (map ReadOk ds @ ReadOk d # later)
            req (ok_response c) = Inr (Responded b r [FdOpen, FdClose]) \<and>
          contents b = response_text order r \<and> status_code r = k200Ok \<and>
          contents (entity_body r) = concat ds @ d \<and> close_connection r = is_close_connection req \<and>
          standard_response r \<and> wf_buffer b"
  by (rule analyse_serves [OF assms])

theorem file_served_witness:
  "\<exists>b r. analyse rev True (Some (int (length (concat [''<html>''] @ ''</html>''))))
       (map ReadOk [''<html>''] @ ReadOk ''</html>'' # []) new_request (ok_response True)
       = Inr (Responded b r [FdOpen, FdClose]) \<and>
     contents b = response_text rev r \<and> status_code r = k200Ok \<and>
     contents (entity_body r) = concat [''<html>''] @ ''</html>'' \<and>
     close_connection r = is_close_connection new_request \<and> standard_response r \<and> wf_buffer b"
  by (rule file_served) (simp_all add: some_order_def)

text \<open>C35: Whatever goes wrong with the file, the answer is the page of status 404: a file that does
  not open, one that \<open>fstat\<close> fails on, and one that \<open>readv\<close> fails on after any part of it; the part
  that was read is not sent, and a descriptor that was opened is closed, once.\<close>

theorem file_error_answered:
  assumes "some_order order" and "length (concat ds) < n" and "n < printable_size"
    and "(opened, st_size, reads, calls) \<in>
      {(False, any_size, any_reads, []), (True, None, any_reads, [FdOpen, FdClose]),
       (True, Some (int n), map ReadOk ds @ ReadErr e # later, [FdOpen, FdClose])}"
  shows "\<exists>b r. analyse order opened st_size reads req (ok_response c) = Inr (Responded b r calls) \<and>
          contents b = response_text order r \<and> status_code r = k404NotFound \<and>
          contents (entity_body r) = error_page k404NotFound \<and>
          close_connection r = is_close_connection req \<and> standard_response r \<and> wf_buffer b"
proof -
  let ?r = "prepared req (ok_response c)"
  have std: "standard_response ?r" by (rule prepared_standard(1) [OF standard_new_response])
  obtain body where body: "wf_buffer body"
    "read_file (int n) (map ReadOk ds @ ReadErr e # later) new_buffer = Inr (ReadFailed, body)"
    using analyse_progress [OF assms(2,3), of "ReadErr e # later"] by (auto simp: read_fd_def)
  let ?r2 = "?r\<lparr>entity_body := body\<rparr>"
  have std2: "standard_response ?r2" by (rule standard_set_body [OF std body(1)])
  have "analyse order opened st_size reads req (ok_response c) = respond_error order ?r calls \<or>
      analyse order opened st_size reads req (ok_response c) = respond_error order ?r2 calls"
    using assms(4) body(2) by (auto simp: analyse_prepared prepared_standard Let_def)
  with respond_error_spec [OF std assms(1), of calls] respond_error_spec [OF std2 assms(1), of calls]
  show ?thesis by (auto simp: prepared_standard)
qed

theorem file_error_answered_witness:
  "\<exists>b r. analyse rev True (Some (int 5)) (map ReadOk [''ab''] @ ReadErr 5 # []) new_request (ok_response True)
        = Inr (Responded b r [FdOpen, FdClose]) \<and>
     contents b = response_text rev r \<and> status_code r = k404NotFound \<and>
     contents (entity_body r) = error_page k404NotFound \<and>
     close_connection r = is_close_connection new_request \<and> standard_response r \<and> wf_buffer b"
  by (rule file_error_answered [where any_size = None and any_reads = "[]" and ds = "[''ab'']"
        and n = 5 and e = 5 and later = "[]"])
    (simp_all add: some_order_def)

text \<open>C39: The loop that reads the file trusts \<open>fstat\<close>. When the file became shorter, every further
  \<open>readv\<close> answers 0 and the loop goes on forever, the loop's thread in it and the descriptor open;
  when the file became longer and the last piece goes beyond the announced size, the assertion
  behind the loop ends the process.\<close>

theorem changed_file_not_served:
  assumes "length (concat ds) < n" and "n < printable_size"
  shows "(\<exists>r. analyse order True (Some (int n)) (map ReadOk ds @ replicate k (ReadOk [])) req (ok_response c)
              = Inr (Reading r [FdOpen])) \<and>
         (n < length (concat ds @ d) \<longrightarrow> length d < printable_size \<longrightarrow>
          analyse order True (Some (int n)) (map ReadOk ds @ ReadOk d # later) req (ok_response c)
            = Inl AssertFailure)"
proof
  let ?r = "prepared req (ok_response c)"
  have "length (concat (ds @ replicate k [])) < n" using assms(1) by simp
  from analyse_progress [OF this assms(2), of "[]"]
  obtain body where body:
    "read_file (int n) (map ReadOk ds @ replicate k (ReadOk [])) new_buffer = Inr (StillReading, body)"
    by auto
  then show "\<exists>r. analyse order True (Some (int n)) (map ReadOk ds @ replicate k (ReadOk [])) req
      (ok_response c) = Inr (Reading r [FdOpen])"
    by (simp add: analyse_prepared prepared_standard Let_def)
  show "n < length (concat ds @ d) \<longrightarrow> length d < printable_size \<longrightarrow>
      analyse order True (Some (int n)) (map ReadOk ds @ ReadOk d # later) req (ok_response c)
        = Inl AssertFailure"
  proof (intro impI)
    assume d: "n < length (concat ds @ d)" "length d < printable_size"
    have "room new_buffer (length (concat ds) + length d)"
      using assms d by (simp add: max_string_size_def)
    from read_file_progress [OF wf_new_buffer this, of "int n" "ReadOk d # later"] assms
    obtain body0 where body0: "wf_buffer body0" "contents body0 = concat ds" "room body0 (length d)"
      "read_file (int n) (map ReadOk ds @ ReadOk d # later) new_buffer
        = read_file (int n) (ReadOk d # later) body0"
      using file_size_bound [OF assms(2)] by (auto simp del: read_file.simps)
    have "read_file (int n) (ReadOk d # later) body0 = Inl AssertFailure"
      using read_file_last [OF body0(1,3), of "int n" later] d file_size_bound [OF assms(2)] body0(2)
      by (auto simp del: read_file.simps)
    with body0(4) show "analyse order True (Some (int n)) (map ReadOk ds @ ReadOk d # later) req
        (ok_response c) = Inl AssertFailure"
      by (simp add: analyse_prepared prepared_standard Let_def del: read_file.simps)
  qed
qed

theorem changed_file_not_served_witness:
  "(\<exists>r. analyse rev True (Some (int 5)) (map ReadOk [''abc''] @ replicate 1000 (ReadOk [])) new_request
         (ok_response True) = Inr (Reading r [FdOpen])) \<and>
   analyse rev True (Some (int 5)) (map ReadOk [''abc''] @ ReadOk ''defg'' # []) new_request
      (ok_response True) = Inl AssertFailure"
  by (rule conjI, rule changed_file_not_served [THEN conjunct1], simp, simp,
      rule changed_file_not_served [where n = 5, THEN conjunct2, rule_format]) simp_all

end
