(* ===== verification/Http_Server.thy ===== *)
theory Http_Server
  imports Conn_Context Http_Response
begin

text \<open>
  The HTTP server: \<open>wuduo/http/http_server.h\<close> and \<open>wuduo/http/http_server.cpp\<close>. It is a user of
  the TCP server: its two callbacks run on a connection whose context is the parser's state. What
  the file system answers to the \<open>i\<close>-th request that is served is a parameter; \<open>served\<close> counts
  these requests.
\<close>

section \<open>The callbacks\<close>

text \<open>The answers of \<open>open\<close>, \<open>fstat\<close> and the calls of \<open>readv\<close> for one file. They depend on the name
  that is opened, which ends at a NUL of the path (\<open>c_str\<close>), and on when it is: \<open>files i p\<close> are
  the answers for the name \<open>p\<close> at the \<open>i\<close>-th request.\<close>

record file_answers =
  opens :: bool
  st_size :: "int option"
  reads :: "read_result list"

record http_state =
  served :: nat

type_synonym http_connection = "http_context option connection"

definition http_connection_callback :: "(http_state shared, http_context option) callback" where
  "http_connection_callback s =
     Inr (fst s, if is_connected (snd s) then set_context (Some new_context) (snd s) else snd s)"

text \<open>The answer to a request that is complete. A call of \<open>analyse\<close> that does not return with the
  answers of \<open>readv\<close> that are given is \<open>NoReturn\<close>.\<close>

definition respond ::
    "((bytes \<times> bytes) list \<Rightarrow> (bytes \<times> bytes) list) \<Rightarrow> kernel \<Rightarrow> file_answers \<Rightarrow> http_context
      \<Rightarrow> http_connection \<Rightarrow> http_connection result" where
  "respond order k file ctx c =
     (let req = request ctx;
          response = set_status_code k200Ok (new_response (is_close_connection req))
      in bindE (analyse order (opens file) (st_size file) (reads file) req response) (\<lambda>a.
         case a of
           Reading _ _ \<Rightarrow> Inl NoReturn
         | Responded buf response' _ \<Rightarrow>
             bindE (send_data k True (peeked buf (readable_bytes buf)) c) (\<lambda>c1.
             let c2 = (if close_connection response' then shutdown k True c1 else c1)
             in Inr (set_context (Some (reset_context ctx)) c2))))"

definition refuse ::
    "((bytes \<times> bytes) list \<Rightarrow> (bytes \<times> bytes) list) \<Rightarrow> kernel \<Rightarrow> http_connection \<Rightarrow> http_connection result" where
  "refuse order k c =
     bindE (error_message_with order k400BadRequest (new_response True)) (\<lambda>(buf, _).
     bindE (send_buffer k True buf c) (\<lambda>(_, c1).
     Inr (shutdown k True c1)))"

definition opened_path :: "http_request \<Rightarrow> bytes" where
  "opened_path req = takeWhile (\<lambda>c. c \<noteq> CHR 0x00) (path (req_line req))"

definition on_message ::
    "((bytes \<times> bytes) list \<Rightarrow> (bytes \<times> bytes) list) \<Rightarrow> kernel \<Rightarrow> (nat \<Rightarrow> bytes \<Rightarrow> file_answers)
      \<Rightarrow> (http_state shared, http_context option) callback" where
  "on_message order k files s =
     (case conn_context (snd s) of
        None \<Rightarrow> Inl NullDeref
      | Some ctx \<Rightarrow>
          bindE (parse_request (in_buffer (snd s)) ctx) (\<lambda>(ok, b, ctx1).
          let c1 = (snd s)\<lparr>in_buffer := b, conn_context := Some ctx1\<rparr> in
          bindE (if \<not> ok then refuse order k c1 else Inr c1) (\<lambda>c2.
          if parsing_completed ctx1
          then let i = served (user_state (fst s)) in
               bindE (respond order k (files i (opened_path (request ctx1))) ctx1 c2) (\<lambda>c3.
               Inr ((fst s)\<lparr>user_state := \<lparr>served = Suc i\<rparr>\<rparr>, c3))
          else Inr (fst s, c2))))"

definition http_user ::
    "((bytes \<times> bytes) list \<Rightarrow> (bytes \<times> bytes) list) \<Rightarrow> (nat \<Rightarrow> kernel) \<Rightarrow> (nat \<Rightarrow> bytes \<Rightarrow> file_answers)
      \<Rightarrow> (http_state, http_context option) user_callbacks" where
  "http_user order k files =
     server_set_message_callback (\<lambda>conn. on_message order (k conn) files)
       (server_set_connection_callback (\<lambda>_. http_connection_callback) no_user_callbacks)"

definition http_server_ctor ::
    "nat \<Rightarrow> int \<Rightarrow> bool \<Rightarrow> sockaddr_in \<Rightarrow> (http_state, http_context option) server result" where
  "http_server_ctor loop listen_fd bind_ok address = server_ctor loop listen_fd bind_ok address \<lparr>served = 0\<rparr>"

definition http_server_start ::
    "(nat \<Rightarrow> nat) \<Rightarrow> bool \<Rightarrow> bool \<Rightarrow> (http_state, http_context option) server
      \<Rightarrow> (http_state, http_context option) server result" where
  "http_server_start new_loop ctl_ok here s = server_start new_loop ctl_ok here s"

section \<open>The error page written past the connection\<close>

definition send_error_page :: "kernel \<Rightarrow> int \<Rightarrow> bytes \<Rightarrow> http_connection \<Rightarrow> http_connection" where
  "send_error_page k error_code short_msg c =
     (let status = ''HTTP/1.1 '' @ int_dec error_code @ '' '' @ short_msg @ crlf;
          headers = ''Content-Type: text/html;charset=utf-8 '' @ crlf @ crlf;
          body = error_title;
          error_contents = ''<body><h1>ERROR<hr /></h1><p>'' @ int_dec error_code @ '', '' @ short_msg @
            ''</p></body></html>''
      in snd (on_socket k (concat [status, headers, body, error_contents]) c))"

definition http_handle_error ::
    "kernel \<Rightarrow> ('w, http_context option) conn_callbacks \<Rightarrow> bool \<Rightarrow> int \<Rightarrow> bytes \<Rightarrow> 'w \<times> http_connection
      \<Rightarrow> ('w \<times> http_connection) result" where
  "http_handle_error k cbs here error_code short_msg s =
     force_close k cbs here (fst s, send_error_page k error_code short_msg (snd s))"

section \<open>Responses are bounded by the files\<close>

fun answer_bytes :: "read_result \<Rightarrow> nat" where
  "answer_bytes (ReadOk d) = length d"
| "answer_bytes (ReadErr e) = 0"

definition total_bytes :: "read_result list \<Rightarrow> nat" where
  "total_bytes rs = sum_list (map answer_bytes rs)"

definition small_files :: "(nat \<Rightarrow> bytes \<Rightarrow> file_answers) \<Rightarrow> bool" where
  "small_files files \<longleftrightarrow> (\<forall>i p. total_bytes (reads (files i p)) < printable_size)"

lemma read_file_bound:
  "wf_buffer body \<Longrightarrow> room body (total_bytes rs) \<Longrightarrow> read_file size0 rs body = Inr (x, body') \<Longrightarrow>
   wf_buffer body' \<and> length (contents body') \<le> length (contents body) + total_bytes rs"
proof (induction rs arbitrary: body)
  case Nil
  then show ?case by simp
next
  case (Cons r rs)
  show ?case
  proof (cases r)
    case (ReadErr e)
    with Cons.prems show ?thesis by (auto simp: read_fd_def)
  next
    case (ReadOk d)
    have "room body (length d + total_bytes rs)"
      using Cons.prems(2) ReadOk by (simp add: total_bytes_def)
    from read_fd_spec [OF Cons.prems(1) this] obtain b where b:
      "read_fd (ReadOk d) body = Inr ((int (length d), None), b)" "wf_buffer b"
      "contents b = contents body @ d" "room b (total_bytes rs)" by blast
    from Cons.prems(3) b(1) ReadOk have
      "read_file size0 rs b = Inr (x, body') \<or> body' = b"
      by (auto simp: bindE_eq_Inr split: if_splits)
    with Cons.IH [OF b(2,4)] b(2,3) ReadOk show ?thesis
      by (auto simp: total_bytes_def)
  qed
qed

lemma analyse_bound:
  assumes "some_order order" and "total_bytes rs < printable_size"
    and "analyse order op st rs req (ok_response close) = Inr (Responded b r fds)"
  shows "wf_buffer b \<and> length (contents b) < 2 * printable_size \<and> standard_response r"
proof -
  let ?r = "prepared req (ok_response close)"
  have std: "standard_response ?r" by (rule prepared_standard(1) [OF standard_new_response])
  have page: ?thesis if "standard_response r0" "respond_error order r0 c0 = Inr (Responded b r fds)" for r0 c0
  proof -
    from respond_error_spec [OF that(1) assms(1), of c0] that(2) have
      e: "wf_buffer b" "contents b = response_text order r" "standard_response r"
      "contents (entity_body r) = error_page k404NotFound" by auto
    have "length (contents (entity_body r)) < printable_size"
      using length_error_page [of k404NotFound] by (simp add: e(4))
    from standard_response_fits [OF e(3) assms(1) this] e show ?thesis by simp
  qed
  show ?thesis
  proof (cases "op \<and> st \<noteq> None")
    case False
    then have "analyse order op st rs req (ok_response close) =
        respond_error order ?r (if op then [FdOpen, FdClose] else [])"
      by (auto simp: analyse_prepared)
    with page [OF std] assms(3) show ?thesis by metis
  next
    case True
    then obtain n where n: "st = Some n" by auto
    from assms(3) True n obtain x body where body: "read_file n rs new_buffer = Inr (x, body)"
      by (auto simp: analyse_prepared prepared_standard bindE_eq_Inr)
    let ?r2 = "?r\<lparr>entity_body := body\<rparr>"
    have "room new_buffer (total_bytes rs)" using assms(2) by (simp add: max_string_size_def)
    from read_file_bound [OF wf_new_buffer this body] assms(2)
    have bound: "wf_buffer body" "length (contents body) < printable_size" by auto
    have std2: "standard_response ?r2" by (rule standard_set_body [OF std bound(1)])
    show ?thesis
    proof (cases x)
      case StillReading
      with assms(3) True n body show ?thesis
        by (simp add: analyse_prepared prepared_standard Let_def)
    next
      case ReadFailed
      with assms(3) True n body have "respond_error order ?r2 [FdOpen, FdClose] = Inr (Responded b r fds)"
        by (simp add: analyse_prepared prepared_standard Let_def)
      with page [OF std2] show ?thesis by blast
    next
      case ReadAll
      have short: "length (contents (entity_body ?r2)) < printable_size" using bound(2) by simp
      from standard_append_head [OF std2 assms(1) short] obtain b1 b2 where
        "append_status_line_and_headers_to order ?r2 new_buffer = Inr b1"
        "append (peeked body (readable_bytes body)) b1 = Inr b2" "wf_buffer b2"
        "contents b2 = response_text order ?r2" by auto
      with ReadAll assms(3) True n body have "b = b2" "r = ?r2"
        by (simp_all add: analyse_prepared prepared_standard Let_def)
      with \<open>wf_buffer b2\<close> \<open>contents b2 = _\<close> standard_response_fits [OF std2 assms(1) short] std2
      show ?thesis by simp
    qed
  qed
qed

lemma refusal_bound:
  assumes "some_order order"
  shows "\<exists>b r. error_message_with order k400BadRequest (new_response True) = Inr (b, r) \<and> wf_buffer b \<and>
     contents b = response_text order r \<and> length (contents b) < 2 * printable_size \<and>
     standard_response r \<and> status_code r = k400BadRequest \<and>
     contents (entity_body r) = error_page k400BadRequest"
proof -
  have "standard_response (set_status_code k404NotFound (new_response True))"
    by (rule standard_new_response)
  then have "standard_response (new_response True)"
    by (simp add: standard_response_def set_status_code_def set_phrase_def new_response_def
        set_content_type_def set_close_connection_def add_header_def)
  from error_message_spec [OF this assms, of k400BadRequest] obtain b r where e:
    "error_message_with order k400BadRequest (new_response True) = Inr (b, r)" "wf_buffer b"
    "contents b = response_text order r" "standard_response r" "status_code r = k400BadRequest"
    "contents (entity_body r) = error_page k400BadRequest" by blast
  have "length (contents (entity_body r)) < printable_size"
    using length_error_page [of k400BadRequest] by (simp add: e(6))
  from standard_response_fits [OF e(4) assms this] e show ?thesis by simp
qed

section \<open>The callbacks keep the contract\<close>

text \<open>What a callback that does not close the connection keeps.\<close>

definition undisturbed :: "nat \<Rightarrow> 'x connection \<Rightarrow> 'x connection \<Rightarrow> bool" where
  "undisturbed n c c' \<longleftrightarrow>
     advances n c c' \<and> posted c' = posted c \<and>
     (conn_state c' = kDisconnected \<longleftrightarrow> conn_state c = kDisconnected)"

lemma undisturbed_trans:
  "undisturbed m c c1 \<Longrightarrow> undisturbed n c1 c2 \<Longrightarrow> undisturbed n c c2"
  by (auto simp: undisturbed_def intro: advances_trans)

lemma undisturbed_refl: "conn_inv n c \<Longrightarrow> undisturbed n c c"
  by (simp add: undisturbed_def advances_refl)

lemma undisturbed_contract:
  "undisturbed n c c' \<Longrightarrow> advances n c c' \<and> posts_nothing_else c c'"
  by (simp add: undisturbed_def posts_nothing_else_eq)

lemma undisturbed_once:
  "undisturbed n c c' \<Longrightarrow> connections w' = connections w \<Longrightarrow> removals w' = removals w \<Longrightarrow>
   closes_once conn (w, c) (w', c')"
  by (auto simp: undisturbed_def advances_def closes_once_def)

lemma undisturbed_context [simp]:
  "undisturbed n c (set_context x c') \<longleftrightarrow> undisturbed n c c'"
  by (simp add: undisturbed_def advances_def set_context_def stream_def)

lemma send_undisturbed:
  assumes "kernel_ok k" and "conn_inv (length d + n) c"
  shows "\<exists>c'. send_data k True d c = Inr c' \<and> undisturbed n c c' \<and> in_buffer c' = in_buffer c \<and>
    conn_context c' = conn_context c \<and> conn_state c' = conn_state c \<and>
    stream c' = stream c @ (if conn_state c = kConnected then d else [])"
proof (cases "conn_state c = kConnected")
  case True
  then have "conn_state c \<noteq> kConnecting" by simp
  from send_in_loop_spec [OF assms this] True show ?thesis
    by (auto simp: send_data_def undisturbed_def)
next
  case False
  moreover have "conn_inv n c" using assms(2) by (rule conn_inv_mono) simp
  ultimately show ?thesis by (simp add: send_data_def undisturbed_refl)
qed

lemma send_buffer_eq:
  "bindE (send_buffer k True b c) (\<lambda>(_, c1). f c1) = bindE (send_data k True (contents b) c) f"
  by (simp add: send_buffer_def send_data_def contents_def bindE_assoc)

lemma shutdown_undisturbed: "conn_inv n c \<Longrightarrow> undisturbed n c (shutdown k True c)"
  using shutdown_spec(1,3) [of n c]
  by (auto simp: undisturbed_def shutdown_def shutdown_task_def set_state_def Let_def)

lemma send_write_shut: "send_data k True d c = Inr c' \<Longrightarrow> write_shut (sock c') = write_shut (sock c)"
  by (auto simp: send_data_def send_in_loop_def on_socket_def sock_write_def on_channel_def bindE_eq_Inr Let_def
      split: if_splits write_result.splits prod.splits)

lemma shutdown_half_close:
  assumes "conn_inv n c" and "conn_state c = kConnected"
  shows "write_shut (sock (shutdown k True c)) = (write_shut (sock c) \<or>
      contents (output_buffer (shutdown k True c)) = [] \<and> k_shutdown k (calls (sock (shutdown k True c)) - 1))"
  using assms open_writing(3) [OF assms(1)]
  by (simp add: shutdown_def shutdown_task_def set_state_def sock_shutdown_def Let_def)

definition http_cost :: nat where
  "http_cost = 4 * printable_size"

lemma refuse_undisturbed:
  assumes "kernel_ok k" and "some_order order" and "conn_inv (2 * printable_size + n) c"
  shows "\<exists>c' r. refuse order k c = Inr c' \<and> undisturbed n c c' \<and> in_buffer c' = in_buffer c \<and>
    conn_context c' = conn_context c \<and> standard_response r \<and> status_code r = k400BadRequest \<and>
    contents (entity_body r) = error_page k400BadRequest \<and>
    stream c' = stream c @ (if conn_state c = kConnected then response_text order r else []) \<and>
    conn_state c' = (if conn_state c = kConnected then kDisconnecting else conn_state c) \<and>
    (conn_state c = kConnected \<longrightarrow> write_shut (sock c') =
       (write_shut (sock c) \<or> contents (output_buffer c') = [] \<and> k_shutdown k (calls (sock c') - 1)))"
proof -
  from refusal_bound [OF assms(2)] obtain b r where b:
    "error_message_with order k400BadRequest (new_response True) = Inr (b, r)"
    "contents b = response_text order r" "length (contents b) < 2 * printable_size"
    "standard_response r" "status_code r = k400BadRequest"
    "contents (entity_body r) = error_page k400BadRequest" by blast
  have "conn_inv (length (contents b) + n) c"
    using assms(3) by (rule conn_inv_mono) (use b(3) in simp)
  from send_undisturbed [OF assms(1) this] obtain c1 where c1:
    "send_data k True (contents b) c = Inr c1" "undisturbed n c c1" "in_buffer c1 = in_buffer c"
    "conn_context c1 = conn_context c" "conn_state c1 = conn_state c"
    "stream c1 = stream c @ (if conn_state c = kConnected then contents b else [])" by blast
  have inv1: "conn_inv n c1" using c1(2) by (simp add: undisturbed_def advances_def)
  have eq: "refuse order k c = Inr (shutdown k True c1)"
    by (simp add: refuse_def b(1) send_buffer_eq c1(1))
  note shut = shutdown_half_close [OF inv1, of k] send_write_shut [OF c1(1)]
  have rest: "in_buffer (shutdown k True c1) = in_buffer c1"
    "conn_context (shutdown k True c1) = conn_context c1"
    "conn_state (shutdown k True c1) = (if conn_state c1 = kConnected then kDisconnecting else conn_state c1)"
    by (simp_all add: shutdown_def shutdown_task_def set_state_def Let_def)
  show ?thesis
    using eq undisturbed_trans [OF c1(2) shutdown_undisturbed [OF inv1]] rest c1(3-6) b(2,4-6)
      shutdown_spec(2) [OF inv1] shut
    by (intro exI [of _ "shutdown k True c1"] exI [of _ r]) simp
qed

lemma respond_undisturbed:
  assumes "kernel_ok k" and "some_order order" and "conn_inv (2 * printable_size + n) c"
    and "total_bytes (reads file) < printable_size" and "respond order k file ctx c = Inr c'"
  shows "undisturbed n c c'"
proof -
  from assms(5) obtain b r fds c1 where a:
    "analyse order (opens file) (st_size file) (reads file) (request ctx)
       (ok_response (is_close_connection (request ctx))) = Inr (Responded b r fds)" and
    c1: "send_data k True (contents b) c = Inr c1" and
    c': "c' = set_context (Some (reset_context ctx)) (if close_connection r then shutdown k True c1 else c1)"
  proof -
    from assms(5) obtain a0 where a0: "analyse order (opens file) (st_size file) (reads file) (request ctx)
       (ok_response (is_close_connection (request ctx))) = Inr a0"
      by (auto simp: respond_def bindE_eq_Inr Let_def)
    from assms(5) show thesis
      using that a0 by (cases a0) (auto simp: respond_def bindE_eq_Inr contents_def Let_def)
  qed
  have "conn_inv (length (contents b) + n) c"
    using assms(3) by (rule conn_inv_mono) (use analyse_bound [OF assms(2,4) a] in simp)
  from send_undisturbed [OF assms(1) this] c1 have u: "undisturbed n c c1" by auto
  then have "conn_inv n c1" by (simp add: undisturbed_def advances_def)
  from undisturbed_trans [OF u shutdown_undisturbed [OF this]] u show ?thesis
    by (simp add: c')
qed

text \<open>The parser only takes bytes out of the input buffer.\<close>

lemma parsed_undisturbed:
  assumes "conn_inv n c" and "parse_request (in_buffer c) ctx = Inr (ok, b, ctx1)"
  shows "undisturbed n c (c\<lparr>in_buffer := b, conn_context := x\<rparr>)"
proof -
  have "wf_buffer (in_buffer c)" "room (in_buffer c) n" using assms(1) by (simp_all add: conn_inv_def)
  with parse_request_ok [OF this(1) assms(2)] have "wf_buffer b" "room b n" by auto
  with assms(1) have "conn_inv n (c\<lparr>in_buffer := b\<rparr>)"
    by (cases "conn_state c"; simp add: conn_inv_def)
  then have "conn_inv n (c\<lparr>in_buffer := b\<rparr>\<lparr>conn_context := x\<rparr>)" by (simp only: conn_inv_update)
  then show ?thesis by (simp add: undisturbed_def advances_def stream_def)
qed

lemma on_message_InrE:
  assumes "on_message order k files (w, c) = Inr (w', c')"
  obtains ctx ok b ctx1 c2 where "parse_request (in_buffer c) ctx = Inr (ok, b, ctx1)"
    and "(if \<not> ok then refuse order k (c\<lparr>in_buffer := b, conn_context := Some ctx1\<rparr>)
       else Inr (c\<lparr>in_buffer := b, conn_context := Some ctx1\<rparr>)) = Inr c2"
    and "(if parsing_completed ctx1
       then respond order k (files (served (user_state w)) (opened_path (request ctx1))) ctx1 c2 = Inr c' \<and>
         w' = w\<lparr>user_state := \<lparr>served = Suc (served (user_state w))\<rparr>\<rparr>
       else c' = c2 \<and> w' = w)"
proof -
  from assms obtain ctx ok b ctx1 where ctx: "conn_context c = Some ctx"
    "parse_request (in_buffer c) ctx = Inr (ok, b, ctx1)"
    by (auto simp: on_message_def bindE_eq_Inr split: option.splits)
  let ?r = "if \<not> ok then refuse order k (c\<lparr>in_buffer := b, conn_context := Some ctx1\<rparr>)
       else Inr (c\<lparr>in_buffer := b, conn_context := Some ctx1\<rparr>)"
  from assms obtain c2 where c2: "?r = Inr c2"
    by (auto simp: on_message_def ctx bindE_eq_Inr Let_def)
  have "(if parsing_completed ctx1
       then respond order k (files (served (user_state w)) (opened_path (request ctx1))) ctx1 c2 = Inr c' \<and>
         w' = w\<lparr>user_state := \<lparr>served = Suc (served (user_state w))\<rparr>\<rparr>
       else c' = c2 \<and> w' = w)"
    using assms c2 by (auto simp: on_message_def ctx bindE_eq_Inr Let_def split: if_splits)
  with ctx(2) c2 show thesis by (rule that)
qed

lemma on_message_undisturbed:
  assumes "kernel_ok k" and "some_order order" and "small_files files"
    and "conn_inv (n + http_cost) c" and "on_message order k files (w, c) = Inr (w', c')"
  shows "undisturbed n c c' \<and> connections w' = connections w \<and> removals w' = removals w"
proof -
  let ?p = printable_size
  from on_message_InrE [OF assms(5)] obtain ctx ok b ctx1 c2 where
    p: "parse_request (in_buffer c) ctx = Inr (ok, b, ctx1)"
    and c2: "(if \<not> ok then refuse order k (c\<lparr>in_buffer := b, conn_context := Some ctx1\<rparr>)
       else Inr (c\<lparr>in_buffer := b, conn_context := Some ctx1\<rparr>)) = Inr c2"
    and last: "(if parsing_completed ctx1
       then respond order k (files (served (user_state w)) (opened_path (request ctx1))) ctx1 c2 = Inr c' \<and>
         w' = w\<lparr>user_state := \<lparr>served = Suc (served (user_state w))\<rparr>\<rparr>
       else c' = c2 \<and> w' = w)" by metis
  let ?c1 = "c\<lparr>in_buffer := b, conn_context := Some ctx1\<rparr>"
  have u1: "undisturbed (n + http_cost) c ?c1" by (rule parsed_undisturbed [OF assms(4) p])
  then have inv1: "conn_inv (n + http_cost) ?c1" by (simp add: undisturbed_def advances_def)
  have "undisturbed (n + 2 * ?p) ?c1 c2"
  proof (cases ok)
    case True
    then have "c2 = ?c1" using c2 by simp
    moreover have "conn_inv (n + 2 * ?p) ?c1"
      using inv1 by (rule conn_inv_mono) (simp add: http_cost_def)
    ultimately show ?thesis by (simp only: undisturbed_refl)
  next
    case False
    have "conn_inv (2 * ?p + (n + 2 * ?p)) ?c1"
      using inv1 by (rule conn_inv_mono) (simp add: http_cost_def)
    from refuse_undisturbed [OF assms(1,2) this] c2 False show ?thesis by auto
  qed
  with u1 have u2: "undisturbed (n + 2 * ?p) c c2" by (rule undisturbed_trans)
  then have "conn_inv (2 * ?p + n) c2" by (simp add: undisturbed_def advances_def add.commute)
  from respond_undisturbed [OF assms(1,2) this, of "files (served (user_state w)) (opened_path (request ctx1))" ctx1] assms(3)
  have u3: "undisturbed n c2 c3" if "respond order k (files (served (user_state w)) (opened_path (request ctx1))) ctx1 c2 = Inr c3" for c3
    using that by (auto simp: small_files_def)
  have u2n: "undisturbed n c c2"
    using u2 by (auto simp: undisturbed_def elim: advances_mono)
  show ?thesis
    using last u3 u2n undisturbed_trans [OF u2] by (auto split: if_splits)
qed

lemma connection_callback_undisturbed:
  assumes "conn_inv (n + http_cost) c" and "http_connection_callback (w, c) = Inr (w', c')"
  shows "undisturbed n c c' \<and> w' = w"
proof -
  have "conn_inv n c" using assms(1) by (rule conn_inv_mono) simp
  with assms(2) show ?thesis
    by (auto simp: http_connection_callback_def undisturbed_refl)
qed

text \<open>Closing once does not depend on the state of the buffers.\<close>

definition calm :: "'x connection \<Rightarrow> 'x connection \<Rightarrow> bool" where
  "calm c c' \<longleftrightarrow> conn_loop c' = conn_loop c \<and> posted c' = posted c \<and>
     (conn_state c' = kDisconnected \<longleftrightarrow> conn_state c = kDisconnected)"

lemma calm_trans: "calm a b \<Longrightarrow> calm b c \<Longrightarrow> calm a c"
  by (simp add: calm_def)

lemma calm_simps [simp]:
  "calm c c" "calm c (set_context x c') \<longleftrightarrow> calm c c'"
  "calm c (c\<lparr>in_buffer := b, conn_context := x\<rparr>)"
  by (simp_all add: calm_def set_context_def)

lemma calm_frame: "same_frame c c' \<Longrightarrow> calm c c'"
  by (simp add: calm_def same_frame_def)

lemma send_calm: "send_data k True d c = Inr c' \<Longrightarrow> calm c c'"
  by (auto simp: send_data_def intro: calm_frame frame_intros split: if_splits)

lemma shutdown_calm: "calm c (shutdown k True c)"
  by (simp add: calm_def shutdown_def shutdown_task_def set_state_def Let_def)

lemma calm_once:
  "calm c c' \<Longrightarrow> connections w' = connections w \<Longrightarrow> removals w' = removals w \<Longrightarrow>
   closes_once conn (w, c) (w', c')"
  by (simp add: calm_def closes_once_def)

lemma refuse_calm: "refuse order k c = Inr c' \<Longrightarrow> calm c c'"
proof -
  assume "refuse order k c = Inr c'"
  then obtain b c1 where "send_data k True b c = Inr c1" "c' = shutdown k True c1"
    by (auto simp: refuse_def send_buffer_eq bindE_eq_Inr)
  with send_calm shutdown_calm calm_trans show ?thesis by blast
qed

lemma respond_calm: "respond order k file ctx c = Inr c' \<Longrightarrow> calm c c'"
proof -
  assume r: "respond order k file ctx c = Inr c'"
  then obtain a0 where a0: "analyse order (opens file) (st_size file) (reads file) (request ctx)
      (ok_response (is_close_connection (request ctx))) = Inr a0"
    by (auto simp: respond_def bindE_eq_Inr Let_def)
  then obtain b c1 cl where "send_data k True b c = Inr c1"
    "c' = set_context (Some (reset_context ctx)) (if cl then shutdown k True c1 else c1)"
    using r by (cases a0) (auto simp: respond_def bindE_eq_Inr Let_def)
  with send_calm [of k b c c1] calm_trans [OF _ shutdown_calm, of c c1 k] show ?thesis by simp
qed

lemma on_message_calm:
  assumes "on_message order k files (w, c) = Inr (w', c')"
  shows "calm c c'" "connections w' = connections w" "removals w' = removals w"
proof -
  from on_message_InrE [OF assms] obtain ctx ok b ctx1 c2 where
    c2: "(if \<not> ok then refuse order k (c\<lparr>in_buffer := b, conn_context := Some ctx1\<rparr>)
       else Inr (c\<lparr>in_buffer := b, conn_context := Some ctx1\<rparr>)) = Inr c2"
    and last: "(if parsing_completed ctx1
       then respond order k (files (served (user_state w)) (opened_path (request ctx1))) ctx1 c2 = Inr c' \<and>
         w' = w\<lparr>user_state := \<lparr>served = Suc (served (user_state w))\<rparr>\<rparr>
       else c' = c2 \<and> w' = w)" by metis
  have "calm (c\<lparr>in_buffer := b, conn_context := Some ctx1\<rparr>) c2"
    using c2 refuse_calm by (auto split: if_splits)
  then have "calm c c2" by (rule calm_trans [OF calm_simps(3)])
  moreover have "calm c2 c'" using last respond_calm by (auto split: if_splits)
  ultimately show "calm c c'" by (rule calm_trans)
  show "connections w' = connections w" "removals w' = removals w" using last by (simp_all split: if_splits)
qed

lemma on_message_once: "keeps (closes_once conn) (w, c) (on_message order k files (w, c))"
proof -
  have "closes_once conn (w, c) (w', c')" if "on_message order k files (w, c) = Inr (w', c')" for w' c'
    by (rule calm_once) (rule on_message_calm [OF that])+
  then show ?thesis by (auto simp: keeps_def)
qed

text \<open>The HTTP server keeps the contract of a server's user, on every system whose kernels and header
  order are as assumed and whose files are shorter than 10 TB.\<close>

lemma http_user_good:
  assumes "\<And>conn. kernel_ok (k conn)" and "some_order order" and "small_files files"
  shows "good_user base http_cost (http_user order k files)"
proof -
  have message: "good_user_callback base http_cost conn (Some (on_message order (k conn) files))" for conn
  proof -
    have "advances n c c' \<and> posts_nothing_else c c'"
      if "conn_inv (n + http_cost) c" "on_message order (k conn) files (w, c) = Inr (w', c')" for n w c w' c'
      using on_message_undisturbed [OF assms(1-3) that] undisturbed_contract by blast
    then show ?thesis
      using on_message_once
      by (auto simp: good_user_callback_def good_callback_def run_callback_def call_if_set_def)
  qed
  have conn: "good_user_callback base http_cost conn (Some http_connection_callback)" for conn
    using connection_callback_undisturbed undisturbed_contract
    by (fastforce simp: good_user_callback_def good_callback_def run_callback_def call_if_set_def
        keeps_def http_connection_callback_def set_context_def closes_once_def)
  show ?thesis by (simp add: good_user_def http_user_def message conn)
qed

text \<open>A system on which the HTTP server runs.\<close>

locale http_system =
  fixes order :: "(bytes \<times> bytes) list \<Rightarrow> (bytes \<times> bytes) list"
    and k :: "nat \<Rightarrow> kernel"
    and files :: "nat \<Rightarrow> bytes \<Rightarrow> file_answers"
  assumes kernels_ok: "kernel_ok (k conn)"
    and order_ok: "some_order order"
    and files_ok: "small_files files"

sublocale http_system \<subseteq> http: server_user k base "http_user order k files" http_cost for base
  by unfold_locales (rule kernels_ok, rule http_user_good [OF kernels_ok order_ok files_ok])

definition missing_file :: file_answers where
  "missing_file = \<lparr>opens = False, st_size = None, reads = []\<rparr>"

definition small_file :: "bytes \<Rightarrow> file_answers" where
  "small_file d = \<lparr>opens = True, st_size = Some (int (length d)), reads = [ReadOk d]\<rparr>"

interpretation missing_files: http_system rev "\<lambda>_. slow_kernel" "\<lambda>_ _. missing_file"
  by unfold_locales
    (simp_all add: slow_kernel_ok some_order_def small_files_def missing_file_def total_bytes_def)

text \<open>A connection that has just read given bytes, for examples.\<close>

definition reading_connection :: "bytes \<Rightarrow> http_connection" where
  "reading_connection s =
     (tcp_connection_ctor 1 5 zero_sockaddr None)\<lparr>conn_state := kConnected,
       channel := (new_channel 1 5)\<lparr>events := wanted_events False, in_interest_list := True\<rparr>,
       in_buffer := buffer_holding s, conn_context := Some new_context\<rparr>"

lemma reading_connection_fields [simp]:
  "conn_state (reading_connection s) = kConnected"
  "conn_context (reading_connection s) = Some new_context"
  "in_buffer (reading_connection s) = buffer_holding s"
  "output_buffer (reading_connection s) = new_buffer"
  "in_interest_list (channel (reading_connection s))"
  "events (channel (reading_connection s)) = wanted_events False"
  by (simp_all add: reading_connection_def tcp_connection_ctor_def)

lemma reading_connection_inv:
  assumes "length s + n + 8 \<le> max_string_size"
  shows "conn_inv n (reading_connection s)"
  using assms buffer_holding [of s] by (simp add: conn_inv_def)

text \<open>A refused request is not complete.\<close>

lemma refused_not_completed:
  "parse_bytes q c = Inr (False, q1, c1) \<Longrightarrow> \<not> parsing_completed c1"
proof (induction q c rule: parse_bytes.induct)
  case (1 q c)
  note eq = parse_bytes.simps [of q c]
  show ?case
  proof (cases "phase c")
    case kRequestLine
    show ?thesis
    proof (cases "find_sub crlf q")
      case None
      with kRequestLine "1.prems" show ?thesis by (simp add: eq)
    next
      case (Some i)
      show ?thesis
      proof
        assume ok: "parsing_completed c1"
        with kRequestLine Some "1.prems" obtain r where
          r: "set_request_line_from (take i q) (request c) = Inr (True, r)" "length q \<noteq> i + 2"
          "parse_bytes (drop (i + 2) q) (c\<lparr>request := r, phase := kHeaderLines\<rparr>) = Inr (False, q1, c1)"
          by (auto simp: eq bindE_eq_Inr parsing_completed_def split: if_splits)
        from "1.IH"(1) [OF kRequestLine Some r(1) refl _ r(2,3)] ok show False by simp
      qed
    qed
  next
    case kHeaderLines
    show ?thesis
    proof (cases "find_sub crlf q")
      case None
      with kHeaderLines "1.prems" show ?thesis by (simp add: eq)
    next
      case (Some i)
      show ?thesis
      proof (cases "i = 0")
        case True
        with kHeaderLines Some "1.prems"
        have "parse_bytes (drop 2 q) (c\<lparr>phase := kEntityBody\<rparr>) = Inr (False, q1, c1)"
          by (simp add: eq)
        from "1.IH"(2) [OF kHeaderLines Some True this] show ?thesis .
      next
        case False
        show ?thesis
        proof
          assume ok: "parsing_completed c1"
          with False kHeaderLines Some "1.prems" obtain r where
            r: "add_header_from (take i q) (request c) = (True, r)"
            "parse_bytes (drop (i + 2) q) (c\<lparr>request := r\<rparr>) = Inr (False, q1, c1)"
            by (auto simp: eq parsing_completed_def split: if_splits prod.splits)
          from "1.IH"(3) [OF kHeaderLines Some False r(1) [symmetric] _ r(2)] ok show False by simp
        qed
      qed
    qed
  next
    case kEntityBody
    with "1.prems" show ?thesis
      by (auto simp: eq parsing_completed_def split: option.splits if_splits)
  next
    case kCompleted
    with "1.prems" show ?thesis by (simp add: eq)
  qed
qed

text \<open>A request that is complete is answered from its file. What is known of a file that can be
  served: \<open>readv\<close> delivers, in any pieces, as many bytes as \<open>fstat\<close> announced.\<close>

definition file_holds :: "file_answers \<Rightarrow> bytes \<Rightarrow> bool" where
  "file_holds f body \<longleftrightarrow>
     opens f \<and> st_size f = Some (int (length body)) \<and> length body < printable_size \<and>
     (\<exists>ds d later. reads f = map ReadOk ds @ ReadOk d # later \<and> body = concat ds @ d \<and> (ds = [] \<or> d \<noteq> []))"

lemma file_holds_small: "length d < printable_size \<Longrightarrow> file_holds (small_file d) d"
  by (simp add: file_holds_def small_file_def) (rule exI [of _ "[]"], simp)

lemma request_answered:
  assumes k: "kernel_ok k" and order: "some_order order" and inv: "conn_inv (n + http_cost) c"
    and st: "conn_state c = kConnected" and ctx: "conn_context c = Some ctx0"
    and parsed: "parse_bytes (contents (in_buffer c)) ctx0 = Inr (True, rest, ctx)"
    and completed: "phase ctx = kCompleted"
    and held: "file_holds (files (served (user_state w)) (opened_path (request ctx))) body"
  shows "\<exists>c' r. on_message order k files (w, c) =
            Inr (w\<lparr>user_state := \<lparr>served = Suc (served (user_state w))\<rparr>\<rparr>, c') \<and>
          stream c' = stream c @ response_text order r \<and> status_code r = k200Ok \<and>
          contents (entity_body r) = body \<and>
          contents (in_buffer c') = rest \<and> conn_context c' = Some new_context \<and> conn_inv n c' \<and>
          conn_state c' = (if is_close_connection (request ctx) then kDisconnecting else kConnected)"
proof -
  let ?f = "files (served (user_state w)) (opened_path (request ctx))"
  let ?close = "is_close_connection (request ctx)"
  obtain ds d later where f: "opens ?f" "st_size ?f = Some (int (length (concat ds @ d)))"
    "length (concat ds @ d) < printable_size" "reads ?f = map ReadOk ds @ ReadOk d # later"
    "body = concat ds @ d" "ds = [] \<or> d \<noteq> []" using held unfolding file_holds_def by blast
  have wf: "wf_buffer (in_buffer c)" using inv by (simp add: conn_inv_def)
  from parse_request_InrI [OF wf parsed] obtain b where p:
    "parse_request (in_buffer c) ctx0 = Inr (True, b, ctx)" "contents b = rest" by blast
  let ?c1 = "c\<lparr>in_buffer := b, conn_context := Some ctx\<rparr>"
  have u1: "undisturbed (n + http_cost) c ?c1" by (rule parsed_undisturbed [OF inv p(1)])
  from analyse_serves [OF order f(3,6), of later "request ctx" ?close] obtain buf r where a:
    "analyse order True (Some (int (length (concat ds @ d)))) (map ReadOk ds @ ReadOk d # later)
       (request ctx) (ok_response ?close) = Inr (Responded buf r [FdOpen, FdClose])"
    "contents buf = response_text order r" "status_code r = k200Ok"
    "contents (entity_body r) = concat ds @ d" "close_connection r = ?close" "standard_response r"
    by blast
  have "length (contents (entity_body r)) < printable_size" using f(3) by (simp only: a(4))
  from standard_response_fits [OF a(6) order this] have short: "length (contents buf) < 2 * printable_size"
    by (simp add: a(2))
  have "conn_inv (length (contents buf) + n) ?c1"
    using u1 short by (auto simp: undisturbed_def advances_def http_cost_def elim!: conn_inv_mono simp del: conn_inv_update)
  from send_undisturbed [OF k this] obtain c2 where c2:
    "send_data k True (contents buf) ?c1 = Inr c2" "undisturbed n ?c1 c2" "in_buffer c2 = b"
    "conn_state c2 = kConnected" "stream c2 = stream c @ contents buf"
    using st by (auto simp: stream_def)
  have inv2: "conn_inv n c2" using c2(2) by (simp add: undisturbed_def advances_def)
  let ?c3 = "if ?close then shutdown k True c2 else c2"
  have c3: "stream ?c3 = stream c2" "in_buffer ?c3 = b" "conn_inv n ?c3"
    "conn_state ?c3 = (if ?close then kDisconnecting else kConnected)"
    using shutdown_spec(1,2) [OF inv2, of k True] inv2 c2(3,4)
    by (simp_all add: shutdown_def shutdown_task_def set_state_def advances_def Let_def)
  have respond: "respond order k ?f ctx ?c1 = Inr (set_context (Some (reset_context ctx)) ?c3)"
    using a(1,5) c2(1) f by (simp add: respond_def contents_def Let_def)
  have reset: "reset_context ctx = new_context"
    by (simp add: reset_context_def swap_requests_def new_context_def new_request_def Let_def)
  have "on_message order k files (w, c) =
      Inr (w\<lparr>user_state := \<lparr>served = Suc (served (user_state w))\<rparr>\<rparr>, set_context (Some new_context) ?c3)"
    using ctx p(1) respond reset completed by (simp add: on_message_def parsing_completed_def Let_def)
  then show ?thesis
    using c3 c2(5) a(2-4) p(2) f(5)
    by (intro exI [of _ "set_context (Some new_context) ?c3"] exI [of _ r])
      (simp add: set_context_def stream_def)
qed

section \<open>What can end the process\<close>

text \<open>The error with which the parser, or the file that the request names, ends the process when the
  callback runs on the input \<open>q\<close>, at the \<open>i\<close>-th request that is served.\<close>

definition input_error ::
    "((bytes \<times> bytes) list \<Rightarrow> (bytes \<times> bytes) list) \<Rightarrow> (nat \<Rightarrow> bytes \<Rightarrow> file_answers) \<Rightarrow> nat
      \<Rightarrow> bytes \<Rightarrow> http_context \<Rightarrow> error option" where
  "input_error order files i q ctx =
     (case parse_bytes q ctx of
        Inl e \<Rightarrow> Some e
      | Inr (ok, rest, ctx1) \<Rightarrow>
          if parsing_completed ctx1
          then let f = files i (opened_path (request ctx1)) in
               (case analyse order (opens f) (st_size f) (reads f) (request ctx1)
                       (ok_response (is_close_connection (request ctx1))) of
                  Inl e \<Rightarrow> Some e
                | Inr (Reading _ _) \<Rightarrow> Some NoReturn
                | Inr (Responded _ _ _) \<Rightarrow> None)
          else None)"

lemma respond_error_from:
  assumes "kernel_ok k" and "some_order order" and "conn_inv (2 * printable_size + n) c"
    and "total_bytes (reads f) < printable_size" and "respond order k f ctx c = Inl e"
  shows "(case analyse order (opens f) (st_size f) (reads f) (request ctx)
            (ok_response (is_close_connection (request ctx))) of
          Inl e \<Rightarrow> Some e | Inr (Reading _ _) \<Rightarrow> Some NoReturn | Inr (Responded _ _ _) \<Rightarrow> None) = Some e"
proof (cases "analyse order (opens f) (st_size f) (reads f) (request ctx)
    (ok_response (is_close_connection (request ctx)))")
  case (Inl e')
  with assms(5) show ?thesis by (simp add: respond_def Let_def)
next
  case (Inr a)
  show ?thesis
  proof (cases a)
    case (Reading b fds)
    with Inr assms(5) show ?thesis by (simp add: respond_def Let_def)
  next
    case (Responded b r fds)
    have "conn_inv (length (contents b) + n) c"
      using assms(3) by (rule conn_inv_mono)
        (use analyse_bound [OF assms(2,4) Inr [unfolded Responded]] in simp)
    from send_undisturbed [OF assms(1) this] Inr Responded assms(5) show ?thesis
      by (auto simp: respond_def contents_def Let_def)
  qed
qed

lemma on_message_error:
  assumes k: "kernel_ok k" "some_order order" "small_files files" and inv: "conn_inv (n + http_cost) c"
    and ctx: "conn_context c = Some ctx" and err: "on_message order k files (w, c) = Inl e"
  shows "input_error order files (served (user_state w)) (contents (in_buffer c)) ctx = Some e"
proof -
  have wf: "wf_buffer (in_buffer c)" using inv by (simp add: conn_inv_def)
  show ?thesis
  proof (cases "parse_request (in_buffer c) ctx")
    case (Inl e')
    with parse_request_outcome [OF wf, of ctx] have "parse_bytes (contents (in_buffer c)) ctx = Inl e'"
      by (simp add: outcome_def)
    with Inl err ctx show ?thesis by (simp add: on_message_def input_error_def)
  next
    case (Inr p)
    obtain ok b ctx1 where p: "p = (ok, b, ctx1)" by (cases p) auto
    have parsed: "parse_bytes (contents (in_buffer c)) ctx = Inr (ok, contents b, ctx1)"
      using parse_request_ok(3) [OF wf] Inr p by simp
    let ?c1 = "c\<lparr>in_buffer := b, conn_context := Some ctx1\<rparr>" and ?f = "files (served (user_state w)) (opened_path (request ctx1))"
    have inv1: "conn_inv (n + http_cost) ?c1"
      using parsed_undisturbed [OF inv Inr [unfolded p]] by (simp add: undisturbed_def advances_def)
    have inv2: "conn_inv (2 * printable_size + n) ?c1" using inv1 by (rule conn_inv_mono) (simp add: http_cost_def)
    show ?thesis
    proof (cases ok)
      case False
      then have "\<not> parsing_completed ctx1" using refused_not_completed parsed by simp
      moreover from refuse_undisturbed [OF k(1,2) inv2] obtain c2 where "refuse order k ?c1 = Inr c2" by blast
      ultimately have False using err ctx Inr p False by (simp add: on_message_def Let_def)
      then show ?thesis ..
    next
      case True
      then have "parsing_completed ctx1" "respond order k ?f ctx1 ?c1 = Inl e"
        using err ctx Inr p
        by (auto simp: on_message_def bindE_def Let_def split: if_splits sum.splits)
      with respond_error_from [OF k(1,2) inv2 _ this(2)] k(3) parsed show ?thesis
        by (simp add: input_error_def small_files_def Let_def)
    qed
  qed
qed

text \<open>Every connection that is no longer connecting has a parser in its context.\<close>

lemma refuse_context: "refuse order k c = Inr c' \<Longrightarrow> same_context c c'"
proof -
  assume "refuse order k c = Inr c'"
  then obtain d c1 where "send_data k True d c = Inr c1" "c' = shutdown k True c1"
    by (auto simp: refuse_def send_buffer_eq bindE_eq_Inr)
  with send_data_context [of k True d c c1] shutdown_context [of c1 k True] show ?thesis
    by (simp add: same_context_def)
qed

abbreviation has_parser :: "http_context option \<Rightarrow> bool" where
  "has_parser x \<equiv> x \<noteq> None"

lemma respond_has_parser: "respond order k file ctx c = Inr c' \<Longrightarrow> ctx_ok has_parser c'"
proof -
  assume r: "respond order k file ctx c = Inr c'"
  then obtain a where "analyse order (opens file) (st_size file) (reads file) (request ctx)
      (ok_response (is_close_connection (request ctx))) = Inr a"
    by (auto simp: respond_def bindE_eq_Inr Let_def)
  with r show ?thesis
    by (cases a) (auto simp: respond_def bindE_eq_Inr Let_def set_context_def ctx_ok_def)
qed

lemma on_message_has_parser: "on_message order k files (w, c) = Inr (w', c') \<Longrightarrow> ctx_ok has_parser c'"
proof (erule on_message_InrE)
  fix ctx ok b ctx1 c2
  assume c2: "(if \<not> ok then refuse order k (c\<lparr>in_buffer := b, conn_context := Some ctx1\<rparr>)
       else Inr (c\<lparr>in_buffer := b, conn_context := Some ctx1\<rparr>)) = Inr c2"
    and last: "(if parsing_completed ctx1
       then respond order k (files (served (user_state w)) (opened_path (request ctx1))) ctx1 c2 = Inr c' \<and>
         w' = w\<lparr>user_state := \<lparr>served = Suc (served (user_state w))\<rparr>\<rparr>
       else c' = c2 \<and> w' = w)"
  have "ctx_ok has_parser c2"
    using c2 refuse_context by (fastforce simp: same_context_def ctx_ok_def split: if_splits)
  with last respond_has_parser show "ctx_ok has_parser c'" by (auto split: if_splits)
qed

lemma http_callbacks_keep: "callbacks_keep has_parser (server_callbacks base (http_user order k files) conn)"
proof -
  have "keeps_context has_parser (run_callback (Some (on_message order (k conn) files)))"
    using on_message_has_parser
    by (intro keepsI) (auto simp: run_callback_def call_if_set_def)
  moreover have "keeps_context has_parser (run_callback (Some http_connection_callback))"
    by (intro keepsI) (auto simp: run_callback_def call_if_set_def http_connection_callback_def set_context_def ctx_ok_def)
  moreover have "keeps_context has_parser (run_callback (close_cb (server_callbacks base (http_user order k files) conn)))"
    by (intro keepsI) (auto simp: server_callbacks_def run_callback_def call_if_set_def remove_connection_def
        bindE_eq_Inr split: if_splits)
  ultimately show ?thesis by (simp add: callbacks_keep_def server_callbacks_def http_user_def)
qed

lemma http_callback_gives:
  "conn_state (snd s) = kConnected \<Longrightarrow>
   run_callback (connection_cb (server_callbacks base (http_user order k files) conn)) s = Inr s' \<Longrightarrow>
   ctx_ok has_parser (snd s')"
  by (auto simp: server_callbacks_def http_user_def run_callback_def call_if_set_def
      http_connection_callback_def is_connected_def set_context_def ctx_ok_def)

definition parsers_present :: "(http_state, http_context option) server \<Rightarrow> bool" where
  "parsers_present s \<longleftrightarrow> (\<forall>conn c. alive s conn = Some c \<longrightarrow> ctx_held has_parser c)"

lemma incoming_present:
  "server_inv n s \<Longrightarrow> parsers_present s \<Longrightarrow>
   accept_loop (Some (server_new_connection k ucbs None True)) answers s = Inr (ended, closed, s') \<Longrightarrow>
   parsers_present s'"
proof (induction answers arbitrary: s)
  case (Cons a answers)
  show ?case
  proof (cases a)
    case (Accepted fd peer_address)
    from new_connection_ok [OF Cons.prems(1), of k ucbs None fd peer_address] obtain s1 l where
      s1: "server_new_connection k ucbs None True fd peer_address s = Inr s1" "server_inv n s1"
      "alive s1 = (alive s)(fresh s \<mapsto> start_connection l fd peer_address None)" by blast
    have "parsers_present s1"
      using Cons.prems(2) s1(3)
      by (auto simp: parsers_present_def ctx_held_def start_connection_def post_def tcp_connection_ctor_def)
    with Cons.IH [OF s1(2)] Cons.prems(3) Accepted s1(1) show ?thesis by simp
  qed (use Cons.prems in auto)
qed simp

lemma server_step_present:
  assumes "server_inv n s" and "parsers_present s"
    and "server_step k (http_user order k files) None ev s = Inr s'"
  shows "parsers_present s'"
proof (cases ev)
  case (Incoming answers)
  with assms incoming_present show ?thesis by (auto simp: on_incoming_connection_def bindE_eq_Inr)
next
  case (OnConnection conn ev')
  show ?thesis
  proof (cases "alive s conn")
    case None
    with assms OnConnection show ?thesis by (auto split: if_splits)
  next
    case (Some c)
    then obtain w c' where "conn_step (k conn) (server_callbacks (server_loop s) (http_user order k files) conn) ev'
        (server_shared s, c) = Inr (w, c')" "alive s' = (alive s)(conn \<mapsto> c')"
      using assms(3) by (auto simp: OnConnection bindE_eq_Inr)
    moreover have "ctx_held has_parser c" using assms(2) Some by (simp add: parsers_present_def)
    moreover have "conn_wf n c"
    proof -
      have "linked n (server_loop s) conn (server_shared s) (alive s conn)"
        using assms(1) unfolding server_inv_def by blast
      with Some show ?thesis by simp
    qed
    ultimately show ?thesis
      using conn_step_held [OF http_callbacks_keep _ _ http_callback_gives] assms(2)
      by (auto simp: parsers_present_def)
  qed
next
  case RunRemoval
  have "ctx_held has_parser (post DestroyTask c) = ctx_held has_parser c" for c
    by (simp add: ctx_held_def post_def ctx_ok_def)
  with RunRemoval assms(2,3) show ?thesis
    by (auto simp: parsers_present_def run_removal_def bindE_eq_Inr split: list.splits if_splits)
next
  case (Release conn)
  with assms(2,3) show ?thesis
    by (auto simp: parsers_present_def release_def bindE_eq_Inr split: option.splits if_splits)
qed

text \<open>The only step that fails is a message callback whose input the parser or the file fails.\<close>

context http_system
begin

lemma http_step_error:
  assumes inv: "server_inv (server_cost http_cost ev + n) s" and present: "parsers_present s"
    and err: "server_step k (http_user order k files) None ev s = Inl e"
  obtains conn mask d c ctx where "ev = OnConnection conn (Dispatch mask (ReadOk d))"
    and "alive s conn = Some c" and "in_interest_list (channel c)" and "conn_context c = Some ctx"
    and "input_error order files (served (user_state (server_shared s))) (contents (in_buffer c) @ d) ctx = Some e"
proof -
  let ?ucbs = "http_user order k files" and ?base = "server_loop s"
  have inv_n: "server_inv n s" using server_inv_mono [OF inv] by simp
  obtain conn ev' where ev: "ev = OnConnection conn ev'"
  proof (cases ev)
    case (Incoming answers)
    with incoming_ok [OF inv_n, of k ?ucbs None answers] err show thesis
      by (auto simp: on_incoming_connection_def)
  next
    case RunRemoval
    with removal_ok [OF inv_n] err show thesis by auto
  next
    case (Release conn)
    with release_ok [OF inv_n, of k conn] err show thesis by auto
  qed (use that in blast)
  note i = inv [unfolded server_inv_def]
  have "orphans s conn = []" using i by blast
  with err ev obtain c where c: "alive s conn = Some c" by (cases "alive s conn") auto
  let ?cbs = "server_callbacks ?base ?ucbs conn"
  have step: "conn_step (k conn) ?cbs ev' (server_shared s, c) = Inl e"
    using err c by (cases "conn_step (k conn) ?cbs ev' (server_shared s, c)") (auto simp: ev)
  have "linked (server_cost http_cost ev + n) ?base conn (server_shared s) (alive s conn)"
    using i by blast
  then have "linked (event_cost http_cost ev' + n) ?base conn (server_shared s) (Some c)"
    by (simp only: c ev server_cost.simps)
  then have wf: "conn_wf (event_cost http_cost ev' + n) c" and loop: "conn_loop c \<noteq> ?base" by simp_all
  have never: "is_ok (run_callback (connection_cb ?cbs) s') \<and> is_ok (run_callback (close_cb ?cbs) s')"
    if "conn_loop (snd s') = conn_loop c" for s'
    using that loop http.run_close_cb [of "snd s'" ?base conn "fst s'"]
    by (cases s') (simp add: server_callbacks_def http_user_def run_callback_def call_if_set_def http_connection_callback_def
        remove_connection_def)
  obtain mask d b where d: "ev' = Dispatch mask (ReadOk d)" "in_interest_list (channel c)"
    "contents b = contents (in_buffer c) @ d"
    "conn_inv (n + http_cost) (c\<lparr>channel := set_revents mask (channel c), in_buffer := b\<rparr>)"
    "run_callback (message_cb ?cbs) (server_shared s, c\<lparr>channel := set_revents mask (channel c), in_buffer := b\<rparr>) = Inl e"
    by (rule connection_client.step_error [OF http.client.connection_client_axioms wf never step])
  have "conn_state c \<noteq> kConnecting"
    using wf d(2) by (auto simp: conn_wf_def conn_inv_def)
  then obtain ctx where ctx: "conn_context c = Some ctx"
    using present c by (auto simp: parsers_present_def ctx_held_def ctx_ok_def)
  have "on_message order (k conn) files
      (server_shared s, c\<lparr>channel := set_revents mask (channel c), in_buffer := b\<rparr>) = Inl e"
    using d(5) by (simp add: server_callbacks_def http_user_def run_callback_def call_if_set_def)
  from on_message_error [OF kernels_ok order_ok files_ok d(4) _ this, of ctx] ctx d(3)
  have "input_error order files (served (user_state (server_shared s))) (contents (in_buffer c) @ d) ctx = Some e"
    by simp
  with that ev d(1,2) c ctx show thesis by blast
qed

lemma http_run_error:
  "server_inv (sum_list (map (server_cost http_cost) evs)) s \<Longrightarrow> parsers_present s \<Longrightarrow>
   foldE (server_step k (http_user order k files) None) evs s = Inl e \<Longrightarrow>
   \<exists>evs1 conn mask d evs2 s1 c ctx. evs = evs1 @ OnConnection conn (Dispatch mask (ReadOk d)) # evs2 \<and>
     foldE (server_step k (http_user order k files) None) evs1 s = Inr s1 \<and>
     alive s1 conn = Some c \<and> in_interest_list (channel c) \<and> conn_context c = Some ctx \<and>
     input_error order files (served (user_state (server_shared s1))) (contents (in_buffer c) @ d) ctx = Some e"
proof (induction evs arbitrary: s)
  case (Cons ev evs)
  let ?step = "server_step k (http_user order k files) None"
  have inv: "server_inv (server_cost http_cost ev + sum_list (map (server_cost http_cost) evs)) s"
    using Cons.prems(1) by simp
  show ?case
  proof (cases "?step ev s")
    case (Inl e')
    then have "?step ev s = Inl e" using Cons.prems(3) by simp
    from http_step_error [OF inv Cons.prems(2) this] obtain conn mask d c ctx where
      "ev = OnConnection conn (Dispatch mask (ReadOk d))"
      "alive s conn = Some c" "in_interest_list (channel c)" "conn_context c = Some ctx"
      "input_error order files (served (user_state (server_shared s))) (contents (in_buffer c) @ d) ctx = Some e" .
    then show ?thesis by (intro exI [of _ "[]"]) auto
  next
    case (Inr s1)
    have "server_inv (sum_list (map (server_cost http_cost) evs)) s1"
      using http.server_step_fine [OF inv refl, of None] Inr by (simp add: server_step_ok_def)
    from Cons.IH [OF this server_step_present [OF inv Cons.prems(2) Inr]] Cons.prems(3) Inr
    obtain evs1 conn mask d evs2 s2 c ctx where
      "evs = evs1 @ OnConnection conn (Dispatch mask (ReadOk d)) # evs2" "foldE ?step evs1 s1 = Inr s2"
      "alive s2 conn = Some c" "in_interest_list (channel c)" "conn_context c = Some ctx"
      "input_error order files (served (user_state (server_shared s2))) (contents (in_buffer c) @ d) ctx = Some e"
      by auto
    moreover from this(2) Inr have "foldE ?step (ev # evs1) s = Inr s2" by simp
    ultimately show ?thesis by (metis append_Cons)
  qed
qed simp

end

section \<open>Properties\<close>

text \<open>C4: Whatever bytes the peers send, in whatever pieces, and in whatever order the loops run their
  events and tasks and calls of \<open>send\<close>, \<open>shutdown\<close> and \<open>force_close\<close> are made, the HTTP server fails no assertion
  of the network library, inside its callbacks or outside them: when a run ends with an error, then
  at an event at which a registered connection, whose parser is in its context, reads bytes, and
  the error is the one with which the HTTP parser ends on the connection's input, or \<open>analyse\<close> on
  the file that the completed request names. After every other run the server's set, the queued
  removals and the states of the connections agree, and no task is left that would use a connection
  that is gone. This rests on \<open>epoll_ctl\<close> succeeding and \<open>write\<close> taking over no more than it is given
  (\<open>kernel_ok\<close>), files shorter than \<open>printable_size\<close>, reports for registered channels only, and calls from
  other threads that are single steps.\<close>

theorem http_server_invariant:
  assumes "\<And>conn. kernel_ok (k conn)" and "some_order order" and "small_files files"
    and "http_server_ctor base fd bind_ok address = Inr s0" and "base \<notin> range new_loop"
    and "http_server_start new_loop ctl_ok True s0 = Inr s"
    and "sum_list (map (server_cost http_cost) evs) + 8 \<le> max_string_size"
  shows "case foldE (server_step k (http_user order k files) None) evs s of
           Inl e \<Rightarrow> \<exists>evs1 conn mask d evs2 s1 c ctx.
             evs = evs1 @ OnConnection conn (Dispatch mask (ReadOk d)) # evs2 \<and>
             foldE (server_step k (http_user order k files) None) evs1 s = Inr s1 \<and>
             alive s1 conn = Some c \<and> in_interest_list (channel c) \<and> conn_context c = Some ctx \<and>
             input_error order files (served (user_state (server_shared s1))) (contents (in_buffer c) @ d) ctx = Some e
         | Inr s' \<Rightarrow> (\<forall>conn. linked 0 base conn (server_shared s') (alive s' conn)) \<and>
             (\<forall>conn. orphans s' conn = [])"
proof -
  have system: "http_system order k files" using assms(1-3) by unfold_locales
  have user: "server_user k base (http_user order k files) http_cost"
    using assms(1) http_user_good [OF assms(1-3)] by unfold_locales
  note start = started_inv [OF assms(4) [unfolded http_server_ctor_def] assms(7,5)
      assms(6) [unfolded http_server_start_def]]
  have "alive s = Map.empty"
    using assms(4,6) by (auto simp: http_server_ctor_def http_server_start_def server_ctor_def
        server_start_def start_task_def bindE_eq_Inr)
  then have "parsers_present s" by (simp add: parsers_present_def)
  note err = http_system.http_run_error [OF system start(1) this]
  from server_user.server_run_fine [OF user, of evs 0 s None] start show ?thesis
    by (cases "foldE (server_step k (http_user order k files) None) evs s")
      (use err in \<open>auto simp: server_step_ok_def server_inv_def\<close>)
qed

text \<open>One run that ends well, and one whose peer sends a request line that ends the process.\<close>

definition http_example_run :: "bytes \<Rightarrow> server_event list" where
  "http_example_run q = [Incoming [Accepted 7 zero_sockaddr, AcceptErr 11], OnConnection 0 RunPosted,
     OnConnection 0 (Dispatch EPOLLIN (ReadOk q))]"

theorem http_server_invariant_witness:
  "let step = server_step (\<lambda>_. slow_kernel) (http_user rev (\<lambda>_. slow_kernel) (\<lambda>_ _. missing_file)) None in
   \<exists>s0 s. http_server_ctor 0 3 True zero_sockaddr = Inr s0 \<and> http_server_start Suc True True s0 = Inr s \<and>
    (\<forall>q \<in> {''GET / HTTP/1.1'' @ crlf @ crlf, ''GET /'' @ crlf}.
     case foldE step (http_example_run q) s of
       Inl e \<Rightarrow> \<exists>evs1 conn mask d evs2 s1 c ctx.
         http_example_run q = evs1 @ OnConnection conn (Dispatch mask (ReadOk d)) # evs2 \<and>
         foldE step evs1 s = Inr s1 \<and>
         alive s1 conn = Some c \<and> in_interest_list (channel c) \<and> conn_context c = Some ctx \<and>
         input_error rev (\<lambda>_ _. missing_file) (served (user_state (server_shared s1))) (contents (in_buffer c) @ d) ctx = Some e
     | Inr s' \<Rightarrow> (\<forall>conn. linked 0 0 conn (server_shared s') (alive s' conn)) \<and> (\<forall>conn. orphans s' conn = []))"
proof -
  obtain s0 :: "(http_state, http_context option) server"
    where s0: "http_server_ctor 0 3 True zero_sockaddr = Inr s0"
    by (simp add: http_server_ctor_def server_ctor_def pool_ctor_def kNumThreads_def)
  from start_succeeds [OF s0 [unfolded http_server_ctor_def], of Suc] obtain s where
    s: "http_server_start Suc True True s0 = Inr s" by (auto simp: http_server_start_def)
  have k: "kernel_ok slow_kernel" by (rule slow_kernel_ok)
  have base: "0 \<notin> range Suc" by auto
  have cost: "sum_list (map (server_cost http_cost) (http_example_run q)) + 8 \<le> max_string_size"
    if "q \<in> {''GET / HTTP/1.1'' @ crlf @ crlf, ''GET /'' @ crlf}" for q
    using that by (auto simp: http_example_run_def max_string_size_def http_cost_def)
  show ?thesis
    unfolding Let_def
    by (intro exI [of _ s0] exI [of _ s] conjI s0 s ballI
        http_server_invariant [OF k missing_files.order_ok missing_files.files_ok s0 base s cost])
qed

text \<open>C3: A complete GET or HEAD request, kept alive or not, is answered with status 200 and
  exactly the bytes of the file it names behind everything sent before; the request's bytes and no
  others leave the input buffer, the parser starts anew, and the connection stays open exactly when
  the request asks for it. One call answers one request: a further request that came with it stays
  in the buffer until more is read.\<close>

theorem get_request_answered:
  assumes "kernel_ok k" and "some_order order" and "conn_inv (n + http_cost) c"
    and "conn_state c = kConnected" and "conn_context c = Some new_context"
    and "contents (in_buffer c) = request_text l hs @ rest" and "well_formed_text l hs"
    and "req_method l \<noteq> kPost" and "file_holds (files (served (user_state w)) (opened_path (text_request l hs))) body"
  shows "\<exists>c' r. on_message order k files (w, c) =
            Inr (w\<lparr>user_state := \<lparr>served = Suc (served (user_state w))\<rparr>\<rparr>, c') \<and>
          stream c' = stream c @ response_text order r \<and> status_code r = k200Ok \<and>
          contents (entity_body r) = body \<and>
          contents (in_buffer c') = rest \<and> conn_context c' = Some new_context \<and> conn_inv n c' \<and>
          conn_state c' = (if is_close_connection (text_request l hs) then kDisconnecting else kConnected)"
proof -
  have "parse_bytes (contents (in_buffer c)) new_context =
      Inr (True, rest, \<lparr>phase = kCompleted, request = text_request l hs\<rparr>)"
    using assms(6-8) by (simp add: parse_text parse_bytes.simps [of rest])
  from request_answered [OF assms(1-5) this, where files = files and w = w and body = body] assms(9)
  show ?thesis by simp
qed

theorem get_request_answered_witness:
  "let l = sample_line kGet; hs = [(''Connection'', ''keep-alive'')];
       c = reading_connection (request_text l hs @ ''GET''); w = \<lparr>connections = {0}, removals = [], user_state = \<lparr>served = 0\<rparr>\<rparr>
   in \<exists>c' r. on_message rev slow_kernel (\<lambda>_ _. small_file ''hello'') (w, c) =
        Inr (w\<lparr>user_state := \<lparr>served = Suc (served (user_state w))\<rparr>\<rparr>, c') \<and>
      stream c' = stream c @ response_text rev r \<and> status_code r = k200Ok \<and>
      contents (entity_body r) = ''hello'' \<and>
      contents (in_buffer c') = ''GET'' \<and> conn_context c' = Some new_context \<and> conn_inv 0 c' \<and>
      conn_state c' = (if is_close_connection (text_request l hs) then kDisconnecting else kConnected)"
proof -
  let ?l = "sample_line kGet" and ?hs = "[(''Connection'', ''keep-alive'')]"
  have len: "length (request_text ?l ?hs @ ''GET'') \<le> 100"
    by (simp add: request_text_def header_line_def request_line_to_string_def)
  have inv: "conn_inv (0 + http_cost) (reading_connection (request_text ?l ?hs @ ''GET''))"
    using len by (intro reading_connection_inv) (simp add: http_cost_def max_string_size_def)
  have held: "contents (in_buffer (reading_connection (request_text ?l ?hs @ ''GET''))) = request_text ?l ?hs @ ''GET''"
    unfolding reading_connection_fields
    using len by (intro buffer_holding(2)) (simp add: max_string_size_def)
  have wf: "well_formed_text ?l ?hs" by (simp add: sample_line_plain plain_header_def)
  have order: "some_order rev" by (simp add: some_order_def)
  show ?thesis
    unfolding Let_def
    by (rule get_request_answered [OF slow_kernel_ok order inv _ _ held wf])
      (simp_all add: file_holds_small)
qed

text \<open>C27: A request that the parser refuses is answered with the page of status 400, put whole behind
  everything sent before, and \<open>shutdown\<close> is called for the connection, which becomes disconnecting.
  The writing direction of the socket is half-closed when \<open>write\<close> has taken over the page and all
  before it, so that nothing is pending; with output pending it is not, and by C37 it will not be.
  No request counts as served.\<close>

theorem bad_request_refused:
  assumes "kernel_ok k" and "some_order order" and "conn_inv (n + http_cost) c"
    and "conn_state c = kConnected" and "conn_context c = Some ctx"
    and "parse_bytes (contents (in_buffer c)) ctx = Inr (False, q, ctx1)"
  shows "\<exists>c' r. on_message order k files (w, c) = Inr (w, c') \<and>
          stream c' = stream c @ response_text order r \<and> status_code r = k400BadRequest \<and>
          contents (entity_body r) = error_page k400BadRequest \<and> standard_response r \<and>
          contents (in_buffer c') = q \<and> conn_state c' = kDisconnecting \<and>
          write_shut (sock c') = (write_shut (sock c) \<or>
            contents (output_buffer c') = [] \<and> k_shutdown k (calls (sock c') - 1))"
proof -
  have wf: "wf_buffer (in_buffer c)" using assms(3) by (simp add: conn_inv_def)
  from parse_request_InrI [OF wf assms(6)] obtain b where p:
    "parse_request (in_buffer c) ctx = Inr (False, b, ctx1)" "contents b = q" by blast
  let ?c1 = "c\<lparr>in_buffer := b, conn_context := Some ctx1\<rparr>"
  have "undisturbed (n + http_cost) c ?c1" by (rule parsed_undisturbed [OF assms(3) p(1)])
  then have "conn_inv (2 * printable_size + n) ?c1"
    by (auto simp: undisturbed_def advances_def http_cost_def elim!: conn_inv_mono simp del: conn_inv_update)
  from refuse_undisturbed [OF assms(1,2) this] obtain c' r where
    "refuse order k ?c1 = Inr c'" "in_buffer c' = b" "standard_response r"
    "status_code r = k400BadRequest" "contents (entity_body r) = error_page k400BadRequest"
    "stream c' = stream c @ response_text order r" "conn_state c' = kDisconnecting"
    "write_shut (sock c') = (write_shut (sock c) \<or>
       contents (output_buffer c') = [] \<and> k_shutdown k (calls (sock c') - 1))"
    using assms(4) by (auto simp: stream_def)
  moreover have "\<not> parsing_completed ctx1" by (rule refused_not_completed [OF assms(6)])
  ultimately show ?thesis
    using assms(5) p by (intro exI [of _ c'] exI [of _ r]) (simp add: on_message_def)
qed

theorem bad_request_refused_witness:
  "let c = reading_connection (''PUT / HTTP/1.1'' @ crlf); w = \<lparr>connections = {0}, removals = [], user_state = \<lparr>served = 0\<rparr>\<rparr>
   in \<exists>c' r. on_message rev slow_kernel (\<lambda>_ _. missing_file) (w, c) = Inr (w, c') \<and>
      stream c' = stream c @ response_text rev r \<and> status_code r = k400BadRequest \<and>
      contents (entity_body r) = error_page k400BadRequest \<and> standard_response r \<and>
      contents (in_buffer c') = ''PUT / HTTP/1.1'' @ crlf \<and> conn_state c' = kDisconnecting \<and>
      write_shut (sock c') = (write_shut (sock c) \<or>
        contents (output_buffer c') = [] \<and> k_shutdown slow_kernel (calls (sock c') - 1))"
proof -
  let ?s = "''PUT / HTTP/1.1'' @ crlf"
  have inv: "conn_inv (0 + http_cost) (reading_connection ?s)"
    by (rule reading_connection_inv) (simp add: http_cost_def max_string_size_def)
  have held: "contents (in_buffer (reading_connection ?s)) = ?s"
    unfolding reading_connection_fields by (rule buffer_holding(2)) (simp add: max_string_size_def)
  have bad: "parse_bytes (contents (in_buffer (reading_connection ?s))) new_context = Inr (False, ?s, new_context)"
    unfolding held
    by (simp add: parse_bytes.simps new_context_def new_request_def set_request_line_from_def
        request_line_from_def request_line_from_parts_def method_from_def)
  have order: "some_order rev" by (simp add: some_order_def)
  show ?thesis
    unfolding Let_def
    by (rule bad_request_refused [OF slow_kernel_ok order inv _ _ bad]) simp_all
qed

end
