(* ===== verification/Http_Session.thy ===== *)
theory Http_Session
  imports Http_Server
begin

text \<open>
  A peer's view of the HTTP server: what it gets back when it sends its requests one after the
  other, each cut into pieces in any way, over one connection. This brings together the read
  events of \<open>Tcp_Connection\<close>, the parser of \<open>Http_Context\<close>, the responses of \<open>Http_Response\<close> and
  the writable events that drain the output.
\<close>

section \<open>Beginnings of a request\<close>

lemma no_crlf_before_end:
  assumes "cr \<notin> set line" and "strict_prefix p (line @ crlf)"
  shows "find_sub crlf p = None"
proof (cases "find_sub crlf p")
  case (Some i)
  obtain t where t: "line @ crlf = p @ t" "t \<noteq> []"
    using assms(2) by (auto simp: strict_prefix_def prefix_def)
  from find_sub_append [OF Some, of t] find_sub_crlf_append [OF assms(1), of "[]"] t(1)
  have "i = length line" by simp
  moreover have "i + 2 \<le> length p" using find_sub_SomeD [OF Some] by simp
  moreover have "length p < length line + 2" using arg_cong [OF t(1), of length] t(2) by simp
  ultimately show ?thesis by simp
qed

lemma strict_prefix_append_cases:
  assumes "strict_prefix p (a @ b)"
  obtains "strict_prefix p a" | q where "p = a @ q" and "strict_prefix q b"
proof (cases "strict_prefix p a")
  case False
  with assms obtain q where "p = a @ q" "prefix q b"
    by (auto simp: strict_prefix_def prefix_append)
  with assms show thesis by (intro that(2) [of q]) (auto simp: strict_prefix_def)
qed (rule that(1))

lemma header_line_shape:
  assumes "plain_header h"
  shows "header_line h = (fst h @ CHR '':'' # sp # snd h) @ crlf" "cr \<notin> set (fst h @ CHR '':'' # sp # snd h)"
  using assms by (auto simp: header_line_def plain_header_def)

lemma part_of_headers_waits:
  assumes "strict_prefix p (concat (map header_line hs) @ crlf)"
    and "\<forall>h \<in> set hs. plain_header h" and "phase c = kHeaderLines" and "distinct (map fst hs)"
    and "fst ` set hs \<inter> dom (headers (request c)) = {}"
  shows "\<exists>q c'. parse_bytes p c = Inr (True, q, c') \<and> phase c' = kHeaderLines"
  using assms
proof (induction hs arbitrary: p c)
  case Nil
  then have "find_sub crlf p = None" using no_crlf_before_end [of "[]" p] by simp
  with Nil.prems(3) show ?case by (simp add: parse_bytes.simps)
next
  case (Cons h hs)
  have h: "plain_header h" using Cons.prems(2) by simp
  from Cons.prems(1) have "strict_prefix p (header_line h @ concat (map header_line hs) @ crlf)" by simp
  then show ?case
  proof (cases rule: strict_prefix_append_cases)
    case 1
    then have "find_sub crlf p = None"
      using no_crlf_before_end [OF header_line_shape(2) [OF h], of p] header_line_shape(1) [OF h] by simp
    with Cons.prems(3) show ?thesis by (simp add: parse_bytes.simps)
  next
    case (2 q)
    let ?c1 = "c\<lparr>request := (request c)\<lparr>headers := (headers (request c))(fst h \<mapsto> snd h)\<rparr>\<rparr>"
    have fresh: "fst ` set hs \<inter> dom (headers (request ?c1)) = {}"
      using Cons.prems(4,5) by (cases h) auto
    have "\<exists>q' c'. parse_bytes q ?c1 = Inr (True, q', c') \<and> phase c' = kHeaderLines"
      by (rule Cons.IH [OF 2(2) _ _ _ fresh]) (use Cons.prems in simp_all)
    then show ?thesis
      using Cons.prems 2(1) by (simp add: parse_header_line [OF h])
  qed
qed

text \<open>No beginning of a well-formed request is complete, refused, or ends the process, with the one
  exception that \<open>bare_request_line_aborts\<close> names.\<close>

lemma part_of_request_waits:
  assumes "strict_prefix p (request_text l hs)" and "p \<noteq> request_line_to_string l @ crlf"
    and wf: "well_formed_text l hs"
  shows "\<exists>q c'. parse_bytes p new_context = Inr (True, q, c') \<and> phase c' \<noteq> kCompleted"
proof -
  let ?line = "request_line_to_string l"
  have "strict_prefix p ((?line @ crlf) @ concat (map header_line hs) @ crlf)"
    using assms(1) by (simp add: request_text_def)
  then show ?thesis
  proof (cases rule: strict_prefix_append_cases)
    case 1
    have "cr \<notin> set ?line" using wf by (simp add: plain_line_def cr_in_printed_line)
    from no_crlf_before_end [OF this 1] show ?thesis
      by (simp add: parse_bytes.simps [of p] new_context_def)
  next
    case (2 q)
    then have "q \<noteq> []" using assms(2) by auto
    let ?c1 = "new_context\<lparr>request := (request new_context)\<lparr>req_line := l\<rparr>, phase := kHeaderLines\<rparr>"
    have "parse_bytes p new_context = parse_bytes q ?c1"
      using parse_request_line [OF conjunct1 [OF wf], of new_context q] 2(1) \<open>q \<noteq> []\<close>
      by (simp add: new_context_def)
    moreover have "\<exists>q' c'. parse_bytes q ?c1 = Inr (True, q', c') \<and> phase c' = kHeaderLines"
      using wf 2(2) by (intro part_of_headers_waits [OF 2(2)]) (auto simp: new_context_def new_request_def)
    ultimately show ?thesis by auto
  qed
qed

lemma whole_text_completes:
  assumes "well_formed_text l hs" and "req_method l \<noteq> kPost"
  shows "parse_bytes (request_text l hs) new_context =
    Inr (True, [], \<lparr>phase = kCompleted, request = text_request l hs\<rparr>)"
  using parse_text [of l hs "[]"] assms by (simp add: parse_bytes.simps [of "[]"])

section \<open>The traffic of a connection\<close>

text \<open>The connection has read the bytes \<open>p\<close> of a request and waits for more. \<open>idle\<close> is the moment
  between two requests.\<close>

definition waiting :: "nat \<Rightarrow> bytes \<Rightarrow> http_connection \<Rightarrow> bool" where
  "waiting n p c \<longleftrightarrow>
     conn_inv n c \<and> conn_state c = kConnected \<and>
     (\<exists>ctx. conn_context c = Some ctx \<and> phase ctx \<noteq> kCompleted \<and>
        (\<forall>t. parse_bytes (contents (in_buffer c) @ t) ctx = parse_bytes (p @ t) new_context))"

definition idle :: "nat \<Rightarrow> http_connection \<Rightarrow> bool" where
  "idle n c \<longleftrightarrow> conn_inv n c \<and> conn_state c = kConnected \<and> conn_context c = Some new_context \<and>
     contents (in_buffer c) = []"

lemma idle_waiting: "idle n c \<Longrightarrow> waiting n [] c"
  by (auto simp: idle_def waiting_def) (simp add: new_context_def)

lemma idle_mono: "idle n c \<Longrightarrow> m \<le> n \<Longrightarrow> idle m c"
  by (auto simp: idle_def elim: conn_inv_mono)

text \<open>Events in which the pieces \<open>ds\<close> are read, in order, and the connection may be reported
  writable in between.\<close>

fun is_write_event :: "conn_event \<Rightarrow> bool" where
  "is_write_event (Dispatch e answer) \<longleftrightarrow> e = EPOLLOUT"
| "is_write_event _ \<longleftrightarrow> False"

definition traffic :: "bytes list \<Rightarrow> conn_event list \<Rightarrow> bool" where
  "traffic ds evs \<longleftrightarrow> filter (\<lambda>ev. \<not> is_write_event ev) evs = map (\<lambda>d. Dispatch EPOLLIN (ReadOk d)) ds"

lemma is_write_eventE:
  assumes "is_write_event ev"
  obtains answer where "ev = Dispatch EPOLLOUT answer"
  using assms by (cases ev) auto

lemma traffic_cases:
  assumes "traffic ds (ev # evs)"
  obtains answer where "ev = Dispatch EPOLLOUT answer" "traffic ds evs"
  | d ds' where "ev = Dispatch EPOLLIN (ReadOk d)" "ds = d # ds'" "traffic ds' evs"
  using assms by (cases "is_write_event ev") (auto simp: traffic_def Cons_eq_map_conv elim: is_write_eventE)

lemma filter_eq_append:
  "filter P xs = ys @ zs \<Longrightarrow> \<exists>us vs. xs = us @ vs \<and> filter P us = ys \<and> filter P vs = zs"
proof (induction xs arbitrary: ys)
  case Nil
  then show ?case by simp
next
  case (Cons x xs)
  show ?case
  proof (cases ys)
    case Nil
    with Cons.prems show ?thesis by (intro exI [of _ "[]"] exI [of _ "x # xs"]) simp
  next
    case (Cons y ys')
    obtain ys1 where ys1: "filter P xs = ys1 @ zs" "ys = (if P x then [x] else []) @ ys1"
      using Cons.prems Cons by (cases "P x") auto
    from Cons.IH [OF this(1)] obtain us vs where "xs = us @ vs" "filter P us = ys1" "filter P vs = zs"
      by blast
    with ys1(2) show ?thesis by (intro exI [of _ "x # us"] exI [of _ vs]) simp
  qed
qed

lemma traffic_split:
  assumes "traffic (ds1 @ ds2) evs"
  obtains evs1 evs2 where "evs = evs1 @ evs2" "traffic ds1 evs1" "traffic ds2 evs2"
proof -
  have "filter (\<lambda>ev. \<not> is_write_event ev) evs =
      map (\<lambda>d. Dispatch EPOLLIN (ReadOk d)) ds1 @ map (\<lambda>d. Dispatch EPOLLIN (ReadOk d)) ds2"
    using assms by (simp add: traffic_def)
  from filter_eq_append [OF this] that show thesis by (auto simp: traffic_def)
qed

text \<open>A request cut into pieces, none of which is empty or ends exactly behind the request line.\<close>

definition request_pieces :: "request_line \<Rightarrow> (bytes \<times> bytes) list \<Rightarrow> bytes list \<Rightarrow> bool" where
  "request_pieces l hs ps \<longleftrightarrow>
     concat ps = request_text l hs \<and> [] \<notin> set ps \<and>
     request_line_to_string l @ crlf \<notin> set (map concat (prefixes ps))"

text \<open>A request with the pieces in which it is sent. The peer keeps the connection alive.\<close>

type_synonym exchange = "request_line \<times> (bytes \<times> bytes) list \<times> bytes list"

definition pieces :: "exchange \<Rightarrow> bytes list" where
  "pieces x = snd (snd x)"

definition proper_exchange :: "exchange \<Rightarrow> bool" where
  "proper_exchange x \<longleftrightarrow>
     (case x of (l, hs, ps) \<Rightarrow> well_formed_text l hs \<and> req_method l \<noteq> kPost \<and>
        \<not> is_close_connection (text_request l hs) \<and> request_pieces l hs ps)"

text \<open>The name under which the server opens the file that is asked for.\<close>

definition asked_path :: "exchange \<Rightarrow> bytes" where
  "asked_path x = opened_path (text_request (fst x) (fst (snd x)))"

definition exchange_cost :: "exchange \<Rightarrow> nat" where
  "exchange_cost x = length (concat (pieces x)) + http_cost"

section \<open>One request\<close>

context http_system
begin

abbreviation cbs :: "nat \<Rightarrow> nat \<Rightarrow> (http_state shared, http_context option) conn_callbacks" where
  "cbs base conn \<equiv> server_callbacks base (http_user order k files) conn"

text \<open>Reading the bytes \<open>d\<close>, up to the call of \<open>on_message\<close>.\<close>

lemma message_read:
  assumes "conn_inv (length d + n) c" and "d \<noteq> []" and "conn_state c = kConnected"
  shows "\<exists>c1. handle_read (k conn) (cbs base conn) True (ReadOk d) (w, c) =
      on_message order (k conn) files (w, c1) \<and> conn_inv n c1 \<and> contents (in_buffer c1) = contents (in_buffer c) @ d \<and>
      conn_state c1 = kConnected \<and> conn_context c1 = conn_context c \<and> stream c1 = stream c \<and> posted c1 = posted c"
proof -
  note wf = conn_inv_wf [OF assms(1)]
  obtain b where b: "read_fd (ReadOk d) (in_buffer c) = Inr ((int (length d), None), b)"
    "wf_buffer b" "contents b = contents (in_buffer c) @ d" "room b n"
    using read_fd_spec [OF wf(1,3)] by blast
  have "conn_inv n (c\<lparr>in_buffer := b\<rparr>)"
    using assms(1,3) b(2,4) room_mono [OF wf(4), of n] by (auto simp: conn_inv_def)
  with b(1,3) assms(2,3) show ?thesis
    by (intro exI [of _ "c\<lparr>in_buffer := b\<rparr>"])
      (simp add: handle_read_def server_callbacks_def http_user_def run_callback_def call_if_set_def stream_def)
qed

lemma piece_read_awaits:
  assumes "waiting (length d + n) p c" and "d \<noteq> []"
    and parsed: "parse_bytes (p @ d) new_context = Inr (True, q, ctx1)" "phase ctx1 \<noteq> kCompleted"
  shows "\<exists>c'. handle_read (k conn) (cbs base conn) True (ReadOk d) (w, c) = Inr (w, c') \<and>
      waiting n (p @ d) c' \<and> stream c' = stream c"
proof -
  from assms(1) obtain ctx where c: "conn_inv (length d + n) c" "conn_state c = kConnected"
    "conn_context c = Some ctx" "\<And>t. parse_bytes (contents (in_buffer c) @ t) ctx = parse_bytes (p @ t) new_context"
    by (auto simp: waiting_def)
  from message_read [OF c(1) assms(2) c(2), of conn base w] obtain c1 where c1:
    "handle_read (k conn) (cbs base conn) True (ReadOk d) (w, c) = on_message order (k conn) files (w, c1)"
    "conn_inv n c1" "contents (in_buffer c1) = contents (in_buffer c) @ d" "conn_state c1 = kConnected"
    "conn_context c1 = Some ctx" "stream c1 = stream c" using c(3) by auto
  have wf: "wf_buffer (in_buffer c1)" using c1(2) by (simp add: conn_inv_def)
  have "parse_bytes (contents (in_buffer c1)) ctx = Inr (True, q, ctx1)"
    using c(4) parsed(1) c1(3) by simp
  from parse_request_InrI [OF wf this] obtain b where b:
    "parse_request (in_buffer c1) ctx = Inr (True, b, ctx1)" "contents b = q" by blast
  let ?c2 = "c1\<lparr>in_buffer := b, conn_context := Some ctx1\<rparr>"
  have "undisturbed n c1 ?c2" by (rule parsed_undisturbed [OF c1(2) b(1)])
  then have inv2: "conn_inv n ?c2" by (simp only: undisturbed_def advances_def)
  have "parse_bytes (q @ t) ctx1 = parse_bytes ((p @ d) @ t) new_context" for t
    using parse_bytes_append [OF parsed] by simp
  with inv2 have "waiting n (p @ d) ?c2"
    using c1(4) b(2) parsed(2) by (simp add: waiting_def del: conn_inv_update)
  moreover have "on_message order (k conn) files (w, c1) = Inr (w, ?c2)"
    using b(1) c1(5) parsed(2) by (simp add: on_message_def parsing_completed_def)
  ultimately show ?thesis using c1(1,6) by (auto simp: stream_def)
qed

lemma last_piece_read_answered:
  assumes "waiting (length d + (n + http_cost)) p c" and "d \<noteq> []"
    and parsed: "parse_bytes (p @ d) new_context = Inr (True, [], ctx1)" "phase ctx1 = kCompleted"
    and held: "file_holds (files (served (user_state w)) (opened_path (request ctx1))) body"
  shows "\<exists>c' r. handle_read (k conn) (cbs base conn) True (ReadOk d) (w, c) =
        Inr (w\<lparr>user_state := \<lparr>served = Suc (served (user_state w))\<rparr>\<rparr>, c') \<and>
      stream c' = stream c @ response_text order r \<and> status_code r = k200Ok \<and>
      contents (entity_body r) = body \<and> conn_inv n c' \<and> (\<not> is_close_connection (request ctx1) \<longrightarrow> idle n c') \<and>
      conn_state c' = (if is_close_connection (request ctx1) then kDisconnecting else kConnected)"
proof -
  from assms(1) obtain ctx where c: "conn_inv (length d + (n + http_cost)) c" "conn_state c = kConnected"
    "conn_context c = Some ctx" "\<And>t. parse_bytes (contents (in_buffer c) @ t) ctx = parse_bytes (p @ t) new_context"
    by (auto simp: waiting_def)
  from message_read [OF c(1) assms(2) c(2), of conn base w] obtain c1 where c1:
    "handle_read (k conn) (cbs base conn) True (ReadOk d) (w, c) = on_message order (k conn) files (w, c1)"
    "conn_inv (n + http_cost) c1" "contents (in_buffer c1) = contents (in_buffer c) @ d"
    "conn_state c1 = kConnected" "conn_context c1 = Some ctx" "stream c1 = stream c" using c(3) by auto
  have "parse_bytes (contents (in_buffer c1)) ctx = Inr (True, [], ctx1)"
    using c(4) parsed(1) c1(3) by simp
  from request_answered [OF kernels_ok order_ok c1(2,4,5) this parsed(2), of files w body conn] held c1(1,6)
  show ?thesis by (auto simp: idle_def)
qed

text \<open>The same for a channel that is reported as readable and no more.\<close>

lemma waiting_revents [simp]: "waiting n p (c\<lparr>channel := set_revents e (channel c)\<rparr>) \<longleftrightarrow> waiting n p c"
  by (simp add: waiting_def)

lemma waiting_registered: "waiting n p c \<Longrightarrow> in_interest_list (channel c)"
  using open_writing(1) by (auto simp: waiting_def)

lemma piece_awaits:
  assumes "waiting (length d + n) p c" and "d \<noteq> []"
    and "parse_bytes (p @ d) new_context = Inr (True, q, ctx1)" "phase ctx1 \<noteq> kCompleted"
  shows "\<exists>c'. conn_step (k conn) (cbs base conn) (Dispatch EPOLLIN (ReadOk d)) (w, c) = Inr (w, c') \<and>
      waiting n (p @ d) c' \<and> stream c' = stream c"
  using piece_read_awaits [of d n p "c\<lparr>channel := set_revents EPOLLIN (channel c)\<rparr>" q ctx1 conn base w] assms
  by (simp add: readable_step [OF waiting_registered [OF assms(1)]] stream_def del: conn_step.simps)

lemma last_piece_answered:
  assumes "waiting (length d + (n + http_cost)) p c" and "d \<noteq> []"
    and "parse_bytes (p @ d) new_context = Inr (True, [], ctx1)" "phase ctx1 = kCompleted"
    and "file_holds (files (served (user_state w)) (opened_path (request ctx1))) body"
  shows "\<exists>c' r. conn_step (k conn) (cbs base conn) (Dispatch EPOLLIN (ReadOk d)) (w, c) =
        Inr (w\<lparr>user_state := \<lparr>served = Suc (served (user_state w))\<rparr>\<rparr>, c') \<and>
      stream c' = stream c @ response_text order r \<and> status_code r = k200Ok \<and>
      contents (entity_body r) = body \<and> conn_inv n c' \<and> (\<not> is_close_connection (request ctx1) \<longrightarrow> idle n c') \<and>
      conn_state c' = (if is_close_connection (request ctx1) then kDisconnecting else kConnected)"
  using last_piece_read_answered [of d n p "c\<lparr>channel := set_revents EPOLLIN (channel c)\<rparr>" ctx1 w body conn base] assms
  by (simp add: readable_step [OF waiting_registered [OF assms(1)]] stream_def del: conn_step.simps)

text \<open>A writable event in between.\<close>

lemma write_event_between:
  assumes "conn_inv n c" and "conn_state c = kConnected"
  shows "\<exists>c'. conn_step (k conn) (cbs base conn) (Dispatch EPOLLOUT a) (w, c) = Inr (w, c') \<and>
      stream c' = stream c \<and> (waiting n p c \<longrightarrow> waiting n p c') \<and> (idle n c \<longrightarrow> idle n c')"
proof -
  from write_event [OF kernels_ok assms(1), of conn "cbs base conn" a w] assms(2) obtain c' where
    "conn_step (k conn) (cbs base conn) (Dispatch EPOLLOUT a) (w, c) = Inr (w, c')" "advances n c c'"
    "stream c' = stream c" "conn_state c' = conn_state c" "in_buffer c' = in_buffer c"
    "conn_context c' = conn_context c" by blast
  with advances_inv [OF this(2)] show ?thesis by (auto simp: waiting_def idle_def)
qed

lemma writes_between:
  "idle n c \<Longrightarrow> traffic [] evs \<Longrightarrow>
   \<exists>c'. foldE (conn_step (k conn) (cbs base conn)) evs (w, c) = Inr (w, c') \<and> stream c' = stream c \<and> idle n c'"
proof (induction evs arbitrary: c)
  case Nil
  then show ?case by simp
next
  case (Cons ev evs)
  from Cons.prems(2) obtain a where ev: "ev = Dispatch EPOLLOUT a" "traffic [] evs"
    by (cases rule: traffic_cases) auto
  have "conn_inv n c" "conn_state c = kConnected" using Cons.prems(1) by (simp_all add: idle_def)
  from write_event_between [OF this, of conn base a w "[]"] Cons.prems(1) obtain c1 where
    "conn_step (k conn) (cbs base conn) ev (w, c) = Inr (w, c1)" "stream c1 = stream c" "idle n c1"
    by (auto simp: ev)
  with Cons.IH [OF this(3) ev(2)] show ?case by auto
qed

lemma request_served:
  assumes "well_formed_text l hs" and "req_method l \<noteq> kPost"
    and keep: "\<not> is_close_connection (text_request l hs)"
    and held: "file_holds (files (served (user_state w)) (opened_path (text_request l hs))) body"
  shows "waiting (length (concat ps) + (n + http_cost)) p c \<Longrightarrow> p @ concat ps = request_text l hs \<Longrightarrow>
    ps \<noteq> [] \<Longrightarrow> [] \<notin> set ps \<Longrightarrow>
    request_line_to_string l @ crlf \<notin> set (map (\<lambda>us. p @ concat us) (prefixes ps)) \<Longrightarrow> traffic ps evs \<Longrightarrow>
    \<exists>c' r. foldE (conn_step (k conn) (cbs base conn)) evs (w, c) =
        Inr (w\<lparr>user_state := \<lparr>served = Suc (served (user_state w))\<rparr>\<rparr>, c') \<and>
      stream c' = stream c @ response_text order r \<and> status_code r = k200Ok \<and>
      contents (entity_body r) = body \<and> idle n c'"
proof (induction evs arbitrary: ps p c)
  case Nil
  then show ?case by (simp add: traffic_def)
next
  case (Cons ev evs)
  note more = Cons.prems
  from more(6) show ?case
  proof (cases rule: traffic_cases)
    case (1 a)
    have "conn_inv (length (concat ps) + (n + http_cost)) c" "conn_state c = kConnected"
      using more(1) by (simp_all add: waiting_def)
    from write_event_between [OF this, of conn base a w p] more(1) obtain c1 where
      "conn_step (k conn) (cbs base conn) ev (w, c) = Inr (w, c1)" "stream c1 = stream c"
      "waiting (length (concat ps) + (n + http_cost)) p c1" by (auto simp: 1(1))
    with Cons.IH [OF this(3) more(2-5) 1(2)] show ?thesis by auto
  next
    case (2 d ds)
    have d: "d \<noteq> []" using more(4) 2(2) by auto
    show ?thesis
    proof (cases ds)
      case Nil
      have pd: "parse_bytes (p @ d) new_context = Inr (True, [], \<lparr>phase = kCompleted, request = text_request l hs\<rparr>)"
        using whole_text_completes [OF assms(1,2)] more(2) 2(2) Nil by simp
      have "waiting (length d + (n + http_cost)) p c" using more(1) 2(2) Nil by simp
      from last_piece_answered [OF this d pd, where w = w and body = body and conn = conn and base = base]
        keep held obtain c1 r where c1:
        "conn_step (k conn) (cbs base conn) ev (w, c) =
           Inr (w\<lparr>user_state := \<lparr>served = Suc (served (user_state w))\<rparr>\<rparr>, c1)"
        "stream c1 = stream c @ response_text order r" "status_code r = k200Ok"
        "contents (entity_body r) = body" "idle n c1" by (auto simp: 2(1))
      have "traffic [] evs" using 2(3) Nil by simp
      from writes_between [OF c1(5) this] c1 show ?thesis by fastforce
    next
      case (Cons d' ds')
      then have "concat ds \<noteq> []" using more(4) 2(2) by auto
      moreover have "request_text l hs = (p @ d) @ concat ds" using more(2) 2(2) by simp
      ultimately have "strict_prefix (p @ d) (request_text l hs)"
        by (simp only: strict_prefix_def prefix_def) auto
      moreover have "p @ d \<noteq> request_line_to_string l @ crlf"
        using more(5) 2(2) Cons by auto
      ultimately obtain q ctx1 where pd: "parse_bytes (p @ d) new_context = Inr (True, q, ctx1)"
        "phase ctx1 \<noteq> kCompleted" using part_of_request_waits assms(1) by blast
      have "waiting (length d + (length (concat ds) + (n + http_cost))) p c"
        using more(1) 2(2) by (simp add: add.assoc)
      from piece_awaits [OF this d pd, of conn base w] obtain c1 where c1:
        "conn_step (k conn) (cbs base conn) ev (w, c) = Inr (w, c1)" "stream c1 = stream c"
        "waiting (length (concat ds) + (n + http_cost)) (p @ d) c1" by (auto simp: 2(1))
      have "\<exists>c' r. foldE (conn_step (k conn) (cbs base conn)) evs (w, c1) =
          Inr (w\<lparr>user_state := \<lparr>served = Suc (served (user_state w))\<rparr>\<rparr>, c') \<and>
        stream c' = stream c1 @ response_text order r \<and> status_code r = k200Ok \<and>
        contents (entity_body r) = body \<and> idle n c'"
        using more(2,4,5) 2(2,3) Cons by (intro Cons.IH [OF c1(3)]) auto
      with c1 show ?thesis by auto
    qed
  qed
qed

text \<open>Any number of requests, from \<open>idle\<close> to \<open>idle\<close>.\<close>

lemma exchange_served:
  assumes "proper_exchange x" and "idle (exchange_cost x + n) c" and "traffic (pieces x) evs"
    and "file_holds (files (served (user_state w)) (asked_path x)) body"
  shows "\<exists>c' r. foldE (conn_step (k conn) (cbs base conn)) evs (w, c) =
      Inr (w\<lparr>user_state := \<lparr>served = Suc (served (user_state w))\<rparr>\<rparr>, c') \<and>
    stream c' = stream c @ response_text order r \<and> status_code r = k200Ok \<and>
    contents (entity_body r) = body \<and> idle n c'"
proof -
  obtain l hs ps where x: "x = (l, hs, ps)" by (cases x)
  have held: "file_holds (files (served (user_state w)) (opened_path (text_request l hs))) body"
    using assms(4) by (simp add: x asked_path_def)
  have p: "well_formed_text l hs" "req_method l \<noteq> kPost" "\<not> is_close_connection (text_request l hs)"
    "concat ps = request_text l hs" "[] \<notin> set ps" "request_line_to_string l @ crlf \<notin> set (map concat (prefixes ps))"
    using assms(1) by (simp_all add: x proper_exchange_def request_pieces_def)
  have "ps \<noteq> []" using p(4) by (auto simp: request_text_def)
  moreover have "waiting (length (concat ps) + (n + http_cost)) [] c"
    using idle_waiting [OF assms(2)] by (simp add: x exchange_cost_def pieces_def add_ac)
  ultimately show ?thesis
    using request_served [OF p(1-3) held, of ps n "[]" c evs] p(4-6) assms(3)
    by (simp add: x pieces_def)
qed

lemma exchanges_served:
  "list_all proper_exchange xs \<Longrightarrow> idle (sum_list (map exchange_cost xs) + n) c \<Longrightarrow>
   traffic (concat (map pieces xs)) evs \<Longrightarrow> length bodies = length xs \<Longrightarrow>
   (\<And>i. i < length xs \<Longrightarrow> file_holds (files (served (user_state w) + i) (asked_path (xs ! i))) (bodies ! i)) \<Longrightarrow>
   \<exists>c' rs. foldE (conn_step (k conn) (cbs base conn)) evs (w, c) =
       Inr (w\<lparr>user_state := \<lparr>served = served (user_state w) + length xs\<rparr>\<rparr>, c') \<and>
     stream c' = stream c @ concat (map (response_text order) rs) \<and>
     map status_code rs = replicate (length xs) k200Ok \<and>
     map (\<lambda>r. contents (entity_body r)) rs = bodies \<and> idle n c'"
proof (induction xs arbitrary: c evs bodies w)
  case Nil
  have "w\<lparr>user_state := \<lparr>served = served (user_state w)\<rparr>\<rparr> = w" by simp
  with Nil.prems writes_between [of n c evs conn base w] show ?case by auto
next
  case (Cons x xs)
  from Cons.prems(3) obtain evs1 evs2 where evs: "evs = evs1 @ evs2" "traffic (pieces x) evs1"
    "traffic (concat (map pieces xs)) evs2" by (auto elim: traffic_split)
  obtain body bodies' where b: "bodies = body # bodies'" "length bodies' = length xs"
    using Cons.prems(4) by (cases bodies) auto
  have first: "file_holds (files (served (user_state w)) (asked_path x)) body"
    using Cons.prems(5) [of 0] by (simp add: b)
  have rest: "file_holds (files (served (user_state w) + Suc i) (asked_path (xs ! i))) (bodies' ! i)" if "i < length xs" for i
    using Cons.prems(5) [of "Suc i"] that by (simp add: b)
  have "idle (exchange_cost x + (sum_list (map exchange_cost xs) + n)) c"
    using Cons.prems(2) by (simp add: add.assoc)
  from exchange_served [OF _ this evs(2) first, of conn base] Cons.prems(1) obtain c1 r where c1:
    "foldE (conn_step (k conn) (cbs base conn)) evs1 (w, c) =
       Inr (w\<lparr>user_state := \<lparr>served = Suc (served (user_state w))\<rparr>\<rparr>, c1)"
    "stream c1 = stream c @ response_text order r" "status_code r = k200Ok"
    "contents (entity_body r) = body" "idle (sum_list (map exchange_cost xs) + n) c1" by auto
  let ?w = "w\<lparr>user_state := \<lparr>served = Suc (served (user_state w))\<rparr>\<rparr>"
  from Cons.IH [OF _ c1(5) evs(3) b(2), of ?w] rest Cons.prems(1) obtain c' rs where
    "foldE (conn_step (k conn) (cbs base conn)) evs2 (?w, c1) =
       Inr (?w\<lparr>user_state := \<lparr>served = Suc (served (user_state w)) + length xs\<rparr>\<rparr>, c')"
    "stream c' = stream c1 @ concat (map (response_text order) rs)"
    "map status_code rs = replicate (length xs) k200Ok"
    "map (\<lambda>r. contents (entity_body r)) rs = bodies'" "idle n c'" by auto
  then show ?case
    using c1 by (intro exI [of _ c'] exI [of _ "r # rs"]) (simp add: evs(1) foldE_append b(1))
qed

text \<open>A new connection becomes idle when \<open>established\<close> has run.\<close>

lemma established_idle:
  assumes "n + 8 \<le> max_string_size"
  shows "\<exists>c. conn_step (k conn) (cbs base conn) RunPosted (w, start_connection loop fd a None) = Inr (w, c) \<and>
    idle n c \<and> stream c = [] \<and> posted c = []"
proof -
  let ?c0 = "(start_connection loop fd a None :: http_connection)\<lparr>posted := []\<rparr>"
  let ?c1 = "?c0\<lparr>conn_state := kConnected, channel := (channel ?c0)
      \<lparr>events := wanted_events False, in_interest_list := True\<rparr>,
      sock := (sock ?c0)\<lparr>calls := Suc (calls (sock ?c0))\<rparr>\<rparr>"
  have "conn_step (k conn) (cbs base conn) RunPosted (w, start_connection loop fd a None) =
      Inr (w, set_context (Some new_context) ?c1)"
    by (simp add: start_connection_def tcp_connection_ctor_def post_def established_def set_state_def
        on_channel_eq [OF kernels_ok] run_callback_def call_if_set_def server_callbacks_def http_user_def
        http_connection_callback_def is_connected_def set_context_def new_channel_def wanted_events_def)
  moreover have "idle n (set_context (Some new_context) ?c1)" "stream (set_context (Some new_context) ?c1) = []"
    "posted (set_context (Some new_context) ?c1) = []"
    using assms by (simp_all add: idle_def conn_inv_def set_context_def start_connection_def
        tcp_connection_ctor_def post_def new_sock_def stream_def set_nodelay_def set_keep_alive_def)
  ultimately show ?thesis by blast
qed

end

section \<open>Properties\<close>


text \<open>Two requests, the first one in three pieces, to a kernel that takes over three bytes at a time.\<close>

definition sample_exchanges :: "exchange list" where
  "sample_exchanges =
     (let l = sample_line kGet; hs = [(''Connection'', ''keep-alive'')]; t = request_text l hs in
      [(l, hs, [take 3 t, take 20 (drop 3 t), drop 23 t]), (l, hs, [t])])"

lemma sample_exchanges: "list_all proper_exchange sample_exchanges"
  "length (concat (pieces (sample_exchanges ! 0))) \<le> 100" "length (concat (pieces (sample_exchanges ! 1))) \<le> 100"
  "length sample_exchanges = 2"
  by (simp_all add: sample_exchanges_def proper_exchange_def request_pieces_def pieces_def
      sample_line_plain plain_header_def is_close_connection_def get_header_def request_text_def
      header_line_def request_line_to_string_def Let_def)


end
