(* ===== verification/Http_Service.thy ===== *)
theory Http_Service
  imports Http_Session
begin

text \<open>
  The HTTP server with all its clients at once: the server of \<open>Http_Server\<close>, its loops taking
  turns in any way, and any number of clients that send the requests of a script each. Brings
  together what \<open>Http_Session\<close> shows of one connection and what \<open>Tcp_Server\<close> shows of the
  server's bookkeeping.
\<close>

section \<open>Clients\<close>

text \<open>What happens when nobody but the server uses its sockets: connections come in, the kernel reports
  any masks for the sockets, with bytes, the end of the stream or an error to be read; and the loops run
  their tasks.\<close>

fun client_event :: "server_event \<Rightarrow> bool" where
  "client_event (OnConnection conn (Dispatch e answer)) \<longleftrightarrow> True"
| "client_event (OnConnection conn ev) \<longleftrightarrow> ev = RunPosted"
| "client_event ev \<longleftrightarrow> True"

text \<open>The pieces that the server reads from the client of the connection \<open>j\<close>, at an event and in a
  run of the server.\<close>

fun taken :: "server_event \<Rightarrow> ('u, 'x) server \<Rightarrow> nat \<Rightarrow> bytes list" where
  "taken (OnConnection conn (Dispatch e (ReadOk d))) s j =
     (if j = conn \<and> may_read e \<and> d \<noteq> [] \<and>
         (case alive s conn of Some c \<Rightarrow> in_interest_list (channel c) | None \<Rightarrow> False)
      then [d] else [])"
| "taken _ s j = []"

lemma taken_elsewhere:
  "j \<noteq> conn \<or> alive s conn = None \<Longrightarrow> taken (OnConnection conn ev) s j = []"
proof (cases ev)
  case (Dispatch e a)
  then show "j \<noteq> conn \<or> alive s conn = None \<Longrightarrow> ?thesis" by (cases a) auto
qed simp_all

fun read_by ::
    "(nat \<Rightarrow> kernel) \<Rightarrow> ('u, 'x) user_callbacks \<Rightarrow> 'x \<Rightarrow> server_event list \<Rightarrow> ('u, 'x) server \<Rightarrow> nat
      \<Rightarrow> bytes list" where
  "read_by k ucbs x0 [] s j = []"
| "read_by k ucbs x0 (ev # evs) s j =
     taken ev s j @ (case server_step k ucbs x0 ev s of Inl e \<Rightarrow> [] | Inr s' \<Rightarrow> read_by k ucbs x0 evs s' j)"

text \<open>How far a client has come in its script when the pieces \<open>rd\<close> of it have been read: the
  requests \<open>xs\<close> wholly, and the pieces \<open>ds\<close> of the first of \<open>ys\<close>.\<close>

definition at_point ::
    "exchange list \<Rightarrow> bytes list \<Rightarrow> exchange list \<Rightarrow> exchange list \<Rightarrow> bytes list \<Rightarrow> bool" where
  "at_point script rd xs ys ds \<longleftrightarrow>
     script = xs @ ys \<and> rd = concat (map pieces xs) @ ds \<and>
     (case ys of [] \<Rightarrow> ds = [] | y # _ \<Rightarrow> strict_prefix ds (pieces y))"

lemma pieces_nonempty: "proper_exchange x \<Longrightarrow> pieces x \<noteq> []"
  by (auto simp: proper_exchange_def request_pieces_def pieces_def request_text_def)

lemma begins_with_nothing: "strict_prefix [] xs \<longleftrightarrow> xs \<noteq> []"
  by (auto simp: strict_prefix_def)

lemma at_start:
  assumes "list_all proper_exchange script"
  shows "at_point script [] [] script []"
  using assms by (cases script) (auto simp: at_point_def begins_with_nothing pieces_nonempty)

text \<open>The next piece is one of the request that has been begun, the last one of it or not.\<close>

lemma next_piece:
  assumes "at_point script rd xs ys ds" and "prefix (rd @ [d]) (concat (map pieces script))"
    and "list_all proper_exchange script"
  obtains (last) y ys' where "ys = y # ys'" "pieces y = ds @ [d]" "proper_exchange y"
      "at_point script (rd @ [d]) (xs @ [y]) ys' []"
  | (more) y ys' d' more where "ys = y # ys'" "pieces y = ds @ d # d' # more" "proper_exchange y"
      "at_point script (rd @ [d]) xs ys (ds @ [d])"
proof -
  have p: "prefix (ds @ [d]) (concat (map pieces ys))"
    using assms(1,2) by (auto simp: at_point_def)
  obtain y ys' where y: "ys = y # ys'" "strict_prefix ds (pieces y)"
  proof (cases ys)
    case Nil
    with p show ?thesis by simp
  qed (use assms(1) that in \<open>simp add: at_point_def\<close>)
  obtain e es where es: "pieces y = ds @ e # es"
    using y(2) by (auto simp: strict_prefix_def prefix_def neq_Nil_conv)
  have e: "e = d" using p by (simp add: y(1) es)
  have proper: "proper_exchange y" "list_all proper_exchange ys'"
    using assms(1,3) by (auto simp: at_point_def y(1))
  show thesis
  proof (cases es)
    case Nil
    have "at_point script (rd @ [d]) (xs @ [y]) ys' []"
      using assms(1) proper(2) by (cases ys') (auto simp: at_point_def y(1) es e Nil begins_with_nothing pieces_nonempty)
    with y(1) es e Nil proper show thesis by (intro last) simp_all
  next
    case (Cons d' more')
    have "at_point script (rd @ [d]) xs ys (ds @ [d])"
      using assms(1) by (auto simp: at_point_def y(1) es e Cons strict_prefix_def)
    with y(1) es e Cons proper show thesis by (intro more) simp_all
  qed
qed

section \<open>A connection on its course\<close>

text \<open>\<open>tree\<close> is what the files hold, by name. The bytes \<open>t\<close> are the answers to the requests \<open>xs\<close>.\<close>

definition answers_in ::
    "((bytes \<times> bytes) list \<Rightarrow> (bytes \<times> bytes) list) \<Rightarrow> (bytes \<Rightarrow> bytes) \<Rightarrow> exchange list \<Rightarrow> bytes \<Rightarrow> bool" where
  "answers_in order tree xs t \<longleftrightarrow>
     (\<exists>rs. t = concat (map (response_text order) rs) \<and> (\<forall>r \<in> set rs. status_code r = k200Ok) \<and>
        map (\<lambda>r. contents (entity_body r)) rs = map (\<lambda>x. tree (asked_path x)) xs)"

lemma answers_in_simps:
  "answers_in order tree [] []"
  "answers_in order tree xs t \<Longrightarrow> status_code r = k200Ok \<Longrightarrow> contents (entity_body r) = tree (asked_path x) \<Longrightarrow>
   answers_in order tree (xs @ [x]) (t @ response_text order r)"
proof -
  show "answers_in order tree [] []" by (simp add: answers_in_def)
  assume r: "answers_in order tree xs t" "status_code r = k200Ok" "contents (entity_body r) = tree (asked_path x)"
  then obtain rs where "t = concat (map (response_text order) rs)" "\<forall>r \<in> set rs. status_code r = k200Ok"
    "map (\<lambda>r. contents (entity_body r)) rs = map (\<lambda>x. tree (asked_path x)) xs"
    by (auto simp: answers_in_def)
  with r(2,3) show "answers_in order tree (xs @ [x]) (t @ response_text order r)"
    unfolding answers_in_def by (intro exI [of _ "rs @ [r]"]) auto
qed

definition parsed_up_to :: "bytes \<Rightarrow> http_connection \<Rightarrow> bool" where
  "parsed_up_to p c \<longleftrightarrow>
     (\<exists>ctx. conn_context c = Some ctx \<and> phase ctx \<noteq> kCompleted \<and>
        (\<forall>t. parse_bytes (contents (in_buffer c) @ t) ctx = parse_bytes (p @ t) new_context))"

lemma waiting_iff: "waiting n p c \<longleftrightarrow> conn_inv n c \<and> conn_state c = kConnected \<and> parsed_up_to p c"
  by (simp add: waiting_def parsed_up_to_def)

text \<open>The client has sent the pieces \<open>rd\<close> and everything the server has written or will write are the
  answers to the requests completed by them.\<close>

definition on_course ::
    "((bytes \<times> bytes) list \<Rightarrow> (bytes \<times> bytes) list) \<Rightarrow> (bytes \<Rightarrow> bytes) \<Rightarrow> exchange list \<Rightarrow> bytes list
      \<Rightarrow> http_connection \<Rightarrow> bool" where
  "on_course order tree script rd c \<longleftrightarrow>
     (\<exists>xs ys ds. at_point script rd xs ys ds \<and> answers_in order tree xs (stream c) \<and>
        (case conn_state c of
           kConnecting \<Rightarrow> rd = [] \<and> (\<exists>l fd a. c = start_connection l fd a None)
         | kConnected \<Rightarrow> posted c = [] \<and> parsed_up_to (concat ds) c
         | kDisconnecting \<Rightarrow> False
         | kDisconnected \<Rightarrow> True))"

lemma start_on_course:
  "list_all proper_exchange script \<Longrightarrow> on_course order tree script [] (start_connection l fd a None)"
  unfolding on_course_def
  by (intro exI [of _ "[]"] exI [of _ script])
    (auto simp: at_start start_connection_def tcp_connection_ctor_def post_def stream_def new_sock_def
      set_nodelay_def set_keep_alive_def answers_in_simps)

text \<open>The events of a connection. What is read while the connection is open is the next piece of the
  script; the budget of the connection is that of \<open>Tcp_Connection\<close>.\<close>

context http_system
begin

lemma read_on_course:
  assumes inv: "conn_inv (length d + (n + http_cost)) c" and st: "conn_state c = kConnected"
    and d: "d \<noteq> []" and course: "on_course order tree script rd c"
    and proper: "list_all proper_exchange script" and script: "prefix (rd @ [d]) (concat (map pieces script))"
    and held: "\<And>i p. file_holds (files i p) (tree p)"
  shows "\<exists>w' c'. handle_read (k conn) (cbs base conn) True (ReadOk d) (w, c) = Inr (w', c') \<and>
      on_course order tree script (rd @ [d]) c'"
proof -
  obtain xs ys ds where c: "at_point script rd xs ys ds" "answers_in order tree xs (stream c)"
    "posted c = []" "parsed_up_to (concat ds) c"
    using course st by (auto simp: on_course_def)
  have posted: "posted c' = []" if
    "handle_read (k conn) (cbs base conn) True (ReadOk d) (w, c) = Inr (w', c')" for w' c'
  proof -
    from message_read [OF inv d st, of conn base w] obtain c1 where c1:
      "handle_read (k conn) (cbs base conn) True (ReadOk d) (w, c) = on_message order (k conn) files (w, c1)"
      "posted c1 = posted c" by blast
    then have "on_message order (k conn) files (w, c1) = Inr (w', c')" "posted c1 = []"
      using that c(3) by (simp_all del: conn_step.simps)
    with on_message_calm [of order "k conn" files w c1 w' c'] show ?thesis by (simp add: calm_def)
  qed
  from c(1) script proper show ?thesis
  proof (cases rule: next_piece)
    case (last y ys')
    obtain l hs where y: "y = (l, hs, ds @ [d])" using last(2) by (cases y) (simp add: pieces_def)
    have p: "well_formed_text l hs" "req_method l \<noteq> kPost" "\<not> is_close_connection (text_request l hs)"
      "concat ds @ d = request_text l hs"
      using last(3) by (simp_all add: y proper_exchange_def request_pieces_def)
    have "waiting (length d + (n + http_cost)) (concat ds) c"
      using inv st c(4) by (simp add: waiting_iff)
    moreover have "file_holds (files (served (user_state w)) (opened_path (text_request l hs))) (tree (asked_path y))"
      using held [of _ "asked_path y"] by (simp add: asked_path_def y)
    moreover have "parse_bytes (concat ds @ d) new_context =
        Inr (True, [], \<lparr>phase = kCompleted, request = text_request l hs\<rparr>)"
      using whole_text_completes [OF p(1,2)] p(4) by simp
    ultimately obtain w' c' r where
      c': "handle_read (k conn) (cbs base conn) True (ReadOk d) (w, c) = Inr (w', c')"
      "stream c' = stream c @ response_text order r" "status_code r = k200Ok" "contents (entity_body r) = tree (asked_path y)"
      "idle n c'"
      using last_piece_read_answered [where w = w and body = "tree (asked_path y)" and conn = conn and base = base, of d n "concat ds" c]
        d p(3) by fastforce
    have "waiting n [] c'" by (rule idle_waiting [OF c'(5)])
    with last(4) c' c(2) posted [OF c'(1)] have "on_course order tree script (rd @ [d]) c'"
      unfolding on_course_def
      by (intro exI [of _ "xs @ [y]"] exI [of _ ys'] exI [of _ "[]"]) (simp add: waiting_iff answers_in_simps)
    with c'(1) show ?thesis by blast
  next
    case (more y ys' d' more)
    obtain l hs where y: "y = (l, hs, ds @ d # d' # more)" using more(2) by (cases y) (simp add: pieces_def)
    have p: "well_formed_text l hs" "concat ds @ d @ d' @ concat more = request_text l hs"
      "d' \<noteq> []" "request_line_to_string l @ crlf \<notin> set (map concat (prefixes (ds @ d # d' # more)))"
      using more(3) by (auto simp: y proper_exchange_def request_pieces_def)
    have "strict_prefix (concat ds @ d) (request_text l hs)"
      using p(3) by (simp flip: p(2) add: strict_prefix_def)
    moreover have "ds @ [d] \<in> set (prefixes (ds @ d # d' # more))" by (simp add: in_set_prefixes)
    then have "concat (ds @ [d]) \<in> set (map concat (prefixes (ds @ d # d' # more)))"
      unfolding set_map by (rule imageI)
    then have "concat ds @ d \<noteq> request_line_to_string l @ crlf"
      using p(4) by (metis concat_append concat.simps append_Nil2)
    ultimately obtain q ctx1 where pd: "parse_bytes (concat ds @ d) new_context = Inr (True, q, ctx1)"
      "phase ctx1 \<noteq> kCompleted" using part_of_request_waits p(1) by blast
    have "waiting (length d + (n + http_cost)) (concat ds) c"
      using inv st c(4) by (simp add: waiting_iff)
    from piece_read_awaits [OF this d pd, of conn base w] obtain c' where
      c': "handle_read (k conn) (cbs base conn) True (ReadOk d) (w, c) = Inr (w, c')"
        "waiting (n + http_cost) (concat ds @ d) c'" "stream c' = stream c" by blast
    with more(4) c(2) posted [OF c'(1)] have "on_course order tree script (rd @ [d]) c'"
      unfolding on_course_def
      by (intro exI [of _ xs] exI [of _ ys] exI [of _ "ds @ [d]"]) (simp add: waiting_iff)
    with c'(1) show ?thesis by blast
  qed
qed

lemma write_on_course:
  assumes "conn_inv n c" and "conn_state c \<noteq> kConnecting" and "on_course order tree script rd c"
  shows "\<exists>c'. handle_write (k conn) True c = Inr c' \<and> on_course order tree script rd c'"
proof -
  from handle_write_spec [OF kernels_ok assms(1), of conn] obtain c' where
    "handle_write (k conn) True c = Inr c'" "stream c' = stream c" "conn_state c' = conn_state c"
    "in_buffer c' = in_buffer c" "posted c' = posted c" "conn_context c' = conn_context c" by blast
  with assms(2,3) show ?thesis by (cases "conn_state c") (auto simp: on_course_def parsed_up_to_def)
qed

lemma end_on_course:
  assumes "conn_inv n c" and "conn_state c = kConnected" and "on_course order tree script rd c"
    and "conn_loop c \<noteq> base" and "a = ReadOk [] \<or> (\<exists>e. a = ReadErr e)"
  shows "\<exists>w' c'. handle_read (k conn) (cbs base conn) True a (w, c) = Inr (w', c') \<and>
      on_course order tree script rd c'"
proof (cases "a = ReadErr EAGAIN")
  case True
  then show ?thesis using assms(3) by (simp add: handle_read_def read_fd_def)
next
  case False
  then obtain c2 where c2: "conn_state c2 = kDisconnected" "stream c2 = stream c" "conn_loop c2 = conn_loop c"
    "handle_read (k conn) (cbs base conn) True a (w, c) =
      bindE (run_callback (connection_cb (cbs base conn)) (w, c2)) (run_callback (close_cb (cbs base conn)))"
    using closing_read [OF kernels_ok assms(1), of a conn "cbs base conn" w] assms(2,5) by auto
  have "run_callback (connection_cb (cbs base conn)) (w, c2) = Inr (w, c2)"
    using c2(1) by (simp add: server_callbacks_def http_user_def run_callback_def call_if_set_def
        http_connection_callback_def is_connected_def)
  moreover have "run_callback (close_cb (cbs base conn)) (w, c2) = Inr (w\<lparr>removals := removals w @ [conn]\<rparr>, c2)"
    using http.run_close_cb [of c2 base conn w] c2(3) assms(4) by simp
  moreover have "on_course order tree script rd c2"
    using assms(3) c2(1,2) by (auto simp: on_course_def stream_def)
  ultimately show ?thesis unfolding c2(4) by (simp del: http.callback_simps)
qed

text \<open>Whatever the mask is, the channel's handler reads, or writes, or does both or nothing.\<close>

lemma dispatch_on_course:
  assumes inv: "conn_inv (event_cost http_cost (Dispatch e a) + n) c" and st: "conn_state c = kConnected"
    and course: "on_course order tree script rd c" and loop: "conn_loop c \<noteq> base"
    and proper: "list_all proper_exchange script"
    and got: "got = (case a of ReadOk d \<Rightarrow> if may_read e \<and> d \<noteq> [] then [d] else [] | ReadErr _ \<Rightarrow> [])"
    and script: "prefix (rd @ got) (concat (map pieces script))"
    and held: "\<And>i p. file_holds (files i p) (tree p)"
  shows "\<exists>w' c'. conn_step (k conn) (cbs base conn) (Dispatch e a) (w, c) = Inr (w', c') \<and>
      on_course order tree script (rd @ got) c'"
proof -
  let ?c = "c\<lparr>channel := set_revents e (channel c)\<rparr>"
  have inv': "conn_inv (event_cost http_cost (Dispatch e a) + n) ?c" and inv_n: "conn_inv n ?c"
    using inv by (simp_all, rule conn_inv_mono, simp_all)
  have st': "conn_state ?c = kConnected" using st by simp
  have course': "on_course order tree script rd ?c"
    using course by (simp add: on_course_def parsed_up_to_def stream_def start_connection_def st)
  have "\<exists>w1 c1. (if may_read e then handle_read (k conn) (cbs base conn) True a (w, ?c) else Inr (w, ?c)) = Inr (w1, c1) \<and>
      on_course order tree script (rd @ got) c1 \<and> conn_inv n c1 \<and> conn_state c1 \<noteq> kConnecting"
  proof (cases "may_read e")
    case False
    then show ?thesis using course' inv_n st' got by (auto split: read_result.splits)
  next
    case True
    have "\<exists>w1 c1. handle_read (k conn) (cbs base conn) True a (w, ?c) = Inr (w1, c1) \<and>
      on_course order tree script (rd @ got) c1"
    proof (cases "\<exists>d. a = ReadOk d \<and> d \<noteq> []")
      case True
      then obtain d where a: "a = ReadOk d" "d \<noteq> []" by blast
      have g: "got = [d]" using a \<open>may_read e\<close> by (simp add: got)
      have "conn_inv (length d + (n + http_cost)) ?c"
        using inv' by (rule conn_inv_mono) (simp add: a)
      from read_on_course [OF this st' a(2) course' proper _ held, of conn base w] script show ?thesis
        unfolding g a(1) by blast
    next
      case False
      then have a: "a = ReadOk [] \<or> (\<exists>e. a = ReadErr e)" by (cases a) auto
      then have g: "got = []" by (auto simp: got)
      from end_on_course [OF inv' st' course' _ a, of base conn w] loop show ?thesis unfolding g by simp
    qed
    then obtain w1 c1 where c1: "handle_read (k conn) (cbs base conn) True a (w, ?c) = Inr (w1, c1)"
      "on_course order tree script (rd @ got) c1" by blast
    have "conn_inv (length (case a of ReadOk d \<Rightarrow> d | ReadErr _ \<Rightarrow> []) + (n + 2 * http_cost)) ?c"
      using inv' by (rule conn_inv_mono) (simp split: read_result.split)
    from http.client.handle_read_fine [OF this disjI1 [OF st'], of base conn w] c1(1)
    have "advances n ?c c1" by (simp add: fine_def)
    then have "conn_inv n c1" "conn_state c1 \<noteq> kConnecting" using st' by (auto simp: advances_def)
    with c1 True show ?thesis by auto
  qed
  then obtain w1 c1 where c1: "(if may_read e then handle_read (k conn) (cbs base conn) True a (w, ?c) else Inr (w, ?c)) = Inr (w1, c1)"
    "on_course order tree script (rd @ got) c1" "conn_inv n c1" "conn_state c1 \<noteq> kConnecting" by blast
  note step = dispatch_eq [OF open_writing(1) [OF inv disjI1 [OF st]], of "k conn" "cbs base conn" e a w]
  from write_on_course [OF c1(3,4,2), of conn] c1(1,2) show ?thesis
    unfolding step Let_def by (auto simp del: conn_step.simps)
qed

text \<open>One event of the server at a connection.\<close>

lemma connection_on_course:
  assumes inv: "conn_wf (event_cost http_cost ev + n) c" and loop: "conn_loop c \<noteq> base"
    and ev: "client_event (OnConnection conn ev)" and course: "on_course order tree script rd c"
    and proper: "list_all proper_exchange script"
    and script: "prefix (rd @ taken (OnConnection conn ev) s conn) (concat (map pieces script))"
    and c: "alive s conn = Some c"
    and held: "\<And>i p. file_holds (files i p) (tree p)"
    and room: "8 \<le> max_string_size"
  shows "\<exists>w' c'. conn_step (k conn) (cbs base conn) ev (w, c) = Inr (w', c') \<and>
      on_course order tree script (rd @ taken (OnConnection conn ev) s conn) c'"
proof (cases "conn_state c")
  case kConnecting
  then obtain l fd a where start: "c = start_connection l fd a None" and rd: "rd = []"
    using course by (auto simp: on_course_def)
  have idle: "\<not> in_interest_list (channel c)"
    by (simp add: start start_connection_def post_def tcp_connection_ctor_def new_channel_def)
  show ?thesis
  proof (cases ev)
    case RunPosted
    from established_idle [of 0 conn base w l fd a] room obtain c' where
      c': "conn_step (k conn) (cbs base conn) RunPosted (w, start_connection l fd a None) = Inr (w, c')"
        "idle 0 c'" "stream c' = []" "posted c' = []" by auto
    have "on_course order tree script [] c'"
      unfolding on_course_def
      using idle_waiting [OF c'(2)] c'(3,4) at_start [OF proper]
      by (intro exI [of _ "[]"] exI [of _ script] exI [of _ "[]"]) (simp add: waiting_iff answers_in_simps)
    with c'(1) show ?thesis by (simp add: RunPosted start rd del: conn_step.simps)
  next
    case (Dispatch e a)
    then have "taken (OnConnection conn ev) s conn = []" using idle c by (cases a) simp_all
    with course idle Dispatch show ?thesis by simp
  qed (use ev in simp_all)
next
  case kConnected
  have cinv: "conn_inv (event_cost http_cost ev + n) c"
    using inv by (auto simp: conn_wf_def elim: conn_inv_mono)
  have listed: "in_interest_list (channel c)" using open_writing(1) [OF cinv] kConnected by simp
  have none: "posted c = []" using course kConnected by (auto simp: on_course_def)
  show ?thesis
  proof (cases ev)
    case RunPosted
    with none course show ?thesis by simp
  next
    case (Dispatch e a)
    let ?got = "taken (OnConnection conn ev) s conn"
    have got: "?got = (case a of ReadOk d \<Rightarrow> if may_read e \<and> d \<noteq> [] then [d] else [] | ReadErr _ \<Rightarrow> [])"
      using c listed by (simp add: Dispatch split: read_result.split)
    from dispatch_on_course [OF _ kConnected course loop proper got script held, of n conn w] cinv
    show ?thesis by (simp add: Dispatch del: conn_step.simps)
  qed (use ev in simp_all)
next
  case kDisconnecting
  with course show ?thesis by (auto simp: on_course_def)
next
  case kDisconnected
  have gone: "closed_for_good c" by (rule closed_for_good [OF inv kDisconnected])
  from closed_step [OF this, of "k conn" "cbs base conn" ev w] obtain c' where
    c': "conn_step (k conn) (cbs base conn) ev (w, c) = Inr (w, c')" "closed_for_good c'" "stream c' = stream c"
    by blast
  have "taken (OnConnection conn ev) s conn = []"
  proof (cases ev)
    case (Dispatch e a)
    with gone c show ?thesis by (cases a) (auto simp: closed_for_good_def)
  qed simp_all
  moreover have "on_course order tree script rd c'"
    using course kDisconnected c'(2,3) by (auto simp: on_course_def closed_for_good_def)
  ultimately show ?thesis using c'(1) by auto
qed

end

section \<open>All connections\<close>

definition all_on_course ::
    "((bytes \<times> bytes) list \<Rightarrow> (bytes \<times> bytes) list) \<Rightarrow> (bytes \<Rightarrow> bytes) \<Rightarrow> (nat \<Rightarrow> exchange list) \<Rightarrow> (nat \<Rightarrow> bytes list)
      \<Rightarrow> (http_state, http_context option) server \<Rightarrow> bool" where
  "all_on_course order tree script rd s \<longleftrightarrow>
     (\<forall>conn. case alive s conn of None \<Rightarrow> True | Some c \<Rightarrow> on_course order tree (script conn) (rd conn) c) \<and>
     (\<forall>conn. fresh s \<le> conn \<longrightarrow> rd conn = [])"

lemma all_on_courseD:
  "all_on_course order tree script rd s \<Longrightarrow> alive s conn = Some c \<Longrightarrow>
   on_course order tree (script conn) (rd conn) c"
  by (auto simp: all_on_course_def dest: spec [of _ conn])

lemma all_on_course_update:
  assumes "all_on_course order tree script rd s"
    and "\<And>j. j \<noteq> conn \<Longrightarrow> rd' j = rd j" and "fresh s \<le> fresh s'"
    and "\<And>j. j \<noteq> conn \<Longrightarrow> alive s' j = alive s j"
    and "case alive s' conn of None \<Rightarrow> True | Some c \<Rightarrow> on_course order tree (script conn) (rd' conn) c"
    and "fresh s' \<le> conn \<longrightarrow> rd' conn = []"
  shows "all_on_course order tree script rd' s'"
  unfolding all_on_course_def
proof (intro conjI allI)
  fix j
  show "case alive s' j of None \<Rightarrow> True | Some c \<Rightarrow> on_course order tree (script j) (rd' j) c"
  proof (cases "j = conn")
    case True
    from assms(5) show ?thesis unfolding True .
  next
    case False
    have "case alive s j of None \<Rightarrow> True | Some c \<Rightarrow> on_course order tree (script j) (rd j) c"
      using assms(1) by (simp add: all_on_course_def)
    then show ?thesis by (simp only: assms(2) [OF False] assms(4) [OF False])
  qed
  show "fresh s' \<le> j \<longrightarrow> rd' j = []"
    using assms by (cases "j = conn") (auto simp: all_on_course_def)
qed

lemma accepted_on_course:
  "server_inv n s \<Longrightarrow> all_on_course order tree script rd s \<Longrightarrow> (\<And>conn. list_all proper_exchange (script conn)) \<Longrightarrow>
   \<exists>ended closed s'. accept_loop (Some (server_new_connection k ucbs None True)) answers s = Inr (ended, closed, s') \<and>
     all_on_course order tree script rd s'"
proof (induction answers arbitrary: s)
  case Nil
  then show ?case by auto
next
  case (Cons a answers)
  show ?case
  proof (cases a)
    case (Accepted fd peer_address)
    from new_connection_ok [OF Cons.prems(1), of k ucbs None fd peer_address] obtain s1 l where s1:
      "server_new_connection k ucbs None True fd peer_address s = Inr s1" "server_inv n s1"
      "fresh s1 = Suc (fresh s)" "alive s1 = (alive s)(fresh s \<mapsto> start_connection l fd peer_address None)" by blast
    have "rd (fresh s) = []" using Cons.prems(2) by (simp add: all_on_course_def)
    with s1(3,4) Cons.prems(3) have "all_on_course order tree script rd s1"
      by (intro all_on_course_update [OF Cons.prems(2), of "fresh s"]) (simp_all add: start_on_course)
    from Cons.IH [OF s1(2) this Cons.prems(3)] s1(1) Accepted show ?thesis by simp
  next
    case (AcceptErr e)
    with Cons.prems(2) show ?thesis by auto
  qed
qed

lemma removal_on_course:
  assumes inv: "server_inv n s" and course: "all_on_course order tree script rd s"
    and step: "run_removal s = Inr s'"
  shows "all_on_course order tree script rd s'"
proof (cases "removals (server_shared s)")
  case Nil
  with step course show ?thesis by (simp add: run_removal_def)
next
  case (Cons conn rest)
  have s': "alive s' = (alive s)(conn := map_option (post DestroyTask) (alive s conn))" "fresh s' = fresh s"
    using step by (auto simp: run_removal_def Cons bindE_eq_Inr)
  have "case map_option (post DestroyTask) (alive s conn) of None \<Rightarrow> True
      | Some c \<Rightarrow> on_course order tree (script conn) (rd conn) c"
  proof (cases "alive s conn")
    case (Some c)
    have "linked n (server_loop s) conn (server_shared s) (Some c)" using inv Some by (metis server_inv_def)
    then have "conn_state c = kDisconnected" using Cons by auto
    with all_on_courseD [OF course Some] Some show ?thesis by (auto simp: on_course_def post_def stream_def)
  qed simp
  with s' course show ?thesis
    by (intro all_on_course_update [OF course, of conn]) (simp_all add: all_on_course_def)
qed

lemma release_on_course:
  assumes course: "all_on_course order tree script rd s" and step: "release k conn s = Inr s'"
  shows "all_on_course order tree script rd s'"
proof -
  have "fresh s' = fresh s \<and> (\<forall>j. alive s' j = alive s j \<or> alive s' j = None)"
    using step by (auto simp: release_def bindE_eq_Inr split: option.splits if_splits)
  with course show ?thesis unfolding all_on_course_def by (metis option.case(1))
qed

context http_system
begin

abbreviation user :: "(http_state, http_context option) user_callbacks" where
  "user \<equiv> http_user order k files"

lemma server_step_on_course:
  assumes inv: "server_inv (server_cost http_cost ev + n) s" and base: "server_loop s = base"
    and ev: "client_event ev" and course: "all_on_course order tree script rd s"
    and proper: "\<And>conn. list_all proper_exchange (script conn)"
    and script: "\<And>conn. prefix (rd conn @ taken ev s conn) (concat (map pieces (script conn)))"
    and held: "\<And>i p. file_holds (files i p) (tree p)"
  shows "\<exists>s'. server_step k user None ev s = Inr s' \<and> server_inv n s' \<and> server_loop s' = base \<and>
    all_on_course order tree script (\<lambda>conn. rd conn @ taken ev s conn) s'"
proof -
  have "\<exists>s'. server_step k user None ev s = Inr s' \<and>
    all_on_course order tree script (\<lambda>conn. rd conn @ taken ev s conn) s'"
  proof (cases ev)
    case (Incoming answers)
    with accepted_on_course [OF inv course proper, of k user answers] show ?thesis
      by (auto simp: on_incoming_connection_def)
  next
    case RunRemoval
    from removal_ok [OF inv] obtain s' where "run_removal s = Inr s'" by blast
    with removal_on_course [OF inv course] RunRemoval show ?thesis by simp
  next
    case (Release conn)
    from release_ok [OF inv] obtain s' where "release k conn s = Inr s'" by blast
    with release_on_course [OF course] Release show ?thesis by simp
  next
    case (OnConnection conn e)
    have others: "taken ev s j = []" if "j \<noteq> conn" for j
      using that by (simp add: OnConnection taken_elsewhere)
    show ?thesis
    proof (cases "alive s conn")
      case None
      then have "taken ev s conn = []" by (simp add: OnConnection taken_elsewhere)
      then have "(\<lambda>conn. rd conn @ taken ev s conn) = rd" using others by fastforce
      moreover have "orphans s conn = []" using inv by (simp add: server_inv_def)
      ultimately show ?thesis using None course by (simp add: OnConnection)
    next
      case (Some c)
      have "linked (server_cost http_cost ev + n) base conn (server_shared s) (Some c)"
        using inv base Some by (metis server_inv_def)
      then have c: "conn_wf (event_cost http_cost e + n) c" "conn_loop c \<noteq> base"
        by (simp_all add: OnConnection)
      have room: "8 \<le> max_string_size" by (simp add: max_string_size_def)
      from connection_on_course [OF c ev [unfolded OnConnection] all_on_courseD [OF course Some] proper
          script [unfolded OnConnection] Some held room, where w = "server_shared s"]
      obtain w' c' where c': "conn_step (k conn) (cbs base conn) e (server_shared s, c) = Inr (w', c')"
        "on_course order tree (script conn) (rd conn @ taken ev s conn) c'" by (auto simp: OnConnection)
      let ?s = "s\<lparr>server_shared := w', alive := (alive s)(conn \<mapsto> c')\<rparr>"
      have "conn < fresh s" using inv Some by (metis server_inv_def linorder_not_less option.distinct(1))
      with c'(2) others have "all_on_course order tree script (\<lambda>conn. rd conn @ taken ev s conn) ?s"
        by (intro all_on_course_update [OF course, of conn]) simp_all
      moreover have "server_step k user None ev s = Inr ?s"
        using c'(1) Some base by (simp add: OnConnection)
      ultimately show ?thesis by blast
    qed
  qed
  with http.server_step_fine [OF inv base, of None] show ?thesis by (auto simp: server_step_ok_def)
qed

lemma server_run_on_course:
  "server_inv (sum_list (map (server_cost http_cost) evs) + n) s \<Longrightarrow> server_loop s = base \<Longrightarrow>
   list_all client_event evs \<Longrightarrow> all_on_course order tree script rd s \<Longrightarrow>
   (\<And>conn. list_all proper_exchange (script conn)) \<Longrightarrow>
   (\<And>conn. prefix (rd conn @ read_by k user None evs s conn) (concat (map pieces (script conn)))) \<Longrightarrow>
   (\<And>i p. file_holds (files i p) (tree p)) \<Longrightarrow>
   \<exists>s'. foldE (server_step k user None) evs s = Inr s' \<and>
     all_on_course order tree script (\<lambda>conn. rd conn @ read_by k user None evs s conn) s'"
proof (induction evs arbitrary: s rd)
  case Nil
  then show ?case by simp
next
  case (Cons ev evs)
  let ?rest = "sum_list (map (server_cost http_cost) evs) + n"
  have inv: "server_inv (server_cost http_cost ev + ?rest) s" using Cons.prems(1) by (simp add: add.assoc)
  have ev: "client_event ev" "list_all client_event evs" using Cons.prems(3) by simp_all
  have "prefix (rd conn @ taken ev s conn) (concat (map pieces (script conn)))" for conn
    using Cons.prems(6) [of conn] by (auto dest: append_prefixD simp flip: append_assoc)
  from server_step_on_course [OF inv Cons.prems(2) ev(1) Cons.prems(4,5) this Cons.prems(7)] obtain s1 where s1:
    "server_step k user None ev s = Inr s1" "server_inv ?rest s1" "server_loop s1 = base"
    "all_on_course order tree script (\<lambda>conn. rd conn @ taken ev s conn) s1" by blast
  have "prefix ((rd conn @ taken ev s conn) @ read_by k user None evs s1 conn) (concat (map pieces (script conn)))" for conn
    using Cons.prems(6) [of conn] s1(1) by simp
  from Cons.IH [OF s1(2,3) ev(2) s1(4) Cons.prems(5) this Cons.prems(7)] s1(1) show ?case
    by (auto simp del: server_step.simps)
qed

end

section \<open>Properties\<close>

text \<open>The whole HTTP server, from its start, serves all its clients. Any number of connections
  comes in, each client sends requests in pieces of its own choosing (not cut exactly behind a
  request line), and reads, writes, ends of streams, read errors (with any masks that the kernel
  reports) and the tasks of all loops take their turns in any order: the process never ends, and at every moment what the server has sent
  and will send to a client are exactly the answers to the requests it has completely read from this client, in
  their order, one for each, with status 200 and the bytes of the file it names; no answer is lost, doubled or sent to another
  client.\<close>

theorem every_client_served:
  assumes "\<And>conn. kernel_ok (k conn)" and "some_order order" and "small_files files"
    and "\<And>i p. file_holds (files i p) (tree p)"
    and "http_server_ctor base fd bind_ok address = Inr s0" and "base \<notin> range new_loop"
    and "http_server_start new_loop ctl_ok True s0 = Inr s"
    and "list_all client_event evs" and "\<And>conn. list_all proper_exchange (script conn)"
    and "\<And>conn. prefix (read_by k (http_user order k files) None evs s conn) (concat (map pieces (script conn)))"
    and "sum_list (map (server_cost http_cost) evs) + 8 \<le> max_string_size"
  shows "\<exists>s'. foldE (server_step k (http_user order k files) None) evs s = Inr s' \<and>
    (\<forall>conn c. alive s' conn = Some c \<longrightarrow> conn_state c \<noteq> kDisconnecting \<and>
       (\<exists>xs ys ds. at_point (script conn) (read_by k (http_user order k files) None evs s conn) xs ys ds \<and>
          answers_in order tree xs (stream c)))"
proof -
  have sys: "http_system order k files" using assms(1-3) by unfold_locales
  have "sum_list (map (server_cost http_cost) evs) + 0 + 8 \<le> max_string_size" using assms(11) by simp
  note start = started_inv [OF assms(5) [unfolded http_server_ctor_def] this assms(6)
      assms(7) [unfolded http_server_start_def]]
  have "alive s = Map.empty"
    using assms(5,7) by (auto simp: http_server_ctor_def http_server_start_def server_ctor_def server_start_def
        start_task_def bindE_eq_Inr)
  then have "all_on_course order tree script (\<lambda>_. []) s" by (simp add: all_on_course_def)
  from http_system.server_run_on_course [OF sys start assms(8) this assms(9) _ assms(4)] assms(10)
  obtain s' where s': "foldE (server_step k (http_user order k files) None) evs s = Inr s'"
    "all_on_course order tree script (\<lambda>conn. read_by k (http_user order k files) None evs s conn) s'"
    by auto
  have "conn_state c \<noteq> kDisconnecting \<and>
      (\<exists>xs ys ds. at_point (script conn) (read_by k (http_user order k files) None evs s conn) xs ys ds \<and>
          answers_in order tree xs (stream c))" if "alive s' conn = Some c" for conn c
    using all_on_courseD [OF s'(2) that] by (auto simp: on_course_def)
  with s'(1) show ?thesis by blast
qed

text \<open>Two clients whose events interleave; the second one hangs up.\<close>

definition two_clients :: "bytes \<Rightarrow> server_event list" where
  "two_clients t =
     [Incoming [Accepted 7 zero_sockaddr, Accepted 8 zero_sockaddr, AcceptErr 11],
      OnConnection 1 RunPosted, OnConnection 0 RunPosted,
      OnConnection 1 (Dispatch EPOLLIN (ReadOk t)), OnConnection 0 (Dispatch EPOLLIN (ReadOk t)),
      OnConnection 0 (Dispatch EPOLLOUT (ReadOk [])), OnConnection 1 (Dispatch EPOLLIN (ReadOk [])),
      RunRemoval, OnConnection 1 RunPosted, Release 1]"

fun offered :: "nat \<Rightarrow> server_event \<Rightarrow> bytes list" where
  "offered j (OnConnection conn (Dispatch e (ReadOk d))) = (if j = conn \<and> may_read e \<and> d \<noteq> [] then [d] else [])"
| "offered j _ = []"

lemma read_by_offered: "subseq (read_by k ucbs x0 evs s j) (concat (map (offered j) evs))"
proof (induction evs arbitrary: s)
  case Nil
  then show ?case by simp
next
  case (Cons ev evs)
  have "subseq (taken ev s j) (offered j ev)" by (cases "(ev, s, j)" rule: taken.cases) auto
  then show ?case
    using Cons.IH by (auto intro: list_emb_append_mono list_emb_append2 split: sum.split)
qed

lemma subseq_single: "subseq ys [t] \<Longrightarrow> prefix ys [t]"
  by (cases ys) (auto split: if_splits)

lemma two_clients_read: "prefix (read_by k ucbs x0 (two_clients t) s conn) [t]"
proof (rule subseq_single)
  have "subseq (concat (map (offered conn) (two_clients t))) [t]"
    by (simp add: two_clients_def epoll_constants)
  with read_by_offered show "subseq (read_by k ucbs x0 (two_clients t) s conn) [t]"
    by (rule subseq_order.trans)
qed

theorem every_client_served_witness:
  "\<exists>s0 s s'. http_server_ctor 0 3 True zero_sockaddr = Inr s0 \<and> http_server_start Suc True True s0 = Inr s \<and>
    (let user = http_user rev (\<lambda>_. slow_kernel) (\<lambda>_ _. small_file ''hello'');
         evs = two_clients (concat (pieces (sample_exchanges ! 1)))
     in foldE (server_step (\<lambda>_. slow_kernel) user None) evs s = Inr s' \<and>
       (\<forall>conn c. alive s' conn = Some c \<longrightarrow> conn_state c \<noteq> kDisconnecting \<and>
         (\<exists>xs ys ds. at_point [sample_exchanges ! 1] (read_by (\<lambda>_. slow_kernel) user None evs s conn) xs ys ds \<and>
          answers_in rev (\<lambda>_. ''hello'') xs (stream c))))"
proof -
  let ?user = "http_user rev (\<lambda>_. slow_kernel) (\<lambda>_ _. small_file ''hello'')"
  let ?t = "concat (pieces (sample_exchanges ! 1))"
  obtain s0 :: "(http_state, http_context option) server"
    where s0: "http_server_ctor 0 3 True zero_sockaddr = Inr s0"
    by (simp add: http_server_ctor_def server_ctor_def pool_ctor_def kNumThreads_def)
  from start_succeeds [OF s0 [unfolded http_server_ctor_def], of Suc] obtain s where
    s: "http_server_start Suc True True s0 = Inr s" by (auto simp: http_server_start_def)
  have k: "kernel_ok slow_kernel" by (rule slow_kernel_ok)
  have order: "some_order rev" by (simp add: some_order_def)
  have small: "small_files (\<lambda>_ _. small_file ''hello'')"
    by (simp add: small_files_def small_file_def total_bytes_def)
  have held: "file_holds (small_file ''hello'') ''hello''" by (rule file_holds_small) simp
  have proper: "list_all proper_exchange [sample_exchanges ! 1]"
    using sample_exchanges(1,4) by (simp add: list_all_length)
  have "pieces (sample_exchanges ! 1) = [?t]" by (simp add: sample_exchanges_def pieces_def Let_def)
  then have script: "prefix (read_by (\<lambda>_. slow_kernel) ?user None (two_clients ?t) s conn)
      (concat (map pieces [sample_exchanges ! 1]))" for conn
    using two_clients_read [of _ _ _ ?t s conn] by (simp only: concat.simps list.map append_Nil2)
  have events: "list_all client_event (two_clients ?t)" by (simp add: two_clients_def)
  have cost: "sum_list (map (server_cost http_cost) (two_clients ?t)) + 8 \<le> max_string_size"
    using sample_exchanges(3) by (simp add: two_clients_def http_cost_def max_string_size_def)
  from every_client_served [where tree = "\<lambda>_. ''hello''", OF k order small held s0 _ s events proper script cost] s0 s
  show ?thesis by (auto simp: Let_def image_constant_conv)
qed

end
