(* ===== verification/Timer_Queue.thy ===== *)
theory Timer_Queue
  imports Epoller "HOL-Library.Signed_Division"
begin

text \<open>
  Timers: \<open>wuduo/timer.h\<close>, \<open>wuduo/timer_queue.h\<close> and \<open>wuduo/timer_queue.cpp\<close>. Points in
  time and durations are counts of nanoseconds, as \<open>std::chrono::system_clock\<close> of
  libstdc++ has them. A timer object is known by its address. The clock is read where the
  code reads it and the value is an argument; what the program passes to
  \<open>timerfd_settime\<close> is recorded in the state, with the reading of the clock it was computed
  from. The counts are unbounded integers; in the code they have 64 bits, which the difference of a
  deadline and the time overflows only when the two are 292 years apart.
\<close>

section \<open>Timers\<close>

record 's timer =
  callback :: "('s \<Rightarrow> 's result) option"
  expires_at :: int
  interval :: int
  repeat :: bool

definition new_timer :: "('s \<Rightarrow> 's result) option \<Rightarrow> int \<Rightarrow> int \<Rightarrow> 's timer" where
  "new_timer cb when ival =
     \<lparr>callback = cb, expires_at = when, interval = ival, repeat = (ival \<noteq> 0)\<rparr>"

definition timer_run :: "'s timer \<Rightarrow> 's \<Rightarrow> 's result" where
  "timer_run t s = call_if_set (callback t) s"

definition is_expired :: "int \<Rightarrow> 's timer \<Rightarrow> bool" where
  "is_expired now t \<longleftrightarrow> now \<ge> expires_at t"

definition ns_per_second :: int where
  "ns_per_second = 1000000000"

definition as_seconds :: "int \<Rightarrow> int" where
  "as_seconds ns = ns sdiv ns_per_second"

definition as_nanoseconds :: "int \<Rightarrow> int" where
  "as_nanoseconds ns = ns"

definition microseconds :: "int \<Rightarrow> int" where
  "microseconds us = us * 1000"

section \<open>Entries and their order\<close>

text \<open>\<open>entry_comparator\<close> orders by deadline and then by address.\<close>

datatype entry = Entry (deadline: int) (address: nat)

definition entry_comparator :: "entry \<Rightarrow> entry \<Rightarrow> bool" where
  "entry_comparator a b \<longleftrightarrow> deadline a < deadline b \<or> deadline a = deadline b \<and> address a < address b"

instantiation entry :: linorder
begin

definition less_entry :: "entry \<Rightarrow> entry \<Rightarrow> bool" where
  "less_entry a b \<longleftrightarrow> entry_comparator a b"

definition less_eq_entry :: "entry \<Rightarrow> entry \<Rightarrow> bool" where
  "less_eq_entry a b \<longleftrightarrow> deadline a < deadline b \<or> deadline a = deadline b \<and> address a \<le> address b"

instance
  by intro_classes (auto simp: less_entry_def entry_comparator_def less_eq_entry_def intro: entry.expand)

end

lemmas entry_less_def = less_entry_def entry_comparator_def

text \<open>\<open>std::set\<close> as the list of its elements in order.\<close>

fun emplace :: "'a::linorder \<Rightarrow> 'a list \<Rightarrow> 'a list" where
  "emplace x [] = [x]"
| "emplace x (y # ys) = (if x < y then x # y # ys else if x = y then y # ys else y # emplace x ys)"

definition uintptr_max :: nat where
  "uintptr_max = 2 ^ 64 - 1"

section \<open>The queue\<close>

text \<open>A call of \<open>timerfd_settime\<close>: the clock reading behind it and \<open>it_value\<close>.\<close>

record settime =
  set_at :: int
  tv_sec :: int
  tv_nsec :: int

record timer_queue =
  timerfd :: int
  timer_channel :: channel
  timers :: "entry list"
  settime_calls :: "settime list"

definition timer_queue_ctor :: "nat \<Rightarrow> bool \<Rightarrow> bool \<Rightarrow> int \<Rightarrow> timer_queue result" where
  "timer_queue_ctor loop in_loop ok fd =
     (if fd = -1 then Inl RuntimeError
      else bindE (enable_reading in_loop ok (new_channel loop fd)) (\<lambda>ch.
           Inr \<lparr>timerfd = fd, timer_channel = ch, timers = [], settime_calls = []\<rparr>))"

text \<open>The destructor closes the descriptor; then the members go, the channel among them.\<close>

definition timer_queue_dtor :: "bool \<Rightarrow> bool \<Rightarrow> timer_queue \<Rightarrow> unit result" where
  "timer_queue_dtor in_loop ok q = channel_dtor in_loop ok (timer_channel q)"

definition reset_alarm :: "int \<Rightarrow> int \<Rightarrow> timer_queue \<Rightarrow> timer_queue" where
  "reset_alarm now near_future q =
     (let delta = near_future - now in
      q\<lparr>settime_calls :=
          \<lparr>set_at = now, tv_sec = as_seconds delta,
           tv_nsec = as_nanoseconds delta smod as_nanoseconds ns_per_second\<rparr>
          # settime_calls q\<rparr>)"

text \<open>The task that \<open>add_timer\<close> hands to \<open>run_in_loop\<close>.\<close>

definition insert_timer :: "int \<Rightarrow> int \<Rightarrow> nat \<Rightarrow> timer_queue \<Rightarrow> timer_queue" where
  "insert_timer now when timer q =
     (let q1 = (if timers q = [] \<or> when < deadline (hd (timers q))
                then reset_alarm now when q else q)
      in q1\<lparr>timers := emplace (Entry when timer) (timers q1)\<rparr>)"

definition get_expired :: "int \<Rightarrow> timer_queue \<Rightarrow> entry list \<times> timer_queue" where
  "get_expired now q =
     (let before = (\<lambda>e. e < Entry now uintptr_max) in
      (takeWhile before (timers q), q\<lparr>timers := dropWhile before (timers q)\<rparr>))"

text \<open>
  \<open>run\<close> is what running the timer at an address does to the queue and the rest of the
  program (a callback may add timers); the two clock readings are those of \<open>get_expired\<close>
  and of \<open>reset_alarm\<close>. A short read from the descriptor is only reported.
\<close>

definition timer_handle_read ::
    "bool \<Rightarrow> int \<Rightarrow> int \<Rightarrow> (nat \<Rightarrow> timer_queue \<times> 's \<Rightarrow> (timer_queue \<times> 's) result)
      \<Rightarrow> timer_queue \<times> 's \<Rightarrow> (timer_queue \<times> 's) result" where
  "timer_handle_read in_loop now1 now2 run st =
     bindE (assertE in_loop) (\<lambda>_.
     let expired = get_expired now1 (fst st) in
     bindE (foldE run (map address (fst expired)) (snd expired, snd st)) (\<lambda>st'.
     let q = fst st' in
     Inr (if timers q \<noteq> [] then reset_alarm now2 (deadline (hd (timers q))) q else q, snd st')))"

section \<open>Lemmas\<close>

definition wf_entries :: "entry list \<Rightarrow> bool" where
  "wf_entries es \<longleftrightarrow> sorted_wrt (<) es \<and> (\<forall>e \<in> set es. address e < uintptr_max)"

text \<open>The last alarm set aims at the first deadline.\<close>

definition aims_at :: "settime \<Rightarrow> int \<Rightarrow> bool" where
  "aims_at c t \<longleftrightarrow> set_at c + tv_sec c * ns_per_second + tv_nsec c = t"

definition alarm_for_head :: "timer_queue \<Rightarrow> bool" where
  "alarm_for_head q \<longleftrightarrow>
     (timers q \<noteq> [] \<longrightarrow>
        settime_calls q \<noteq> [] \<and> aims_at (hd (settime_calls q)) (deadline (hd (timers q))))"

definition wf_timer_queue :: "timer_queue \<Rightarrow> bool" where
  "wf_timer_queue q \<longleftrightarrow> wf_entries (timers q) \<and> alarm_for_head q"

text \<open>What the manual page of \<open>timerfd_settime\<close> calls a valid value that arms the timer.\<close>

definition arms :: "settime \<Rightarrow> bool" where
  "arms c \<longleftrightarrow> 0 \<le> tv_sec c \<and> 0 \<le> tv_nsec c \<and> tv_nsec c < ns_per_second
     \<and> (tv_sec c, tv_nsec c) \<noteq> (0, 0)"

lemma set_emplace [simp]: "set (emplace x xs) = insert x (set xs)"
  by (induction xs) auto

lemma sorted_emplace: "sorted_wrt (<) xs \<Longrightarrow> sorted_wrt (<) (emplace x xs)"
  by (induction xs) (auto dest: less_trans)

lemma emplace_nonempty [simp]: "emplace x xs \<noteq> []"
  by (cases xs) auto

lemma hd_emplace: "hd (emplace x xs) = (if xs = [] \<or> x < hd xs then x else hd xs)"
  by (cases xs) auto

lemma sorted_takeWhile_filter:
  "sorted_wrt (<) xs \<Longrightarrow> takeWhile (\<lambda>e. e < b) xs = filter (\<lambda>e. e < (b :: 'a :: linorder)) xs
     \<and> dropWhile (\<lambda>e. e < b) xs = filter (\<lambda>e. \<not> e < b) xs"
proof (induction xs)
  case Nil
  then show ?case by simp
next
  case (Cons x xs)
  show ?case
  proof (cases "x < b")
    case True
    with Cons show ?thesis by simp
  next
    case False
    with Cons.prems have "\<forall>y \<in> set xs. \<not> y < b" by auto
    with False show ?thesis by (simp add: filter_id_conv filter_empty_conv)
  qed
qed

lemma before_now_iff:
  "address e < uintptr_max \<Longrightarrow> e < Entry now uintptr_max \<longleftrightarrow> deadline e \<le> now"
  by (auto simp: entry_less_def)

lemma get_expired_filter:
  assumes "wf_entries (timers q)"
  shows "get_expired now q =
     (filter (\<lambda>e. deadline e \<le> now) (timers q),
      q\<lparr>timers := filter (\<lambda>e. now < deadline e) (timers q)\<rparr>)"
proof -
  have "filter (\<lambda>e. e < Entry now uintptr_max) (timers q) = filter (\<lambda>e. deadline e \<le> now) (timers q)"
    "filter (\<lambda>e. \<not> e < Entry now uintptr_max) (timers q) = filter (\<lambda>e. now < deadline e) (timers q)"
    using assms by (auto intro!: filter_cong simp: wf_entries_def before_now_iff)
  then show ?thesis
    using assms sorted_takeWhile_filter [of "timers q" "Entry now uintptr_max"]
    by (simp add: get_expired_def wf_entries_def)
qed

lemma reset_alarm_aims: "aims_at (hd (settime_calls (reset_alarm now t q))) t"
proof -
  have "(t - now) sdiv ns_per_second * ns_per_second + (t - now) smod ns_per_second = t - now"
    by (rule sdiv_mult_smod_eq)
  then show ?thesis
    by (simp add: reset_alarm_def Let_def aims_at_def as_seconds_def as_nanoseconds_def)
qed

lemma reset_alarm_simps [simp]:
  "timers (reset_alarm now t q) = timers q"
  "settime_calls (reset_alarm now t q) \<noteq> []"
  by (simp_all add: reset_alarm_def Let_def)

lemma insert_timer_wf_entries:
  "wf_entries (timers q) \<Longrightarrow> a < uintptr_max \<Longrightarrow>
   wf_entries (timers (insert_timer now when a q))"
  by (simp add: insert_timer_def Let_def wf_entries_def sorted_emplace)

lemma insert_timer_spec:
  assumes wf: "wf_timer_queue q" and a: "a < uintptr_max"
  shows "wf_timer_queue (insert_timer now when a q)"
    and "set (timers (insert_timer now when a q)) = insert (Entry when a) (set (timers q))"
proof -
  let ?q' = "insert_timer now when a q"
  have ts: "timers ?q' = emplace (Entry when a) (timers q)"
    by (simp add: insert_timer_def Let_def)
  show "set (timers ?q') = insert (Entry when a) (set (timers q))"
    by (simp add: ts)
  have "wf_entries (timers ?q')"
    using wf a by (simp add: insert_timer_wf_entries wf_timer_queue_def)
  moreover have "alarm_for_head ?q'"
  proof (cases "timers q = [] \<or> when < deadline (hd (timers q))")
    case True
    then have "hd (timers ?q') = Entry when a"
      by (auto simp: ts hd_emplace entry_less_def)
    moreover have "settime_calls ?q' = settime_calls (reset_alarm now when q)"
      using True by (simp add: insert_timer_def Let_def)
    ultimately show ?thesis
      using reset_alarm_aims [of now "when" q] by (simp add: alarm_for_head_def)
  next
    case False
    then have "deadline (hd (timers ?q')) = deadline (hd (timers q))"
      by (auto simp: ts hd_emplace entry_less_def)
    then show ?thesis
      using False wf
      by (auto simp: wf_timer_queue_def alarm_for_head_def insert_timer_def Let_def)
  qed
  ultimately show "wf_timer_queue ?q'" by (simp add: wf_timer_queue_def)
qed

lemma get_expired_wf_entries:
  "wf_entries (timers q) \<Longrightarrow> wf_entries (timers (snd (get_expired now q)))"
  by (simp add: get_expired_filter wf_entries_def sorted_wrt_filter)

lemma timer_handle_read_spec:
  assumes wf: "wf_entries (timers q)"
    and run: "\<And>a q s q' s'. wf_entries (timers q) \<Longrightarrow> run a (q, s) = Inr (q', s') \<Longrightarrow>
                wf_entries (timers q')"
    and ok: "timer_handle_read True now1 now2 run (q, s) = Inr (q', s')"
  shows "wf_timer_queue q'"
proof -
  have fold: "wf_entries (timers (fst st)) \<Longrightarrow> foldE run as st = Inr st' \<Longrightarrow>
      wf_entries (timers (fst st'))" for as st st'
  proof (induction as arbitrary: st)
    case Nil
    then show ?case by simp
  next
    case (Cons a as)
    from Cons.prems(2) obtain st1 where st1: "run a st = Inr st1" "foldE run as st1 = Inr st'"
      by (auto elim: bindE_InrE)
    then have "wf_entries (timers (fst st1))"
      using run [of "fst st" a "snd st" "fst st1" "snd st1"] Cons.prems(1) by simp
    then show ?case using st1(2) by (rule Cons.IH)
  qed
  obtain st' where st': "foldE run (map address (fst (get_expired now1 q)))
      (snd (get_expired now1 q), s) = Inr st'"
    and q': "q' = (if timers (fst st') \<noteq> []
                   then reset_alarm now2 (deadline (hd (timers (fst st')))) (fst st') else fst st')"
    using ok by (auto simp: timer_handle_read_def Let_def elim!: bindE_InrE)
  have "wf_entries (timers (fst st'))"
    using fold [OF _ st'] get_expired_wf_entries [OF wf] by simp
  then show ?thesis
    using reset_alarm_aims by (auto simp: q' wf_timer_queue_def alarm_for_head_def)
qed

section \<open>Properties\<close>

text \<open>What the loop thread does to the queue: adding a timer, and handling the descriptor's
  expiry, where the callback of the timer at an address adds further timers.\<close>

datatype timer_event =
    TimerAdded int int nat
  | AlarmFired int int "nat \<Rightarrow> (int \<times> int \<times> nat) list"

definition add_all :: "(int \<times> int \<times> nat) list \<Rightarrow> timer_queue \<Rightarrow> timer_queue" where
  "add_all reqs q = foldl (\<lambda>q (now, when, a). insert_timer now when a q) q reqs"

fun timer_step :: "timer_event \<Rightarrow> timer_queue \<Rightarrow> timer_queue result" where
  "timer_step (TimerAdded now when a) q = Inr (insert_timer now when a q)"
| "timer_step (AlarmFired now1 now2 adds) q =
     bindE (timer_handle_read True now1 now2 (\<lambda>a (q, u). Inr (add_all (adds a) q, u)) (q, ()))
       (\<lambda>(q', _). Inr q')"

fun real_addresses :: "timer_event \<Rightarrow> bool" where
  "real_addresses (TimerAdded now when a) \<longleftrightarrow> a < uintptr_max"
| "real_addresses (AlarmFired now1 now2 adds) \<longleftrightarrow>
     (\<forall>a. \<forall>(now, when, a') \<in> set (adds a). a' < uintptr_max)"

lemma add_all_wf_entries:
  "wf_entries (timers q) \<Longrightarrow> (\<forall>(now, when, a) \<in> set reqs. a < uintptr_max) \<Longrightarrow>
   wf_entries (timers (add_all reqs q))"
  by (induction reqs arbitrary: q) (auto simp: add_all_def insert_timer_wf_entries)

lemma timer_step_wf:
  assumes "wf_timer_queue q" "real_addresses ev" "timer_step ev q = Inr q'"
  shows "wf_timer_queue q'"
proof (cases ev)
  case (TimerAdded now w a)
  with assms insert_timer_spec(1) show ?thesis by auto
next
  case (AlarmFired now1 now2 adds)
  with assms(3) obtain u where
    r: "timer_handle_read True now1 now2 (\<lambda>a (q, u). Inr (add_all (adds a) q, u)) (q, ()) = Inr (q', u)"
    by (auto elim!: bindE_InrE)
  have entries: "wf_entries (timers q)" using assms(1) by (simp add: wf_timer_queue_def)
  show ?thesis
  proof (rule timer_handle_read_spec [OF entries _ r])
    fix a qa qb and s s' :: unit
    assume wf: "wf_entries (timers qa)"
      and "(case (qa, s) of (q, u) \<Rightarrow> Inr (add_all (adds a) q, u)) = (Inr (qb, s') :: (timer_queue \<times> unit) result)"
    then have qb: "qb = add_all (adds a) qa" by simp
    have "\<forall>(now, when, a) \<in> set (adds a). a < uintptr_max"
      using assms(2) AlarmFired by auto
    with wf show "wf_entries (timers qb)"
      unfolding qb by (rule add_all_wf_entries)
  qed
qed

lemma timer_step_total: "\<exists>q'. timer_step ev q = Inr q'"
proof (cases ev)
  case (AlarmFired now1 now2 adds)
  have "\<exists>st'. foldE (\<lambda>a (q, u). Inr (add_all (adds a) q, u)) as st = Inr st'"
    for as and st :: "timer_queue \<times> unit"
    by (rule foldE_total) (simp split: prod.split)
  then obtain st' where "foldE (\<lambda>a (q, u). Inr (add_all (adds a) q, u))
      (map address (fst (get_expired now1 q))) (snd (get_expired now1 q), ()) = Inr st'"
    by blast
  then show ?thesis
    by (cases st') (simp add: AlarmFired timer_handle_read_def Let_def)
qed simp

text \<open>C21: Whatever timers are added, from outside and by callbacks, and whenever the
  descriptor fires, the queue stays in strict order of deadline and address, and the last
  value given to \<open>timerfd_settime\<close> aims exactly at the first deadline. Points in time are unbounded
  numbers, where the code has 64 bits of nanoseconds.\<close>

theorem timer_queue_invariant:
  assumes "timer_queue_ctor l True ok fd = Inr q0" and "\<forall>ev \<in> set evs. real_addresses ev"
    and "foldE timer_step evs q0 = Inr q"
  shows "sorted_wrt (<) (timers q) \<and>
         (timers q \<noteq> [] \<longrightarrow> settime_calls q \<noteq> [] \<and>
            aims_at (hd (settime_calls q)) (deadline (hd (timers q))))"
proof -
  have run: "wf_timer_queue q1 \<Longrightarrow> foldE timer_step evs q1 = Inr q \<Longrightarrow>
      \<forall>ev \<in> set evs. real_addresses ev \<Longrightarrow> wf_timer_queue q" for q1
    by (induction evs arbitrary: q1) (auto elim!: bindE_InrE dest: timer_step_wf)
  have "timers q0 = []" using assms(1)
    by (auto simp: timer_queue_ctor_def split: if_splits elim!: bindE_InrE)
  then have "wf_timer_queue q0"
    by (simp add: wf_timer_queue_def wf_entries_def alarm_for_head_def)
  from run [OF this assms(3,2)] show ?thesis
    by (simp add: wf_timer_queue_def wf_entries_def alarm_for_head_def)
qed

theorem timer_queue_invariant_witness:
  "\<exists>q0 q. timer_queue_ctor 0 True True 6 = Inr q0 \<and>
     foldE timer_step [TimerAdded 0 50 7, TimerAdded 1 20 8, AlarmFired 21 22 (\<lambda>_. [(21, 40, 9)])] q0
       = Inr q \<and>
     sorted_wrt (<) (timers q) \<and>
     (timers q \<noteq> [] \<longrightarrow> settime_calls q \<noteq> [] \<and>
        aims_at (hd (settime_calls q)) (deadline (hd (timers q))))"
proof -
  let ?evs = "[TimerAdded 0 50 7, TimerAdded 1 20 8, AlarmFired 21 22 (\<lambda>_. [(21, 40, 9)])]"
  obtain q0 where q0: "timer_queue_ctor 0 True True 6 = Inr q0"
    by (simp add: timer_queue_ctor_def enable_reading_eq)
  have "\<exists>q. foldE timer_step ?evs q0 = Inr q"
    by (rule foldE_total) (rule timer_step_total)
  then obtain q where q: "foldE timer_step ?evs q0 = Inr q" ..
  have "\<forall>ev \<in> set ?evs. real_addresses ev" by (simp add: uintptr_max_def)
  from timer_queue_invariant [OF q0 this q] q0 q show ?thesis by blast
qed

lemma sorted_deadlines: "sorted_wrt (<) es \<Longrightarrow> sorted (map deadline es)"
  by (induction es) (auto simp: entry_less_def)

lemma foldE_log: "foldE (\<lambda>a (q, l). Inr (q, l @ [a])) as (q, l) = Inr (q, l @ as)"
  by (induction as arbitrary: l) simp_all

text \<open>When the descriptor fires, the timers whose deadline has come are run, each once,
  in the order of their deadlines; they leave the queue, the later ones stay.\<close>

theorem expired_timers_run_once:
  assumes "wf_timer_queue q"
  shows "\<exists>q'. timer_handle_read True now1 now2 (\<lambda>a (q, l). Inr (q, l @ [a])) (q, log)
           = Inr (q', log @ map address (filter (\<lambda>e. deadline e \<le> now1) (timers q)))
         \<and> timers q' = filter (\<lambda>e. now1 < deadline e) (timers q)
         \<and> sorted (map deadline (filter (\<lambda>e. deadline e \<le> now1) (timers q)))"
proof -
  have wf: "wf_entries (timers q)" using assms by (simp add: wf_timer_queue_def)
  then have "sorted (map deadline (filter (\<lambda>e. deadline e \<le> now1) (timers q)))"
    by (simp add: wf_entries_def sorted_deadlines sorted_wrt_filter)
  then show ?thesis
    by (simp add: timer_handle_read_def get_expired_filter [OF wf] foldE_log Let_def)
qed

theorem expired_timers_run_once_witness:
  "\<exists>q'. timer_handle_read True 60 61 (\<lambda>a (q, l). Inr (q, l @ [a]))
          (insert_timer 0 50 7 (insert_timer 0 90 8
             \<lparr>timerfd = 3, timer_channel = new_channel 0 3, timers = [], settime_calls = []\<rparr>), [])
        = Inr (q', [] @ map address (filter (\<lambda>e. deadline e \<le> 60) [Entry 50 7, Entry 90 8]))
      \<and> timers q' = filter (\<lambda>e. 60 < deadline e) [Entry 50 7, Entry 90 8]
      \<and> sorted (map deadline (filter (\<lambda>e. deadline e \<le> 60) [Entry 50 7, Entry 90 8]))"
proof -
  let ?empty = "\<lparr>timerfd = 3, timer_channel = new_channel 0 3, timers = [], settime_calls = []\<rparr>"
  let ?q = "insert_timer 0 50 7 (insert_timer 0 90 8 ?empty)"
  have "wf_timer_queue ?empty"
    by (simp add: wf_timer_queue_def wf_entries_def alarm_for_head_def)
  then have wf: "wf_timer_queue ?q"
    by (auto intro!: insert_timer_spec(1) simp: uintptr_max_def)
  have ts: "timers ?q = [Entry 50 7, Entry 90 8]"
    by (simp add: insert_timer_def Let_def entry_less_def)
  show ?thesis
    using expired_timers_run_once [OF wf, of 60 61 "[]"] unfolding ts .
qed

lemma positive_split:
  fixes d :: int
  assumes "0 < d"
  shows "0 \<le> d sdiv ns_per_second" "0 \<le> d smod ns_per_second"
    "d smod ns_per_second < ns_per_second"
  using assms by (simp_all add: signed_divide_int_eq_divide_int signed_modulo_int_eq_modulo_int
      ns_per_second_def signed_divide_int_def signed_modulo_int_def)

lemma reset_alarm_arms:
  "arms (hd (settime_calls (reset_alarm now t q))) \<longleftrightarrow> now < t"
proof -
  let ?c = "hd (settime_calls (reset_alarm now t q))"
  have aims: "aims_at ?c t" by (rule reset_alarm_aims)
  have fields: "tv_sec ?c = (t - now) sdiv ns_per_second"
    "tv_nsec ?c = (t - now) smod ns_per_second" "set_at ?c = now"
    by (simp_all add: reset_alarm_def Let_def as_seconds_def as_nanoseconds_def)
  have sum: "tv_sec ?c * ns_per_second + tv_nsec ?c = t - now"
    using aims fields(3) by (simp add: aims_at_def)
  have pos: "(0 :: int) < ns_per_second" by (simp add: ns_per_second_def)
  have "now < t" if a: "arms ?c"
  proof -
    have "0 < tv_sec ?c * ns_per_second + tv_nsec ?c"
    proof (cases "tv_sec ?c = 0")
      case True
      with a show ?thesis by (simp add: arms_def)
    next
      case False
      with a pos have "0 < tv_sec ?c * ns_per_second" by (simp add: arms_def)
      with a show ?thesis by (simp add: arms_def)
    qed
    with sum show ?thesis by simp
  qed
  moreover have "arms ?c" if "now < t"
    using that sum positive_split [of "t - now"] fields
    by (auto simp: arms_def)
  ultimately show ?thesis by blast
qed

text \<open>The value \<open>reset_alarm\<close> gives to \<open>timerfd_settime\<close> always amounts to the distance
  from the clock reading to the deadline, and it is a value that arms the descriptor exactly
  when the deadline lies in the future: for a deadline that has passed (or is reached at this
  very reading) the call disarms it or is refused.\<close>

theorem reset_alarm_arms_iff:
  "aims_at (hd (settime_calls (reset_alarm now t q))) t \<and>
   (arms (hd (settime_calls (reset_alarm now t q))) \<longleftrightarrow> now < t)"
  by (simp add: reset_alarm_aims reset_alarm_arms)

text \<open>C38: A timer for a time already past (by the clock reading of \<open>reset_alarm\<close>) that enters
  an empty queue leaves the descriptor unarmed, and no timer added behind it sets it again:
  none of them ever fires.\<close>

theorem past_timer_stalls_queue:
  assumes "timers q = []" and "when0 \<le> now"
    and "\<forall>(n, w, a) \<in> set later. when0 \<le> w"
  shows "let q' = add_all later (insert_timer now when0 a0 q) in
         settime_calls q' = hd (settime_calls q') # settime_calls q \<and>
         \<not> arms (hd (settime_calls q')) \<and>
         (\<forall>(n, w, a) \<in> set later. Entry w a \<in> set (timers q'))"
proof -
  let ?q1 = "insert_timer now when0 a0 q"
  have first: "timers ?q1 = [Entry when0 a0]"
    "settime_calls ?q1 = settime_calls (reset_alarm now when0 q)"
    using assms(1) by (simp_all add: insert_timer_def)
  have behind: "timers q2 \<noteq> [] \<Longrightarrow> deadline (hd (timers q2)) = when0 \<Longrightarrow>
      \<forall>(n, w, a) \<in> set reqs. when0 \<le> w \<Longrightarrow>
      settime_calls (add_all reqs q2) = settime_calls q2 \<and>
      set (timers (add_all reqs q2)) = set (timers q2) \<union> {Entry w a | n w a. (n, w, a) \<in> set reqs}"
    for reqs q2
  proof (induction reqs arbitrary: q2)
    case Nil
    then show ?case by (simp add: add_all_def)
  next
    case (Cons r reqs)
    obtain n w a where r: "r = (n, w, a)" by (cases r) auto
    let ?q3 = "insert_timer n w a q2"
    from Cons.prems r have q3: "timers ?q3 = emplace (Entry w a) (timers q2)"
      "settime_calls ?q3 = settime_calls q2"
      by (auto simp: insert_timer_def)
    have "deadline (hd (timers ?q3)) = when0"
      using Cons.prems r by (auto simp: q3 hd_emplace entry_less_def)
    moreover have "timers ?q3 \<noteq> []" by (simp add: q3)
    ultimately have "settime_calls (add_all reqs ?q3) = settime_calls ?q3 \<and>
      set (timers (add_all reqs ?q3)) = set (timers ?q3) \<union> {Entry w a | n w a. (n, w, a) \<in> set reqs}"
      using Cons by auto
    then show ?case using q3 by (auto simp: r add_all_def)
  qed
  from behind [of ?q1 later] first assms(3)
  have "settime_calls (add_all later ?q1) = settime_calls (reset_alarm now when0 q)"
    "set (timers (add_all later ?q1)) = {Entry when0 a0} \<union> {Entry w a | n w a. (n, w, a) \<in> set later}"
    by auto
  moreover have "\<not> arms (hd (settime_calls (reset_alarm now when0 q)))"
    using assms(2) reset_alarm_arms by auto
  moreover have "settime_calls (reset_alarm now when0 q)
      = hd (settime_calls (reset_alarm now when0 q)) # settime_calls q"
    by (simp add: reset_alarm_def Let_def)
  ultimately show ?thesis by (auto simp: Let_def)
qed

theorem past_timer_stalls_queue_witness:
  "let q = \<lparr>timerfd = 3, timer_channel = new_channel 0 3, timers = [], settime_calls = []\<rparr>;
       q' = add_all [(6, 1000, 2)] (insert_timer 5 4 1 q) in
   settime_calls q' = hd (settime_calls q') # settime_calls q \<and>
   \<not> arms (hd (settime_calls q')) \<and>
   (\<forall>(n, w, a) \<in> set [(6, 1000, 2)]. Entry w a \<in> set (timers q'))"
  using past_timer_stalls_queue [of "\<lparr>timerfd = 3, timer_channel = new_channel 0 3, timers = [],
      settime_calls = []\<rparr>" 4 5 "[(6, 1000, 2)]" 1] by simp

end
