(* ===== verification/Event_Loop.thy ===== *)
theory Event_Loop
  imports Timer_Queue
begin

text \<open>
  The event loop of \<open>wuduo/event_loop.h\<close> and \<open>wuduo/event_loop.cpp\<close>. The first sections
  are its operations on its record; the last is the loop running beside other threads, as
  a step relation whose steps are the accesses that other threads can see between: the
  critical section of \<open>queue_in_loop\<close>, the write to the event descriptor, the swap in
  \<open>do_pending_tasks\<close>, and so on. The loop's own thread may queue tasks and call \<open>quit\<close> before it calls
  \<open>loop\<close>, in handlers, in tasks and after \<open>loop\<close> has returned; \<open>early\<close> counts the tasks it queued before
  and for which it wrote no wake-up.

  A task is a value of a type \<open>'t\<close> of the client, or the lambda of \<open>TimerQueue::add_timer\<close>;
  what running one does is an argument. The event descriptor is a kernel object: its
  operations are an argument too, with the contract of the manual page the loop relies on.
\<close>

section \<open>The loop\<close>

text \<open>\<open>efd_write\<close> adds 1 to the descriptor's counter and returns what \<open>write\<close> does,
  \<open>efd_read\<close> reads it, \<open>efd_readable\<close> says whether \<open>epoll_wait\<close> reports it.\<close>

record 'k eventfd =
  efd_write :: "'k \<Rightarrow> int \<times> 'k"
  efd_read :: "'k \<Rightarrow> int \<times> 'k"
  efd_readable :: "'k \<Rightarrow> bool"

datatype 't loop_task = UserTask 't | InsertTimer int nat

record ('t, 'k) event_loop =
  thread_id :: nat
  looping :: bool
  quit_flag :: bool
  wakeupfd :: 'k
  wakeup_channel :: channel
  loop_timers :: timer_queue
  doing_pending_tasks :: bool
  pending_tasks :: "'t loop_task list"

text \<open>
  The constructor. \<open>other_loop\<close> says that the thread has a loop already, \<open>ok1\<close> and \<open>ok2\<close>
  are the outcomes of \<open>epoll_ctl\<close> for the timer's and the wake-up channel. An exception
  thrown by the body destroys the members built before.
\<close>

definition event_loop_ctor ::
    "nat \<Rightarrow> bool \<Rightarrow> int \<Rightarrow> int \<Rightarrow> 'k \<Rightarrow> bool \<Rightarrow> bool \<Rightarrow> ('t, 'k) event_loop result" where
  "event_loop_ctor tid other_loop timer_fd wakeup_fd k ok1 ok2 =
     bindE (timer_queue_ctor tid True ok1 timer_fd) (\<lambda>tq.
     bindE (assertE (\<not> other_loop)) (\<lambda>_.
     if wakeup_fd = -1
     then bindE (timer_queue_dtor True ok2 tq) (\<lambda>_. Inl RuntimeError)
     else bindE (enable_reading True ok2 (new_channel tid wakeup_fd)) (\<lambda>ch.
          Inr \<lparr>thread_id = tid, looping = False, quit_flag = False, wakeupfd = k,
               wakeup_channel = ch, loop_timers = tq, doing_pending_tasks = False,
               pending_tasks = []\<rparr>)))"

text \<open>The body of the destructor only clears the thread's loop pointer; then the members
  are destroyed in reverse order, the timer queue before the wake-up channel.\<close>

definition event_loop_dtor :: "bool \<Rightarrow> bool \<Rightarrow> ('t, 'k) event_loop \<Rightarrow> unit result" where
  "event_loop_dtor ok1 ok2 l =
     bindE (timer_queue_dtor True ok1 (loop_timers l)) (\<lambda>_.
     channel_dtor True ok2 (wakeup_channel l))"

definition in_loop_thread :: "nat \<Rightarrow> ('t, 'k) event_loop \<Rightarrow> bool" where
  "in_loop_thread caller l \<longleftrightarrow> thread_id l = caller"

definition assert_in_loop_thread :: "nat \<Rightarrow> ('t, 'k) event_loop \<Rightarrow> unit result" where
  "assert_in_loop_thread caller l = assertE (in_loop_thread caller l)"

definition assert_not_in_loop_thread :: "nat \<Rightarrow> ('t, 'k) event_loop \<Rightarrow> unit result" where
  "assert_not_in_loop_thread caller l = assertE (\<not> in_loop_thread caller l)"

text \<open>A short write is only logged.\<close>

definition wakeup :: "'k eventfd \<Rightarrow> ('t, 'k) event_loop \<Rightarrow> ('t, 'k) event_loop" where
  "wakeup efd l = l\<lparr>wakeupfd := snd (efd_write efd (wakeupfd l))\<rparr>"

definition handle_wakeup :: "'k eventfd \<Rightarrow> ('t, 'k) event_loop \<Rightarrow> ('t, 'k) event_loop" where
  "handle_wakeup efd l = l\<lparr>wakeupfd := snd (efd_read efd (wakeupfd l))\<rparr>"

text \<open>\<open>queue_in_loop\<close> is its critical section followed by the wake-up test.\<close>

definition push_task :: "'t loop_task \<Rightarrow> ('t, 'k) event_loop \<Rightarrow> ('t, 'k) event_loop" where
  "push_task t l = l\<lparr>pending_tasks := pending_tasks l @ [t]\<rparr>"

definition wakeup_if_needed ::
    "'k eventfd \<Rightarrow> nat \<Rightarrow> ('t, 'k) event_loop \<Rightarrow> ('t, 'k) event_loop" where
  "wakeup_if_needed efd caller l =
     (if \<not> in_loop_thread caller l \<or> doing_pending_tasks l then wakeup efd l else l)"

definition queue_in_loop ::
    "'k eventfd \<Rightarrow> nat \<Rightarrow> 't loop_task \<Rightarrow> ('t, 'k) event_loop \<Rightarrow> ('t, 'k) event_loop" where
  "queue_in_loop efd caller t l = wakeup_if_needed efd caller (push_task t l)"

definition quit :: "'k eventfd \<Rightarrow> nat \<Rightarrow> ('t, 'k) event_loop \<Rightarrow> ('t, 'k) event_loop" where
  "quit efd caller l =
     (let l1 = l\<lparr>quit_flag := True\<rparr> in if \<not> in_loop_thread caller l1 then wakeup efd l1 else l1)"

text \<open>\<open>exec t\<close> runs a task of the client on the loop and the rest of the program.\<close>

type_synonym ('t, 'k, 's) exec =
  "'t \<Rightarrow> ('t, 'k) event_loop \<times> 's \<Rightarrow> (('t, 'k) event_loop \<times> 's) result"

fun run_task :: "('t, 'k, 's) exec \<Rightarrow> int \<Rightarrow> 't loop_task
    \<Rightarrow> ('t, 'k) event_loop \<times> 's \<Rightarrow> (('t, 'k) event_loop \<times> 's) result" where
  "run_task exec now (UserTask t) st = exec t st"
| "run_task exec now (InsertTimer w a) (l, s) =
     Inr (l\<lparr>loop_timers := insert_timer now w a (loop_timers l)\<rparr>, s)"

definition run_in_loop ::
    "'k eventfd \<Rightarrow> ('t, 'k, 's) exec \<Rightarrow> int \<Rightarrow> nat \<Rightarrow> 't loop_task
      \<Rightarrow> ('t, 'k) event_loop \<times> 's \<Rightarrow> (('t, 'k) event_loop \<times> 's) result" where
  "run_in_loop efd exec now caller t st =
     (if in_loop_thread caller (fst st) then run_task exec now t st
      else Inr (queue_in_loop efd caller t (fst st), snd st))"

text \<open>\<open>TimerQueue::add_timer\<close>: the timer object lives at the fresh address \<open>a\<close>; the interval
  goes into the object, which the queue never looks at again.\<close>

definition add_timer ::
    "'k eventfd \<Rightarrow> ('t, 'k, 's) exec \<Rightarrow> int \<Rightarrow> nat \<Rightarrow> nat \<Rightarrow> ('u \<Rightarrow> 'u result) option \<Rightarrow> int \<Rightarrow> int
      \<Rightarrow> ('t, 'k) event_loop \<times> 's \<Rightarrow> ('u timer \<times> ('t, 'k) event_loop \<times> 's) result" where
  "add_timer efd exec now caller a cb w ival st =
     bindE (run_in_loop efd exec now caller (InsertTimer w a) st) (\<lambda>st'.
     Inr (new_timer cb w ival, st'))"

definition run_at ::
    "'k eventfd \<Rightarrow> ('t, 'k, 's) exec \<Rightarrow> int \<Rightarrow> nat \<Rightarrow> nat \<Rightarrow> ('u \<Rightarrow> 'u result) option \<Rightarrow> int
      \<Rightarrow> ('t, 'k) event_loop \<times> 's \<Rightarrow> ('u timer \<times> ('t, 'k) event_loop \<times> 's) result" where
  "run_at efd exec now caller a cb w st = add_timer efd exec now caller a cb w (microseconds 0) st"

definition run_after ::
    "'k eventfd \<Rightarrow> ('t, 'k, 's) exec \<Rightarrow> int \<Rightarrow> int \<Rightarrow> nat \<Rightarrow> nat \<Rightarrow> ('u \<Rightarrow> 'u result) option \<Rightarrow> int
      \<Rightarrow> ('t, 'k) event_loop \<times> 's \<Rightarrow> ('u timer \<times> ('t, 'k) event_loop \<times> 's) result" where
  "run_after efd exec now1 now2 caller a cb delay st =
     run_at efd exec now2 caller a cb (now1 + microseconds delay) st"

text \<open>\<open>do_pending_tasks\<close>: the tasks are taken out as a whole; those queued while they run
  wait for the next round.\<close>

definition take_pending ::
    "('t, 'k) event_loop \<Rightarrow> 't loop_task list \<times> ('t, 'k) event_loop" where
  "take_pending l = (pending_tasks l, l\<lparr>pending_tasks := []\<rparr>)"

definition do_pending_tasks ::
    "('t, 'k, 's) exec \<Rightarrow> int \<Rightarrow> ('t, 'k) event_loop \<times> 's \<Rightarrow> (('t, 'k) event_loop \<times> 's) result" where
  "do_pending_tasks exec now st =
     (let taken = take_pending (fst st) in
      bindE (foldE (run_task exec now) (fst taken)
              ((snd taken)\<lparr>doing_pending_tasks := True\<rparr>, snd st)) (\<lambda>st'.
      Inr ((fst st')\<lparr>doing_pending_tasks := False\<rparr>, snd st')))"

text \<open>
  \<open>loop\<close>: each round is given by the channels \<open>epoll_wait\<close> reports and the clock for the
  tasks; \<open>dispatch c\<close> is \<open>handle_events\<close> of the channel \<open>c\<close>. \<open>None\<close> means that the loop is
  still running after the rounds given.
\<close>

fun loop_rounds ::
    "(nat \<Rightarrow> ('t, 'k) event_loop \<times> 's \<Rightarrow> (('t, 'k) event_loop \<times> 's) result)
      \<Rightarrow> ('t, 'k, 's) exec \<Rightarrow> (nat list \<times> int) list
      \<Rightarrow> ('t, 'k) event_loop \<times> 's \<Rightarrow> (('t, 'k) event_loop \<times> 's) option result" where
  "loop_rounds dispatch exec [] st =
     Inr (if quit_flag (fst st) then Some st else None)"
| "loop_rounds dispatch exec ((active, now) # rounds) st =
     (if quit_flag (fst st) then Inr (Some st)
      else bindE (foldE dispatch active st) (\<lambda>st1.
           bindE (do_pending_tasks exec now st1) (\<lambda>st2.
           loop_rounds dispatch exec rounds st2)))"

definition loop_run ::
    "nat \<Rightarrow> (nat \<Rightarrow> ('t, 'k) event_loop \<times> 's \<Rightarrow> (('t, 'k) event_loop \<times> 's) result)
      \<Rightarrow> ('t, 'k, 's) exec \<Rightarrow> (nat list \<times> int) list
      \<Rightarrow> ('t, 'k) event_loop \<times> 's \<Rightarrow> (('t, 'k) event_loop \<times> 's) option result" where
  "loop_run caller dispatch exec rounds st =
     bindE (assert_in_loop_thread caller (fst st)) (\<lambda>_.
     bindE (loop_rounds dispatch exec rounds ((fst st)\<lparr>looping := True\<rparr>, snd st)) (\<lambda>res.
     Inr (map_option (\<lambda>st'. ((fst st')\<lparr>looping := False\<rparr>, snd st')) res)))"

section \<open>The loop beside other threads\<close>

text \<open>The contract of \<open>eventfd\<close>: after a write of 1, successful or refused because the counter
  is at its maximum, the descriptor is readable.\<close>

definition eventfd_contract :: "'k eventfd \<Rightarrow> bool" where
  "eventfd_contract efd \<longleftrightarrow> (\<forall>k. efd_readable efd (snd (efd_write efd k)))"

datatype active = ActiveWakeup | ActiveOther

datatype 't pc =
    AtStart | AtCheck | AtWait | Handling "active list" | AtSwap
  | Swapped "'t loop_task list" | Running "'t loop_task list" | Returned

text \<open>One call of \<open>loop\<close>; \<open>quit_\<close> is never cleared, so that a further call would return at once.
  \<open>unwoken\<close> counts the other threads that have pushed a task or set the quit flag and have not
  yet written to the descriptor; \<open>submitted\<close> and \<open>executed\<close> record the tasks; \<open>early\<close> counts the
  pending tasks that the loop's own thread queued before it called \<open>loop\<close>, for which nobody
  writes to the descriptor.\<close>

record ('t, 'k) system =
  lp :: "('t, 'k) event_loop"
  pc :: "'t pc"
  unwoken :: nat
  early :: nat
  submitted :: "'t loop_task list"
  executed :: "'t loop_task list"

definition start_system :: "('t, 'k) event_loop \<Rightarrow> ('t, 'k) system" where
  "start_system l = \<lparr>lp = l, pc = AtStart, unwoken = 0, early = 0, submitted = [], executed = []\<rparr>"

text \<open>Code of the program runs on the loop's thread before \<open>loop\<close> is called and after it has
  returned, while events are handled and while tasks run.\<close>

definition in_user_code :: "'t pc \<Rightarrow> bool" where
  "in_user_code p = (case p of
     AtStart \<Rightarrow> True | Handling _ \<Rightarrow> True | Running _ \<Rightarrow> True | Returned \<Rightarrow> True | _ \<Rightarrow> False)"

inductive loop_step :: "'k eventfd \<Rightarrow> ('t, 'k) system \<Rightarrow> ('t, 'k) system \<Rightarrow> bool"
  for efd :: "'k eventfd" where
  enter: "pc s = AtStart \<Longrightarrow>
    loop_step efd s (s\<lparr>pc := AtCheck, lp := (lp s)\<lparr>looping := True\<rparr>\<rparr>)"
| go_on: "pc s = AtCheck \<Longrightarrow> \<not> quit_flag (lp s) \<Longrightarrow> loop_step efd s (s\<lparr>pc := AtWait\<rparr>)"
| leave: "pc s = AtCheck \<Longrightarrow> quit_flag (lp s) \<Longrightarrow>
    loop_step efd s (s\<lparr>pc := Returned, lp := (lp s)\<lparr>looping := False\<rparr>\<rparr>)"
| wait_returns: "pc s = AtWait \<Longrightarrow> loop_step efd s (s\<lparr>pc := Handling ready\<rparr>)"
| read_wakeup: "pc s = Handling (ActiveWakeup # ready) \<Longrightarrow>
    loop_step efd s (s\<lparr>pc := Handling ready, lp := handle_wakeup efd (lp s)\<rparr>)"
| handle_other: "pc s = Handling (ActiveOther # ready) \<Longrightarrow>
    loop_step efd s (s\<lparr>pc := Handling ready\<rparr>)"
| handled: "pc s = Handling [] \<Longrightarrow> loop_step efd s (s\<lparr>pc := AtSwap\<rparr>)"
| swap: "pc s = AtSwap \<Longrightarrow>
    loop_step efd s (s\<lparr>pc := Swapped (fst (take_pending (lp s))), lp := snd (take_pending (lp s)),
                      early := 0\<rparr>)"
| mark: "pc s = Swapped ts \<Longrightarrow>
    loop_step efd s (s\<lparr>pc := Running ts, lp := (lp s)\<lparr>doing_pending_tasks := True\<rparr>\<rparr>)"
| run: "pc s = Running (t # ts) \<Longrightarrow>
    loop_step efd s (s\<lparr>pc := Running ts, executed := executed s @ [t]\<rparr>)"
| finish: "pc s = Running [] \<Longrightarrow>
    loop_step efd s (s\<lparr>pc := AtCheck, lp := (lp s)\<lparr>doing_pending_tasks := False\<rparr>\<rparr>)"
| queue_here: "in_user_code (pc s) \<Longrightarrow>
    loop_step efd s (s\<lparr>lp := queue_in_loop efd (thread_id (lp s)) t (lp s),
                      early := (if pc s = AtStart then Suc (early s) else early s),
                      submitted := submitted s @ [t]\<rparr>)"
| quit_here: "in_user_code (pc s) \<Longrightarrow>
    loop_step efd s (s\<lparr>lp := quit efd (thread_id (lp s)) (lp s)\<rparr>)"
| push_other: "loop_step efd s (s\<lparr>lp := push_task t (lp s), submitted := submitted s @ [t],
                                unwoken := Suc (unwoken s)\<rparr>)"
| quit_other: "loop_step efd s (s\<lparr>lp := (lp s)\<lparr>quit_flag := True\<rparr>, unwoken := Suc (unwoken s)\<rparr>)"
| wake_other: "unwoken s = Suc n \<Longrightarrow> caller \<noteq> thread_id (lp s) \<Longrightarrow>
    loop_step efd s (s\<lparr>lp := wakeup_if_needed efd caller (lp s), unwoken := n\<rparr>)"

inductive reachable :: "'k eventfd \<Rightarrow> ('t, 'k) event_loop \<Rightarrow> ('t, 'k) system \<Rightarrow> bool"
  for efd :: "'k eventfd" and l :: "('t, 'k) event_loop" where
  start: "reachable efd l (start_system l)"
| step: "reachable efd l s \<Longrightarrow> loop_step efd s s' \<Longrightarrow> reachable efd l s'"

section \<open>Invariants of the running loop\<close>

definition woken :: "'k eventfd \<Rightarrow> ('t, 'k) system \<Rightarrow> bool" where
  "woken efd s \<longleftrightarrow> efd_readable efd (wakeupfd (lp s)) \<or> 0 < unwoken s"

text \<open>The places from which the loop comes to \<open>epoll_wait\<close> without taking the tasks before.\<close>

definition before_wait :: "'t pc \<Rightarrow> bool" where
  "before_wait p = (case p of Handling _ \<Rightarrow> False | AtSwap \<Rightarrow> False | Returned \<Rightarrow> False | _ \<Rightarrow> True)"

definition taken_tasks :: "'t pc \<Rightarrow> 't loop_task list" where
  "taken_tasks p = (case p of Swapped ts \<Rightarrow> ts | Running ts \<Rightarrow> ts | _ \<Rightarrow> [])"

definition loop_inv :: "'k eventfd \<Rightarrow> ('t, 'k) system \<Rightarrow> bool" where
  "loop_inv efd s \<longleftrightarrow>
     (before_wait (pc s) \<and> early s < length (pending_tasks (lp s)) \<longrightarrow> woken efd s) \<and>
     (pc s = AtWait \<and> quit_flag (lp s) \<longrightarrow> woken efd s) \<and>
     (pc s = Returned \<longrightarrow> quit_flag (lp s)) \<and>
     (\<forall>ts. pc s = Swapped ts \<or> pc s = Running ts \<longrightarrow> early s = 0) \<and>
     (doing_pending_tasks (lp s) \<longleftrightarrow> (\<exists>ts. pc s = Running ts)) \<and>
     submitted s = executed s @ taken_tasks (pc s) @ pending_tasks (lp s)"

lemmas loop_op_defs =
  push_task_def wakeup_if_needed_def wakeup_def handle_wakeup_def queue_in_loop_def quit_def
  take_pending_def in_loop_thread_def Let_def

lemmas place_defs = before_wait_def taken_tasks_def in_user_code_def woken_def

lemma loop_step_inv:
  assumes "eventfd_contract efd" and "loop_step efd s s'" and "loop_inv efd s"
  shows "loop_inv efd s'"
  using assms(2,1,3)
  by cases (auto simp: loop_inv_def loop_op_defs place_defs eventfd_contract_def
      split: pc.splits)

lemma start_inv:
  assumes "pending_tasks l = []" and "\<not> doing_pending_tasks l"
  shows "loop_inv efd (start_system l)"
  using assms by (simp add: loop_inv_def start_system_def place_defs)

lemma reachable_inv:
  assumes "reachable efd l s" and "eventfd_contract efd"
    and "pending_tasks l = []" and "\<not> doing_pending_tasks l"
  shows "loop_inv efd s"
  using assms by induction (auto intro: start_inv loop_step_inv)

lemma ctor_idle:
  "event_loop_ctor tid other tfd wfd k ok1 ok2 = Inr l \<Longrightarrow>
   pending_tasks l = [] \<and> \<not> doing_pending_tasks l"
  by (auto simp: event_loop_ctor_def split: if_splits elim!: bindE_InrE)

text \<open>From any place where a ready descriptor has been noticed, the loop's own steps take it to
  the end of the round with every task run that was pending.\<close>

lemma run_all_taken:
  "pc s = Running ts \<Longrightarrow> \<exists>s'. (loop_step efd)\<^sup>*\<^sup>* s s' \<and> pc s' = Running [] \<and>
     executed s' = executed s @ ts \<and> lp s' = lp s \<and>
     submitted s' = submitted s \<and> unwoken s' = unwoken s"
proof (induction ts arbitrary: s)
  case Nil
  then show ?case by auto
next
  case (Cons t ts)
  let ?s1 = "s\<lparr>pc := Running ts, executed := executed s @ [t]\<rparr>"
  have first: "loop_step efd s ?s1" using Cons.prems by (rule loop_step.run)
  have "pc ?s1 = Running ts" by simp
  from Cons.IH [OF this] obtain s' where s': "(loop_step efd)\<^sup>*\<^sup>* ?s1 s'" "pc s' = Running []"
    "executed s' = executed s @ t # ts" "lp s' = lp s" "submitted s' = submitted s"
    "unwoken s' = unwoken s"
    by auto
  from first s'(1) have "(loop_step efd)\<^sup>*\<^sup>* s s'" by (rule converse_rtranclp_into_rtranclp)
  with s' show ?case by blast
qed

lemma round_from_swap:
  assumes "pc s = AtSwap"
  shows "\<exists>s'. (loop_step efd)\<^sup>*\<^sup>* s s' \<and> pc s' = AtCheck \<and> pending_tasks (lp s') = [] \<and>
     executed s' = executed s @ pending_tasks (lp s) \<and>
     submitted s' = submitted s \<and> unwoken s' = unwoken s"
proof -
  let ?ts = "pending_tasks (lp s)"
  let ?s1 = "s\<lparr>pc := Swapped ?ts, lp := (lp s)\<lparr>pending_tasks := []\<rparr>, early := 0\<rparr>"
  let ?s2 = "?s1\<lparr>pc := Running ?ts, lp := (lp ?s1)\<lparr>doing_pending_tasks := True\<rparr>\<rparr>"
  have 1: "loop_step efd s ?s1"
    using loop_step.swap [OF assms] by (simp add: take_pending_def)
  have 2: "loop_step efd ?s1 ?s2" by (rule loop_step.mark) simp
  obtain s3 where 3: "(loop_step efd)\<^sup>*\<^sup>* ?s2 s3" "pc s3 = Running []"
    "executed s3 = executed s @ ?ts" "lp s3 = lp ?s2"
    "submitted s3 = submitted s" "unwoken s3 = unwoken s"
    using run_all_taken [of ?s2 ?ts efd] by auto
  let ?s4 = "s3\<lparr>pc := AtCheck, lp := (lp s3)\<lparr>doing_pending_tasks := False\<rparr>\<rparr>"
  have 4: "loop_step efd s3 ?s4" using 3(2) by (rule loop_step.finish)
  have "(loop_step efd)\<^sup>*\<^sup>* s s3"
    by (rule converse_rtranclp_into_rtranclp [OF 1 converse_rtranclp_into_rtranclp [OF 2 3(1)]])
  then have "(loop_step efd)\<^sup>*\<^sup>* s ?s4"
    using 4 by (rule rtranclp.rtrancl_into_rtrancl)
  with 3 show ?thesis by (intro exI [of _ ?s4]) simp
qed

lemma round_from_wait:
  assumes "pc s = AtWait"
  shows "\<exists>s'. (loop_step efd)\<^sup>*\<^sup>* s s' \<and> pc s' = AtCheck \<and> pending_tasks (lp s') = [] \<and>
     executed s' = executed s @ pending_tasks (lp s) \<and>
     submitted s' = submitted s \<and> unwoken s' = unwoken s"
proof -
  let ?s1 = "s\<lparr>pc := Handling [ActiveWakeup]\<rparr>"
  let ?s2 = "?s1\<lparr>pc := Handling [], lp := handle_wakeup efd (lp ?s1)\<rparr>"
  let ?s3 = "?s2\<lparr>pc := AtSwap\<rparr>"
  have 1: "loop_step efd s ?s1" using assms by (rule loop_step.wait_returns)
  have 2: "loop_step efd ?s1 ?s2" by (rule loop_step.read_wakeup) simp
  have 3: "loop_step efd ?s2 ?s3" by (rule loop_step.handled) simp
  note pre = converse_rtranclp_into_rtranclp [OF 1 converse_rtranclp_into_rtranclp [OF 2 r_into_rtranclp
      [where r = "loop_step efd", OF 3]]]
  obtain s' where "(loop_step efd)\<^sup>*\<^sup>* ?s3 s'" "pc s' = AtCheck" "pending_tasks (lp s') = []"
    "executed s' = executed ?s3 @ pending_tasks (lp ?s3)" "submitted s' = submitted ?s3"
    "unwoken s' = unwoken ?s3"
    using round_from_swap [of ?s3 efd] by auto
  moreover from pre this(1) have "(loop_step efd)\<^sup>*\<^sup>* s s'" by (rule rtranclp_trans)
  ultimately show ?thesis by (intro exI [of _ s']) (simp add: handle_wakeup_def)
qed

section \<open>The loop left to itself\<close>

text \<open>The steps of the loop's own thread while nothing but the event descriptor is ready: the subset
  of \<open>loop_step\<close> that is left when everybody else is silent. \<open>epoll_wait\<close> blocks as long as the
  event descriptor is not readable. The code of the program that runs on the thread, in tasks and
  handlers and around \<open>loop\<close>, may call \<open>queue_in_loop\<close> and \<open>quit\<close> in between (\<open>own_call\<close>); a
  further call of \<open>quit\<close> changes nothing.\<close>

inductive own_step :: "'k eventfd \<Rightarrow> ('t, 'k) system \<Rightarrow> ('t, 'k) system \<Rightarrow> bool"
  for efd :: "'k eventfd" where
  own_enter: "pc s = AtStart \<Longrightarrow>
    own_step efd s (s\<lparr>pc := AtCheck, lp := (lp s)\<lparr>looping := True\<rparr>\<rparr>)"
| own_go_on: "pc s = AtCheck \<Longrightarrow> \<not> quit_flag (lp s) \<Longrightarrow> own_step efd s (s\<lparr>pc := AtWait\<rparr>)"
| own_leave: "pc s = AtCheck \<Longrightarrow> quit_flag (lp s) \<Longrightarrow>
    own_step efd s (s\<lparr>pc := Returned, lp := (lp s)\<lparr>looping := False\<rparr>\<rparr>)"
| own_wait: "pc s = AtWait \<Longrightarrow> efd_readable efd (wakeupfd (lp s)) \<Longrightarrow>
    own_step efd s (s\<lparr>pc := Handling [ActiveWakeup]\<rparr>)"
| own_read: "pc s = Handling (ActiveWakeup # ready) \<Longrightarrow>
    own_step efd s (s\<lparr>pc := Handling ready, lp := handle_wakeup efd (lp s)\<rparr>)"
| own_other: "pc s = Handling (ActiveOther # ready) \<Longrightarrow> own_step efd s (s\<lparr>pc := Handling ready\<rparr>)"
| own_handled: "pc s = Handling [] \<Longrightarrow> own_step efd s (s\<lparr>pc := AtSwap\<rparr>)"
| own_swap: "pc s = AtSwap \<Longrightarrow>
    own_step efd s (s\<lparr>pc := Swapped (fst (take_pending (lp s))), lp := snd (take_pending (lp s)),
                     early := 0\<rparr>)"
| own_mark: "pc s = Swapped ts \<Longrightarrow>
    own_step efd s (s\<lparr>pc := Running ts, lp := (lp s)\<lparr>doing_pending_tasks := True\<rparr>\<rparr>)"
| own_run: "pc s = Running (t # ts) \<Longrightarrow>
    own_step efd s (s\<lparr>pc := Running ts, executed := executed s @ [t]\<rparr>)"
| own_finish: "pc s = Running [] \<Longrightarrow>
    own_step efd s (s\<lparr>pc := AtCheck, lp := (lp s)\<lparr>doing_pending_tasks := False\<rparr>\<rparr>)"

inductive own_call :: "'k eventfd \<Rightarrow> ('t, 'k) system \<Rightarrow> ('t, 'k) system \<Rightarrow> bool"
  for efd :: "'k eventfd" where
  own_queue: "in_user_code (pc s) \<Longrightarrow>
    own_call efd s (s\<lparr>lp := queue_in_loop efd (thread_id (lp s)) t (lp s),
                     early := (if pc s = AtStart then Suc (early s) else early s),
                     submitted := submitted s @ [t]\<rparr>)"
| own_quit: "in_user_code (pc s) \<Longrightarrow> \<not> quit_flag (lp s) \<Longrightarrow>
    own_call efd s (s\<lparr>lp := quit efd (thread_id (lp s)) (lp s)\<rparr>)"

definition own_thread :: "'k eventfd \<Rightarrow> ('t, 'k) system \<Rightarrow> ('t, 'k) system \<Rightarrow> bool" where
  "own_thread efd s s' \<longleftrightarrow> own_step efd s s' \<or> own_call efd s s'"

lemma own_step_is_loop_step: "own_step efd s s' \<Longrightarrow> loop_step efd s s'"
  by (induction rule: own_step.induct) (auto intro: loop_step.intros)

lemma own_thread_is_loop_step: "own_thread efd s s' \<Longrightarrow> loop_step efd s s'"
  by (auto simp: own_thread_def own_step_is_loop_step elim!: own_call.cases intro: loop_step.intros)

lemma own_thread_unwoken: "own_thread efd s s' \<Longrightarrow> unwoken s' = unwoken s"
  by (auto simp: own_thread_def elim!: own_call.cases own_step.cases)

lemma own_run_unwoken: "(own_thread efd)\<^sup>*\<^sup>* s s' \<Longrightarrow> unwoken s' = unwoken s"
  by (induction rule: rtranclp_induct) (auto dest: own_thread_unwoken)

lemma own_run_reachable:
  "(own_thread efd)\<^sup>*\<^sup>* s s' \<Longrightarrow> reachable efd l s \<Longrightarrow> reachable efd l s'"
  by (induction rule: rtranclp_induct) (auto intro: reachable.step own_thread_is_loop_step)

text \<open>How many steps are left, at most: to the end of the round, and for one more round while the
  event descriptor is readable and will be reported.\<close>

fun steps_at :: "'t pc \<Rightarrow> nat" where
  "steps_at Returned = 0"
| "steps_at AtWait = 1"
| "steps_at AtCheck = 2"
| "steps_at AtStart = 3"
| "steps_at (Running ts) = 3 + length ts"
| "steps_at (Swapped ts) = 4 + length ts"
| "steps_at AtSwap = 5"
| "steps_at (Handling ready) = 6 + length ready"

fun wakeup_in_hand :: "'t pc \<Rightarrow> bool" where
  "wakeup_in_hand (Handling ready) \<longleftrightarrow> ActiveWakeup \<in> set ready"
| "wakeup_in_hand _ \<longleftrightarrow> False"

definition steps_left :: "'k eventfd \<Rightarrow> ('t, 'k) system \<Rightarrow> nat" where
  "steps_left efd s = steps_at (pc s) + length (pending_tasks (lp s)) +
     (if efd_readable efd (wakeupfd (lp s)) \<and> \<not> wakeup_in_hand (pc s) then 10 else 0)"

text \<open>Reading an event descriptor sets its counter to 0, so that it is not readable any more.\<close>

definition read_resets :: "'k eventfd \<Rightarrow> bool" where
  "read_resets efd \<longleftrightarrow> (\<forall>k. \<not> efd_readable efd (snd (efd_read efd k)))"

lemma own_step_decreases:
  "own_step efd s s' \<Longrightarrow> read_resets efd \<Longrightarrow>
   steps_left efd s' < steps_left efd s \<and> submitted s' = submitted s \<and> quit_flag (lp s') = quit_flag (lp s)"
  by (induction rule: own_step.induct)
    (simp_all add: steps_left_def read_resets_def handle_wakeup_def take_pending_def Let_def)

text \<open>A call makes at most eleven more steps necessary: its task is run, in one more round if the
  event descriptor has become readable. Every task that may still be submitted pays for them.\<close>

definition work_left :: "'k eventfd \<Rightarrow> nat \<Rightarrow> ('t, 'k) system \<Rightarrow> nat" where
  "work_left efd n s =
     steps_left efd s + 12 * (n - length (submitted s)) + (if quit_flag (lp s) then 0 else 1)"

lemma own_thread_decreases:
  assumes "own_thread efd s s'" and "read_resets efd" and "length (submitted s') \<le> n"
  shows "work_left efd n s' < work_left efd n s"
proof -
  from assms(1) consider "own_step efd s s'" | "own_call efd s s'" by (auto simp: own_thread_def)
  then show ?thesis
  proof cases
    case 1
    from own_step_decreases [OF 1 assms(2)] show ?thesis by (simp add: work_left_def)
  next
    case 2
    then show ?thesis
    proof cases
      case (own_queue t)
      have "steps_left efd s' \<le> steps_left efd s + 11"
        by (simp add: own_queue steps_left_def loop_op_defs)
      moreover have "length (submitted s') = Suc (length (submitted s))"
        "quit_flag (lp s') = quit_flag (lp s)" by (simp_all add: own_queue loop_op_defs)
      ultimately show ?thesis using assms(3) by (simp add: work_left_def)
    next
      case own_quit
      then show ?thesis by (simp add: work_left_def steps_left_def loop_op_defs)
    qed
  qed
qed

lemma own_run_finite:
  assumes "read_resets efd" and "\<forall>i. length (submitted (f i)) \<le> n"
  shows "\<not> (\<forall>i. own_thread efd (f i) (f (Suc i)))"
proof
  assume f: "\<forall>i. own_thread efd (f i) (f (Suc i))"
  have "(f (Suc i), f i) \<in> measure (work_left efd n)" for i
    using own_thread_decreases [OF spec [OF f] assms(1)] assms(2) by simp
  with wf_measure [of "work_left efd n"] show False
    unfolding wf_iff_no_infinite_down_chain by blast
qed

lemma own_step_stuck:
  assumes "\<nexists>s'. own_step efd s s'"
  shows "pc s = Returned \<or> pc s = AtWait \<and> \<not> efd_readable efd (wakeupfd (lp s))"
proof (cases "pc s")
  case AtCheck
  with assms show ?thesis by (cases "quit_flag (lp s)") (blast intro: own_step.intros)+
next
  case (Handling ready)
  with assms show ?thesis
    by (cases ready; cases "hd ready") (auto intro: own_step.intros)
next
  case (Running ts)
  with assms show ?thesis by (cases ts) (blast intro: own_step.intros)+
qed (use assms in \<open>blast intro: own_step.intros\<close>)+

section \<open>Properties\<close>

text \<open>C13: No wake-up is lost. Whenever the loop is at \<open>epoll_wait\<close> with the quit flag set, or with
  more tasks pending than its own thread queued before it called \<open>loop\<close>, then the event
  descriptor is readable, so that \<open>epoll_wait\<close> returns and all tasks are taken, or some other
  thread is between its push and its write and will make it so. Only for the tasks that the loop's
  own thread queues before \<open>loop\<close> nobody writes to the descriptor: they wait for some other event
  (\<open>early_task_waits\<close>).\<close>

theorem no_lost_wakeup:
  assumes "eventfd_contract efd" and "event_loop_ctor tid other tfd wfd k ok1 ok2 = Inr l"
    and "reachable efd l s" and "pc s = AtWait"
    and "early s < length (pending_tasks (lp s)) \<or> quit_flag (lp s)"
  shows "efd_readable efd (wakeupfd (lp s)) \<or> 0 < unwoken s"
  using reachable_inv [OF assms(3,1)] ctor_idle [OF assms(2)] assms(4,5)
  by (auto simp: loop_inv_def place_defs)

definition counter_eventfd :: "nat eventfd" where
  "counter_eventfd = \<lparr>efd_write = (\<lambda>c. (8, Suc c)), efd_read = (\<lambda>c. (8, 0)), efd_readable = (\<lambda>c. 0 < c)\<rparr>"

theorem no_lost_wakeup_witness:
  "\<exists>(l :: (nat, nat) event_loop) s. event_loop_ctor 1 False 3 4 (0 :: nat) True True = Inr l \<and>
     reachable counter_eventfd l s \<and> pc s = AtWait \<and> pending_tasks (lp s) = [UserTask 7] \<and> early s = 0 \<and>
     (efd_readable counter_eventfd (wakeupfd (lp s)) \<or> 0 < unwoken s)"
proof -
  obtain l :: "(nat, nat) event_loop" where
    l: "event_loop_ctor 1 False 3 4 (0 :: nat) True True = Inr l"
    by (simp add: event_loop_ctor_def timer_queue_ctor_def enable_reading_eq)
  then have idle: "pending_tasks l = []" "\<not> quit_flag l"
    by (auto simp: event_loop_ctor_def split: if_splits elim!: bindE_InrE)
  let ?s1 = "(start_system l)\<lparr>pc := AtCheck, lp := l\<lparr>looping := True\<rparr>\<rparr>"
  let ?s2 = "?s1\<lparr>pc := AtWait\<rparr>"
  let ?s3 = "?s2\<lparr>lp := push_task (UserTask 7) (lp ?s2), submitted := [UserTask 7], unwoken := 1\<rparr>"
  have "reachable counter_eventfd l ?s1"
    using reachable.step [OF reachable.start loop_step.enter] by (simp add: start_system_def)
  then have "reachable counter_eventfd l ?s2"
    using idle by (rule_tac reachable.step [OF _ loop_step.go_on]) (simp_all add: start_system_def)
  then have r: "reachable counter_eventfd l ?s3"
    using reachable.step [OF _ loop_step.push_other [of _ ?s2 "UserTask 7"]]
    by (simp add: start_system_def)
  have c: "eventfd_contract counter_eventfd"
    by (simp add: eventfd_contract_def counter_eventfd_def)
  have "pending_tasks (lp ?s3) = [UserTask 7]" using idle by (simp add: push_task_def)
  with no_lost_wakeup [OF c l r] l r show ?thesis
    by (intro exI [of _ l] exI [of _ ?s3]) (simp add: start_system_def)
qed

text \<open>A task that the loop's own thread queues before it calls \<open>loop\<close> is pending while the loop
  blocks in \<open>epoll_wait\<close>, and stays so until some descriptor becomes ready.\<close>

theorem early_task_waits:
  assumes "event_loop_ctor tid other tfd wfd k ok1 ok2 = Inr l" and "\<not> efd_readable efd k"
  shows "\<exists>s. reachable efd l s \<and> pc s = AtWait \<and> pending_tasks (lp s) = [t] \<and> unwoken s = 0 \<and>
    \<not> (\<exists>s'. own_step efd s s')"
proof -
  have l: "pending_tasks l = []" "\<not> quit_flag l" "\<not> doing_pending_tasks l" "wakeupfd l = k"
    using assms(1) by (auto simp: event_loop_ctor_def split: if_splits elim!: bindE_InrE)
  let ?s1 = "(start_system l)\<lparr>lp := push_task t l, early := 1, submitted := [t]\<rparr>"
  let ?s2 = "?s1\<lparr>pc := AtCheck, lp := (lp ?s1)\<lparr>looping := True\<rparr>\<rparr>"
  let ?s3 = "?s2\<lparr>pc := AtWait\<rparr>"
  have "reachable efd l ?s1"
    using reachable.step [OF reachable.start loop_step.queue_here [of "start_system l" efd t]] l
    by (simp add: start_system_def in_user_code_def loop_op_defs)
  then have "reachable efd l ?s2"
    by (rule reachable.step) (rule loop_step.enter, simp add: start_system_def)
  then have "reachable efd l ?s3"
    by (rule reachable.step) (rule loop_step.go_on, simp_all add: push_task_def l)
  moreover have "\<not> (\<exists>s'. own_step efd ?s3 s')"
    using assms(2) l by (auto simp: push_task_def elim: own_step.cases)
  ultimately show ?thesis
    using l by (intro exI [of _ ?s3]) (simp add: push_task_def start_system_def)
qed

theorem early_task_waits_witness:
  "\<exists>(l :: (nat, nat) event_loop) s. event_loop_ctor 1 False 3 4 (0 :: nat) True True = Inr l \<and>
     reachable counter_eventfd l s \<and> pc s = AtWait \<and> pending_tasks (lp s) = [UserTask 7] \<and> unwoken s = 0 \<and>
     \<not> (\<exists>s'. own_step counter_eventfd s s')"
proof -
  obtain l :: "(nat, nat) event_loop" where
    l: "event_loop_ctor 1 False 3 4 (0 :: nat) True True = Inr l"
    by (simp add: event_loop_ctor_def timer_queue_ctor_def enable_reading_eq)
  have "\<not> efd_readable counter_eventfd 0" by (simp add: counter_eventfd_def)
  from early_task_waits [OF l this, of "UserTask 7"] l show ?thesis by blast
qed

text \<open>C15: Tasks are run exactly once and in the order in which their \<open>queue_in_loop\<close> critical
  sections took place, whichever threads submit them and however the steps interleave: what
  was submitted is what has been executed, then what the current round has taken out, then
  what is pending.\<close>

theorem tasks_fifo_once:
  assumes "eventfd_contract efd" and "event_loop_ctor tid other tfd wfd k ok1 ok2 = Inr l"
    and "reachable efd l s"
  shows "submitted s = executed s @ taken_tasks (pc s) @ pending_tasks (lp s)"
  using reachable_inv [OF assms(3,1)] ctor_idle [OF assms(2)] by (simp add: loop_inv_def)

theorem tasks_fifo_once_witness:
  "\<exists>(l :: (nat, nat) event_loop) s. event_loop_ctor 1 False 3 4 (0 :: nat) True True = Inr l \<and>
     reachable counter_eventfd l s \<and> submitted s = [UserTask 7] \<and>
     submitted s = executed s @ taken_tasks (pc s) @ pending_tasks (lp s)"
proof -
  obtain l :: "(nat, nat) event_loop" where
    l: "event_loop_ctor 1 False 3 4 (0 :: nat) True True = Inr l"
    by (simp add: event_loop_ctor_def timer_queue_ctor_def enable_reading_eq)
  have c: "eventfd_contract counter_eventfd"
    by (simp add: eventfd_contract_def counter_eventfd_def)
  let ?s = "(start_system l)\<lparr>lp := push_task (UserTask 7) l, submitted := [UserTask 7], unwoken := 1\<rparr>"
  have r: "reachable counter_eventfd l ?s"
    using reachable.step [OF reachable.start loop_step.push_other [of _ "start_system l" "UserTask 7"]]
    by (simp add: start_system_def)
  from tasks_fifo_once [OF c l r] l r show ?thesis by auto
qed

text \<open>C14: Left alone, the loop finishes its work. When every other thread has completed its calls,
  the loop's own thread, whose tasks and handlers may queue further tasks and call \<open>quit\<close>, goes on for
  ever only if it submits more and more tasks: no run in which at most \<open>n\<close> tasks are submitted in
  all is infinite. Where the loop stops, \<open>quit\<close> has been called and \<open>loop\<close> has returned, or \<open>quit\<close> has
  not been called and the loop is blocked in \<open>epoll_wait\<close> with every submitted task executed, but for tasks queued
  on its own thread before it called \<open>loop\<close>, at the end of the order. This is
  with no other descriptor ready than the event descriptor; and each task and handler ends.\<close>

theorem loop_settles:
  assumes "eventfd_contract efd" and "read_resets efd"
    and "event_loop_ctor tid other tfd wfd k ok1 ok2 = Inr l"
    and "reachable efd l s" and "unwoken s = 0"
  shows "\<not> (\<exists>f n. f 0 = s \<and> (\<forall>i. own_thread efd (f i) (f (Suc i))) \<and> (\<forall>i. length (submitted (f i)) \<le> n)) \<and>
    (\<forall>s'. (own_thread efd)\<^sup>*\<^sup>* s s' \<and> \<not> (\<exists>s''. own_step efd s' s'') \<longrightarrow>
       (if quit_flag (lp s') then pc s' = Returned
        else pc s' = AtWait \<and> (\<exists>ts. submitted s' = executed s' @ ts \<and> length ts \<le> early s')))"
proof (intro conjI allI impI)
  show "\<not> (\<exists>f n. f 0 = s \<and> (\<forall>i. own_thread efd (f i) (f (Suc i))) \<and> (\<forall>i. length (submitted (f i)) \<le> n))"
    using own_run_finite [OF assms(2)] by blast
  fix s'
  assume s': "(own_thread efd)\<^sup>*\<^sup>* s s' \<and> \<not> (\<exists>s''. own_step efd s' s'')"
  have inv: "loop_inv efd s'"
    using reachable_inv [OF own_run_reachable [OF conjunct1 [OF s'] assms(4)] assms(1)] ctor_idle [OF assms(3)] by simp
  have "unwoken s' = 0" using own_run_unwoken [OF conjunct1 [OF s']] assms(5) by simp
  with own_step_stuck [of efd s'] s' inv
  show "if quit_flag (lp s') then pc s' = Returned
      else pc s' = AtWait \<and> (\<exists>ts. submitted s' = executed s' @ ts \<and> length ts \<le> early s')"
    by (auto simp: loop_inv_def place_defs)
qed

theorem loop_settles_witness:
  "\<exists>(l :: (nat, nat) event_loop) s. event_loop_ctor 1 False 3 4 (0 :: nat) True True = Inr l \<and>
     reachable counter_eventfd l s \<and> submitted s = [UserTask 7] \<and> early s = 0 \<and>
     \<not> (\<exists>f n. f 0 = s \<and> (\<forall>i. own_thread counter_eventfd (f i) (f (Suc i))) \<and>
          (\<forall>i. length (submitted (f i)) \<le> n)) \<and>
     (\<forall>s'. (own_thread counter_eventfd)\<^sup>*\<^sup>* s s' \<and> \<not> (\<exists>s''. own_step counter_eventfd s' s'') \<longrightarrow>
       (if quit_flag (lp s') then pc s' = Returned
        else pc s' = AtWait \<and> (\<exists>ts. submitted s' = executed s' @ ts \<and> length ts \<le> early s')))"
proof -
  obtain l :: "(nat, nat) event_loop" where
    l: "event_loop_ctor 1 False 3 4 (0 :: nat) True True = Inr l"
    by (simp add: event_loop_ctor_def timer_queue_ctor_def enable_reading_eq)
  have c: "eventfd_contract counter_eventfd" "read_resets counter_eventfd"
    by (simp_all add: eventfd_contract_def read_resets_def counter_eventfd_def)
  have tid: "thread_id l = 1" using l by (auto simp: event_loop_ctor_def split: if_splits elim!: bindE_InrE)
  let ?s1 = "(start_system l)\<lparr>lp := push_task (UserTask 7) l, submitted := [UserTask 7], unwoken := 1\<rparr>"
  let ?s2 = "?s1\<lparr>lp := wakeup_if_needed counter_eventfd 0 (lp ?s1), unwoken := 0\<rparr>"
  have "reachable counter_eventfd l ?s1"
    using reachable.step [OF reachable.start loop_step.push_other [of _ "start_system l" "UserTask 7"]]
    by (simp add: start_system_def)
  moreover have "loop_step counter_eventfd ?s1 ?s2"
    by (rule loop_step.wake_other) (simp_all add: push_task_def tid)
  ultimately have r: "reachable counter_eventfd l ?s2" by (rule reachable.step)
  from loop_settles [OF c l r] l r show ?thesis
    by (intro exI [of _ l] exI [of _ ?s2]) (simp add: start_system_def)
qed

text \<open>Once \<open>epoll_wait\<close> returns for the event descriptor, the loop's own steps (no other
  thread doing anything) bring it back to the test of its condition with every task that was
  pending executed, in order, and none left.\<close>

theorem pending_tasks_get_run:
  assumes "pc s = AtWait"
  shows "\<exists>s'. (loop_step efd)\<^sup>*\<^sup>* s s' \<and> pc s' = AtCheck \<and> pending_tasks (lp s') = [] \<and>
           executed s' = executed s @ pending_tasks (lp s) \<and>
           submitted s' = submitted s \<and> unwoken s' = unwoken s"
  by (rule round_from_wait [OF assms])

theorem pending_tasks_get_run_witness:
  "\<exists>s'. (loop_step counter_eventfd)\<^sup>*\<^sup>*
      \<lparr>lp = \<lparr>thread_id = 1, looping = True, quit_flag = False, wakeupfd = 1 :: nat,
              wakeup_channel = new_channel 1 4,
              loop_timers = \<lparr>timerfd = 3, timer_channel = new_channel 1 3, timers = [], settime_calls = []\<rparr>,
              doing_pending_tasks = False, pending_tasks = [UserTask (5 :: nat)]\<rparr>,
       pc = AtWait, unwoken = 0, early = 0, submitted = [UserTask 5], executed = []\<rparr> s' \<and>
     pc s' = AtCheck \<and> pending_tasks (lp s') = [] \<and> executed s' = [UserTask 5]"
  using pending_tasks_get_run [of "\<lparr>lp = \<lparr>thread_id = 1, looping = True, quit_flag = False,
      wakeupfd = 1 :: nat, wakeup_channel = new_channel 1 4,
      loop_timers = \<lparr>timerfd = 3, timer_channel = new_channel 1 3, timers = [], settime_calls = []\<rparr>,
      doing_pending_tasks = False, pending_tasks = [UserTask (5 :: nat)]\<rparr>,
      pc = AtWait, unwoken = 0, early = 0, submitted = [UserTask 5], executed = []\<rparr>" counter_eventfd]
  by auto

text \<open>Running a task of the client that records itself and queues further tasks from the
  loop's own thread.\<close>

definition spawning_exec ::
    "'k eventfd \<Rightarrow> ('t \<Rightarrow> 't loop_task list) \<Rightarrow> ('t, 'k, 't list) exec" where
  "spawning_exec efd spawn t st =
     Inr (foldl (\<lambda>l t'. queue_in_loop efd (thread_id l) t' l) (fst st) (spawn t), snd st @ [t])"

lemma queue_here_seq:
  assumes "doing_pending_tasks l" "eventfd_contract efd"
  shows "let l' = foldl (\<lambda>l t'. queue_in_loop efd (thread_id l) t' l) l ts in
         pending_tasks l' = pending_tasks l @ ts \<and> doing_pending_tasks l' \<and>
         (if ts = [] then l' = l else efd_readable efd (wakeupfd l'))"
  using assms
  by (induction ts arbitrary: l rule: rev_induct)
    (auto simp: loop_op_defs eventfd_contract_def)

lemma spawn_round:
  assumes "eventfd_contract efd" "doing_pending_tasks l"
    and "pending_tasks l \<noteq> [] \<longrightarrow> efd_readable efd (wakeupfd l)"
  shows "\<exists>l'. foldE (run_task (spawning_exec efd spawn) now) (map UserTask ts) (l, log)
               = Inr (l', log @ ts) \<and>
           pending_tasks l' = pending_tasks l @ concat (map spawn ts) \<and>
           (pending_tasks l' \<noteq> [] \<longrightarrow> efd_readable efd (wakeupfd l'))"
  using assms(2,3)
proof (induction ts arbitrary: l log)
  case Nil
  then show ?case by simp
next
  case (Cons t ts)
  let ?l1 = "foldl (\<lambda>l t'. queue_in_loop efd (thread_id l) t' l) l (spawn t)"
  have l1: "pending_tasks ?l1 = pending_tasks l @ spawn t" "doing_pending_tasks ?l1"
    "if spawn t = [] then ?l1 = l else efd_readable efd (wakeupfd ?l1)"
    using queue_here_seq [OF Cons.prems(1) assms(1), of "spawn t"] by (simp_all add: Let_def)
  then have "pending_tasks ?l1 \<noteq> [] \<longrightarrow> efd_readable efd (wakeupfd ?l1)"
    using Cons.prems(2) by (auto split: if_splits)
  from Cons.IH [OF l1(2) this, of "log @ [t]"] l1(1) show ?case
    by (simp add: spawning_exec_def)
qed

text \<open>\<open>do_pending_tasks\<close> runs exactly the tasks that were pending when it began, in order;
  the tasks these submit meanwhile stay pending, in the order submitted, and the event
  descriptor is then readable, so that the next round runs them without delay.\<close>

theorem do_pending_tasks_one_round:
  assumes "eventfd_contract efd" and "pending_tasks l = map UserTask ts"
  shows "\<exists>l'. do_pending_tasks (spawning_exec efd spawn) now (l, log) = Inr (l', log @ ts) \<and>
           pending_tasks l' = concat (map spawn ts) \<and> \<not> doing_pending_tasks l' \<and>
           (pending_tasks l' \<noteq> [] \<longrightarrow> efd_readable efd (wakeupfd l'))"
proof -
  let ?l = "l\<lparr>pending_tasks := [], doing_pending_tasks := True\<rparr>"
  have "doing_pending_tasks ?l" "pending_tasks ?l \<noteq> [] \<longrightarrow> efd_readable efd (wakeupfd ?l)"
    by simp_all
  from spawn_round [OF assms(1) this, of spawn now ts log] assms(2) show ?thesis
    by (auto simp: do_pending_tasks_def take_pending_def Let_def)
qed

theorem do_pending_tasks_one_round_witness:
  "\<exists>l'. do_pending_tasks (spawning_exec counter_eventfd (\<lambda>t. if t = 1 then [UserTask 9] else [])) 0
          (\<lparr>thread_id = 1, looping = True, quit_flag = False, wakeupfd = 0 :: nat,
            wakeup_channel = new_channel 1 4,
            loop_timers = \<lparr>timerfd = 3, timer_channel = new_channel 1 3, timers = [], settime_calls = []\<rparr>,
            doing_pending_tasks = False, pending_tasks = map UserTask [1, 2 :: nat]\<rparr>, [])
        = Inr (l', [] @ [1, 2]) \<and>
      pending_tasks l' = concat (map (\<lambda>t :: nat. if t = 1 then [UserTask 9] else []) [1, 2]) \<and>
      \<not> doing_pending_tasks l' \<and>
      (pending_tasks l' \<noteq> [] \<longrightarrow> efd_readable counter_eventfd (wakeupfd l'))"
  by (rule do_pending_tasks_one_round)
    (simp_all add: eventfd_contract_def counter_eventfd_def)

lemma rounds_after_quit:
  "quit_flag (fst st) \<Longrightarrow> loop_rounds dispatch exec rounds st = Inr (Some st)"
  by (cases rounds) auto

text \<open>The destructor of a loop never completes: its timer queue's channel still is in the
  interest list (or still asks for events, if \<open>epoll_ctl\<close> failed) when it is destroyed, and
  the destructor of \<open>Channel\<close> asserts the contrary instead of removing it.\<close>

theorem event_loop_dtor_aborts:
  assumes "event_loop_ctor tid other tfd wfd k ok1 ok2 = Inr l"
  shows "event_loop_dtor ok3 ok4 l = Inl AssertFailure"
proof -
  have "events (timer_channel (loop_timers l)) \<noteq> 0"
    using assms by (cases ok1)
      (auto simp: event_loop_ctor_def timer_queue_ctor_def enable_reading_eq split: if_splits
        elim!: bindE_InrE)
  then show ?thesis
    by (simp add: event_loop_dtor_def timer_queue_dtor_def channel_dtor_iff)
qed

theorem event_loop_dtor_aborts_witness:
  "\<exists>l :: (nat, nat) event_loop. event_loop_ctor 1 False 3 4 0 True True = Inr l \<and>
     event_loop_dtor True True l = Inl AssertFailure"
proof -
  obtain l :: "(nat, nat) event_loop" where
    l: "event_loop_ctor 1 False 3 4 (0 :: nat) True True = Inr l"
    by (simp add: event_loop_ctor_def timer_queue_ctor_def enable_reading_eq)
  with event_loop_dtor_aborts [OF l] show ?thesis by blast
qed

end
