(* ===== verification/Io_Loop.thy ===== *)
theory Io_Loop
  imports Event_Loop Http_Server
begin

text \<open>
  The loop that runs the tasks of connections: \<open>EventLoop::do_pending_tasks\<close> of
  \<open>wuduo/event_loop.cpp\<close> with the tasks that \<open>tcp_connection.cpp\<close> and \<open>tcp_server.cpp\<close> queue.
  \<open>Tcp_Server\<close> keeps the tasks of each connection with the connection and runs them one by one; the
  program has one queue per loop and runs all of it in one go. This theory shows that the first is
  an abstraction of the second.
\<close>

section \<open>Operations that do not look at the queue\<close>

definition requeue :: "conn_task list \<Rightarrow> 'w \<times> 'x connection \<Rightarrow> 'w \<times> 'x connection" where
  "requeue ps s = (fst s, (snd s)\<lparr>posted := ps\<rparr>)"

lemma requeue_simps [simp]:
  "fst (requeue ps s) = fst s" "snd (requeue ps s) = (snd s)\<lparr>posted := ps\<rparr>"
  "requeue ps (w, c) = (w, c\<lparr>posted := ps\<rparr>)"
  by (simp_all add: requeue_def)

text \<open>For a connection of the loop \<open>l\<close>: the operation commutes with any change of the queue.\<close>

definition blind :: "nat \<Rightarrow> ('w \<times> 'x connection \<Rightarrow> ('w \<times> 'x connection) result) \<Rightarrow> bool" where
  "blind l f \<longleftrightarrow>
     (\<forall>ps s. conn_loop (snd s) = l \<longrightarrow> f (requeue ps s) = map_sum id (requeue ps) (f s) \<and>
        keeps (\<lambda>s s'. conn_loop (snd s') = l) s (f s))"

definition conn_blind :: "('x connection \<Rightarrow> 'x connection result) \<Rightarrow> bool" where
  "conn_blind f \<longleftrightarrow>
     (\<forall>ps c. f (c\<lparr>posted := ps\<rparr>) = map_sum id (\<lambda>c'. c'\<lparr>posted := ps\<rparr>) (f c) \<and>
        keeps (\<lambda>c c'. conn_loop c' = conn_loop c) c (f c))"

text \<open>The queue is moved to the outside of the updates of the other fields.\<close>

lemma posted_outside:
  "c\<lparr>posted := ps, channel := ch\<rparr> = c\<lparr>channel := ch, posted := ps\<rparr>"
  "c\<lparr>posted := ps, sock := so\<rparr> = c\<lparr>sock := so, posted := ps\<rparr>"
  "c\<lparr>posted := ps, output_buffer := b\<rparr> = c\<lparr>output_buffer := b, posted := ps\<rparr>"
  "c\<lparr>posted := ps, in_buffer := b\<rparr> = c\<lparr>in_buffer := b, posted := ps\<rparr>"
  "c\<lparr>posted := ps, conn_state := st\<rparr> = c\<lparr>conn_state := st, posted := ps\<rparr>"
  "c\<lparr>posted := ps, conn_context := x\<rparr> = c\<lparr>conn_context := x, posted := ps\<rparr>"
  by simp_all

lemma map_sum_bindE: "map_sum id h (bindE m f) = bindE m (\<lambda>x. map_sum id h (f x))"
  by (cases m) simp_all

lemma bindE_map_sum: "bindE (map_sum id h m) f = bindE m (\<lambda>x. f (h x))"
  by (cases m) simp_all

lemma blindD:
  assumes "blind l f" and "conn_loop (snd s) = l"
  shows "f (requeue ps s) = map_sum id (requeue ps) (f s)"
    and "keeps (\<lambda>s s'. conn_loop (snd s') = l) s (f s)"
proof -
  note b = assms(1) [unfolded blind_def, THEN spec [of _ ps], THEN spec [of _ s], THEN mp, OF assms(2)]
  show "f (requeue ps s) = map_sum id (requeue ps) (f s)" by (rule conjunct1 [OF b])
  show "keeps (\<lambda>s s'. conn_loop (snd s') = l) s (f s)" by (rule conjunct2 [OF b])
qed

lemma blindI:
  assumes "\<And>ps s. conn_loop (snd s) = l \<Longrightarrow> f (requeue ps s) = map_sum id (requeue ps) (f s)"
    and "\<And>s s'. conn_loop (snd s) = l \<Longrightarrow> f s = Inr s' \<Longrightarrow> conn_loop (snd s') = l"
  shows "blind l f"
  unfolding blind_def keeps_def using assms by (simp del: split_paired_All)

lemma blind_Inr [intro]: "blind l Inr"
  by (simp add: blind_def)

lemma blind_bind [intro]:
  assumes "blind l f" and "blind l g"
  shows "blind l (\<lambda>s. bindE (f s) g)"
proof (rule blindI)
  fix ps and s :: "'a \<times> 'b connection"
  assume s: "conn_loop (snd s) = l"
  show "bindE (f (requeue ps s)) g = map_sum id (requeue ps) (bindE (f s) g)"
  proof (cases "f s")
    case (Inl e)
    then show ?thesis by (simp add: blindD(1) [OF assms(1) s])
  next
    case (Inr s1)
    then have "conn_loop (snd s1) = l" using blindD(2) [OF assms(1) s] by simp
    from blindD(1) [OF assms(2) this] Inr show ?thesis by (simp add: blindD(1) [OF assms(1) s])
  qed
next
  fix s s' :: "'a \<times> 'b connection"
  assume s: "conn_loop (snd s) = l" and "bindE (f s) g = Inr s'"
  then obtain s1 where s1: "f s = Inr s1" "g s1 = Inr s'" by (auto elim: bindE_InrE)
  then have "conn_loop (snd s1) = l" using blindD(2) [OF assms(1) s] by simp
  from blindD(2) [OF assms(2) this] s1 show "conn_loop (snd s') = l" by simp
qed

lemma blind_if [intro]:
  assumes "blind l f" and "blind l g" and "\<And>ps s. P (requeue ps s) \<longleftrightarrow> P s"
  shows "blind l (\<lambda>s. if P s then f s else g s)"
proof (rule blindI)
  show "(if P (requeue ps s) then f (requeue ps s) else g (requeue ps s)) =
      map_sum id (requeue ps) (if P s then f s else g s)" if "conn_loop (snd s) = l" for ps s
    using blindD(1) [OF assms(1) that, of ps] blindD(1) [OF assms(2) that, of ps] by (cases "P s") (simp_all only: assms(3) if_True if_False)
  show "conn_loop (snd s') = l" if "conn_loop (snd s) = l" "(if P s then f s else g s) = Inr s'" for s s'
    using blindD(2) [OF assms(1) that(1)] blindD(2) [OF assms(2) that(1)] that(2) by (simp split: if_splits)
qed

lemma blind_conn [intro]:
  assumes "conn_blind f"
  shows "blind l (\<lambda>s. bindE (f (snd s)) (\<lambda>c. Inr (fst s, c)))"
  unfolding blind_def
proof (intro allI impI conjI)
  fix ps and s :: "'b \<times> 'a connection"
  show "bindE (f (snd (requeue ps s))) (\<lambda>c. Inr (fst (requeue ps s), c)) =
      map_sum id (requeue ps) (bindE (f (snd s)) (\<lambda>c. Inr (fst s, c)))"
    using assms by (simp add: conn_blind_def bindE_map_sum map_sum_bindE)
  assume "conn_loop (snd s) = l"
  then show "keeps (\<lambda>s s'. conn_loop (snd s') = l) s (bindE (f (snd s)) (\<lambda>c. Inr (fst s, c)))"
    using assms by (auto simp: conn_blind_def keeps_def bindE_eq_Inr)
qed

lemma conn_blindD:
  assumes "conn_blind f"
  shows "f (c\<lparr>posted := ps\<rparr>) = map_sum id (\<lambda>c'. c'\<lparr>posted := ps\<rparr>) (f c)"
    and "f c = Inr c' \<Longrightarrow> conn_loop c' = conn_loop c"
  using assms by (simp_all add: conn_blind_def keeps_def)

lemma on_channel_blind [intro]: "conn_blind (on_channel f k here)"
  by (auto simp: conn_blind_def on_channel_def map_sum_bindE keeps_def bindE_eq_Inr posted_outside)

lemma send_in_loop_blind [intro]: "conn_blind (send_in_loop k here d :: 'x connection \<Rightarrow> 'x connection result)"
proof -
  define pend where "pend n c = (if n < length d
      then bindE (append (drop n d) (output_buffer c)) (\<lambda>b.
           let c2 = c\<lparr>output_buffer := b\<rparr>
           in if \<not> is_writing (channel c2) then on_channel enable_writing k here c2 else Inr c2)
      else Inr c)" for n and c :: "'x connection"
  define wr where "wr c = (if \<not> is_writing (channel c) \<and> readable_bytes (output_buffer c) = 0
      then (case on_socket k d c of (WriteOk n, c') \<Rightarrow> (n, c') | (WriteErr _, c') \<Rightarrow> (0, c')) else (0, c))"
    for c :: "'x connection"
  have eq: "send_in_loop k here d c = bindE (assertE here) (\<lambda>_.
      if conn_state c = kDisconnected then Inr c else pend (fst (wr c)) (snd (wr c)))" for c :: "'x connection"
    by (simp only: send_in_loop_def pend_def wr_def case_prod_unfold Let_def)
  have pend: "pend n (c\<lparr>posted := ps\<rparr>) = map_sum id (\<lambda>c'. c'\<lparr>posted := ps\<rparr>) (pend n c)" for n ps and c :: "'x connection"
    by (cases "append (drop n d) (output_buffer c)"; cases "is_writing (channel c)")
      (simp_all add: pend_def posted_outside conn_blindD(1) [OF on_channel_blind] Let_def)
  have wr: "wr (c\<lparr>posted := ps\<rparr>) = (fst (wr c), (snd (wr c))\<lparr>posted := ps\<rparr>)" for ps and c :: "'x connection"
    by (cases "k_write k (calls (sock c)) d") (simp_all add: wr_def on_socket_def sock_write_def posted_outside)
  have "send_in_loop k here d (c\<lparr>posted := ps\<rparr>) = map_sum id (\<lambda>c'. c'\<lparr>posted := ps\<rparr>) (send_in_loop k here d c)"
    for ps and c :: "'x connection"
  proof -
    have st: "conn_state (c\<lparr>posted := ps\<rparr>) = conn_state c" by simp
    have dist: "map_sum id h (if P then Inr x else y) = (if P then Inr (h x) else map_sum id h y)"
      for h :: "'x connection \<Rightarrow> 'x connection" and P and x and y :: "'x connection result"
      by simp
    show ?thesis unfolding eq st wr fst_conv snd_conv pend map_sum_bindE dist ..
  qed
  moreover have "conn_loop c' = conn_loop c" if "send_in_loop k here d c = Inr c'" for c c' :: "'x connection"
    using send_in_loop_frame [OF that] by (simp add: same_frame_def)
  ultimately show ?thesis unfolding conn_blind_def keeps_def by blast
qed

section \<open>Tasks that do not look at the queue\<close>

text \<open>The contract of a callback for connections of the loop \<open>l\<close>: it neither reads nor changes the
  tasks that are queued.\<close>

definition blind_user :: "nat \<Rightarrow> ('u, 'x) user_callbacks \<Rightarrow> bool" where
  "blind_user l ucbs \<longleftrightarrow>
     (\<forall>conn. blind l (run_callback (user_connection ucbs conn)) \<and>
             blind l (run_callback (user_message ucbs conn)))"

locale loop_user =
  fixes l :: nat
    and base :: nat
    and ucbs :: "('u, 'x) user_callbacks"
  assumes other_loop: "l \<noteq> base"
    and user_blind: "blind_user l ucbs"
begin

abbreviation cbs :: "nat \<Rightarrow> ('u shared, 'x) conn_callbacks" where
  "cbs conn \<equiv> server_callbacks base ucbs conn"

lemma callbacks_blind:
  "blind l (run_callback (connection_cb (cbs conn)))" "blind l (run_callback (close_cb (cbs conn)))"
proof -
  show "blind l (run_callback (connection_cb (cbs conn)))"
    using user_blind by (simp add: blind_user_def server_callbacks_def)
  have "run_callback (close_cb (cbs conn)) s = Inr ((fst s)\<lparr>removals := removals (fst s) @ [conn]\<rparr>, snd s)"
    if "conn_loop (snd s) = l" for s
    using that other_loop
    by (simp add: server_callbacks_def run_callback_def call_if_set_def remove_connection_def)
  then show "blind l (run_callback (close_cb (cbs conn)))"
    by (intro blindI) auto
qed

lemma close_blind:
  "blind l (\<lambda>s. bindE (if \<not> has_none_events (channel (set_state kDisconnected (snd s)))
     then on_channel disable_all k True (set_state kDisconnected (snd s))
     else Inr (set_state kDisconnected (snd s))) (\<lambda>c. Inr (fst s, c)))"
proof (rule blind_conn)
  show "conn_blind (\<lambda>c. if \<not> has_none_events (channel (set_state kDisconnected c))
     then on_channel disable_all k True (set_state kDisconnected c) else Inr (set_state kDisconnected c))"
    using conn_blindD(2) [OF on_channel_blind]
    by (auto simp: conn_blind_def keeps_def set_state_def posted_outside conn_blindD(1) [OF on_channel_blind]
        dest!: conn_blindD(2) [OF on_channel_blind])
qed

lemma handle_close_blind: "blind l (handle_close k (cbs conn) True)"
proof -
  let ?open = "\<lambda>s. if conn_state (snd s) = kConnected \<or> conn_state (snd s) = kDisconnecting
      then Inr s else Inl AssertFailure"
  have "handle_close k (cbs conn) True = (\<lambda>s. bindE (?open s) (\<lambda>s.
      bindE (bindE (if \<not> has_none_events (channel (set_state kDisconnected (snd s)))
         then on_channel disable_all k True (set_state kDisconnected (snd s))
         else Inr (set_state kDisconnected (snd s))) (\<lambda>c. Inr (fst s, c)))
       (\<lambda>s. bindE (run_callback (connection_cb (cbs conn)) s) (run_callback (close_cb (cbs conn))))))"
    by (rule ext) (simp add: handle_close_def bindE_assertE bindE_assoc Let_def)
  moreover have "blind l ?open" by (rule blindI) (simp_all split: if_splits)
  ultimately show ?thesis
    using close_blind callbacks_blind by (simp only:) (intro blind_bind)
qed

lemma run_conn_task_blind: "blind l (run_conn_task k (cbs conn) t)"
proof (cases t)
  case EstablishTask
  let ?ready = "\<lambda>s. if conn_state (snd s) = kConnecting then Inr s else Inl AssertFailure"
  have "run_conn_task k (cbs conn) t = (\<lambda>s. bindE (?ready s) (\<lambda>s.
      bindE (bindE (on_channel enable_reading k True (set_state kConnected (snd s))) (\<lambda>c. Inr (fst s, c)))
       (run_callback (connection_cb (cbs conn)))))"
    by (rule ext) (simp add: EstablishTask established_def bindE_assertE bindE_assoc)
  moreover have "blind l ?ready" by (rule blindI) (simp_all split: if_splits)
  moreover have "conn_blind (\<lambda>c. on_channel enable_reading k True (set_state kConnected c))"
    using conn_blindD(2) [OF on_channel_blind]
    by (auto simp: conn_blind_def keeps_def set_state_def posted_outside conn_blindD(1) [OF on_channel_blind]
        dest!: conn_blindD(2) [OF on_channel_blind])
  ultimately show ?thesis
    using callbacks_blind by (simp only:) (intro blind_bind blind_conn)
next
  case (SendTask d)
  have "run_conn_task k (cbs conn) t = (\<lambda>s. bindE (send_in_loop k True d (snd s)) (\<lambda>c. Inr (fst s, c)))"
    by (rule ext) (simp add: SendTask)
  then show ?thesis by (simp only:) (rule blind_conn [OF send_in_loop_blind])
next
  case ShutdownTask
  show ?thesis
    by (rule blindI) (auto simp: ShutdownTask shutdown_task_def posted_outside)
next
  case ForceCloseTask
  have "run_conn_task k (cbs conn) t = (\<lambda>s. if conn_state (snd s) = kConnected \<or> conn_state (snd s) = kDisconnecting
      then handle_close k (cbs conn) True s else Inr s)"
    by (rule ext) (simp add: ForceCloseTask force_close_task_def)
  then show ?thesis
    using handle_close_blind by (simp only:) (intro blind_if blind_Inr, simp_all)
next
  case DestroyTask
  have "run_conn_task k (cbs conn) t = (\<lambda>s. if conn_state (snd s) = kConnected
      then bindE (bindE (if \<not> has_none_events (channel (set_state kDisconnected (snd s)))
         then on_channel disable_all k True (set_state kDisconnected (snd s))
         else Inr (set_state kDisconnected (snd s))) (\<lambda>c. Inr (fst s, c)))
       (run_callback (connection_cb (cbs conn))) else Inr s)"
    by (rule ext) (simp add: DestroyTask destroyed_def bindE_assertE bindE_assoc Let_def)
  then show ?thesis
    using close_blind callbacks_blind by (simp only:) (intro blind_if blind_bind blind_Inr, simp_all)
qed

end

section \<open>The queue of a loop\<close>

text \<open>The tasks of the queue that belong to a connection, and the events of \<open>Tcp_Server\<close> that stand
  for running the queue. What a timer's task does is not an event of the server.\<close>

fun tasks_of :: "nat \<Rightarrow> (nat \<times> conn_task) loop_task list \<Rightarrow> conn_task list" where
  "tasks_of conn [] = []"
| "tasks_of conn (UserTask ct # q) = (if fst ct = conn then snd ct # tasks_of conn q else tasks_of conn q)"
| "tasks_of conn (InsertTimer w a # q) = tasks_of conn q"

fun posted_events :: "(nat \<times> conn_task) loop_task list \<Rightarrow> server_event list" where
  "posted_events [] = []"
| "posted_events (UserTask ct # q) = OnConnection (fst ct) RunPosted # posted_events q"
| "posted_events (InsertTimer w a # q) = posted_events q"

text \<open>Running a task of the queue: \<open>conn->established()\<close>, \<open>send_in_loop\<close> and so on.\<close>

definition run_on_loop ::
    "(nat \<Rightarrow> kernel) \<Rightarrow> ('u, 'x) user_callbacks \<Rightarrow> (nat \<times> conn_task, 'k, ('u, 'x) server) exec" where
  "run_on_loop k ucbs ct st =
     (let (conn, t) = ct; (el, s) = st in
      case alive s conn of
        None \<Rightarrow> Inl UseAfterFree
      | Some c \<Rightarrow>
          bindE (run_conn_task (k conn) (server_callbacks (server_loop s) ucbs conn) t (server_shared s, c))
            (\<lambda>(w, c'). Inr (el, s\<lparr>server_shared := w, alive := (alive s)(conn \<mapsto> c')\<rparr>)))"

text \<open>The server as \<open>Tcp_Server\<close> sees it: the tasks in the loop's queue are those posted to the
  loop's connections.\<close>

definition with_queue ::
    "nat \<Rightarrow> (nat \<times> conn_task) loop_task list \<Rightarrow> ('u, 'x) server \<Rightarrow> ('u, 'x) server" where
  "with_queue l q s =
     s\<lparr>alive := (\<lambda>conn. map_option
        (\<lambda>c. if conn_loop c = l then c\<lparr>posted := tasks_of conn q\<rparr> else c) (alive s conn))\<rparr>"

fun at_home :: "nat \<Rightarrow> ('u, 'x) server \<Rightarrow> (nat \<times> conn_task) loop_task \<Rightarrow> bool" where
  "at_home l s (UserTask ct) \<longleftrightarrow> (case alive s (fst ct) of None \<Rightarrow> False | Some c \<Rightarrow> conn_loop c = l)"
| "at_home l s (InsertTimer w a) \<longleftrightarrow> True"

lemma with_queue_append:
  "with_queue l (q @ [UserTask (conn, t)]) s =
    (with_queue l q s)\<lparr>alive := (alive (with_queue l q s))(conn :=
       map_option (\<lambda>c. if conn_loop c = l then post t c else c) (alive (with_queue l q s) conn))\<rparr>"
proof -
  have "tasks_of j (q @ [UserTask (conn, t)]) = tasks_of j q @ (if j = conn then [t] else [])" for j
    by (induction j q rule: tasks_of.induct) auto
  then show ?thesis
    by (auto simp: with_queue_def post_def fun_eq_iff map_option_case split: option.splits)
qed

context loop_user
begin

lemma run_head:
  assumes "at_home l s (UserTask (conn, t))" and "server_loop s = base"
  shows "server_step k ucbs x0 (OnConnection conn RunPosted) (with_queue l (UserTask (conn, t) # q) s) =
      map_sum id (\<lambda>(el', s'). with_queue l q s') (run_on_loop k ucbs (conn, t) (el, s))"
    and "run_on_loop k ucbs (conn, t) (el, s) = Inr (el', s') \<Longrightarrow>
      el' = el \<and> server_loop s' = base \<and> (\<forall>x. at_home l s x \<longrightarrow> at_home l s' x)"
proof -
  obtain c where c: "alive s conn = Some c" "conn_loop c = l"
    using assms(1) by (auto split: option.splits)
  let ?r = "run_conn_task (k conn) (cbs conn) t (server_shared s, c)"
  have eq: "run_on_loop k ucbs (conn, t) (el, s) =
      bindE ?r (\<lambda>(w, c'). Inr (el, s\<lparr>server_shared := w, alive := (alive s)(conn \<mapsto> c')\<rparr>))"
    by (simp add: run_on_loop_def c(1) assms(2))
  have "conn_loop (snd (server_shared s, c)) = l" by (simp add: c(2))
  note b = blindD [OF run_conn_task_blind this, of "k conn" conn t]
  let ?ps = "tasks_of conn q"
  have run: "server_step k ucbs x0 (OnConnection conn RunPosted) (with_queue l (UserTask (conn, t) # q) s) =
      bindE (map_sum id (requeue ?ps) ?r) (\<lambda>(w, c'). Inr ((with_queue l (UserTask (conn, t) # q) s)
        \<lparr>server_shared := w, alive := (alive (with_queue l (UserTask (conn, t) # q) s))(conn \<mapsto> c')\<rparr>))"
    using b(1) [of ?ps] by (simp add: with_queue_def c assms(2))
  show "server_step k ucbs x0 (OnConnection conn RunPosted) (with_queue l (UserTask (conn, t) # q) s) =
      map_sum id (\<lambda>(el', s'). with_queue l q s') (run_on_loop k ucbs (conn, t) (el, s))"
  proof (cases ?r)
    case (Inl e)
    then show ?thesis unfolding run eq by simp
  next
    case (Inr r)
    obtain w c' where r: "r = (w, c')" by (cases r)
    have "conn_loop c' = l" using b(2) Inr r by simp
    then have "(alive (with_queue l (UserTask (conn, t) # q) s))(conn \<mapsto> c'\<lparr>posted := ?ps\<rparr>) =
        alive (with_queue l q (s\<lparr>alive := (alive s)(conn \<mapsto> c')\<rparr>))"
      by (intro ext) (simp add: with_queue_def cong: if_cong)
    then show ?thesis
      unfolding run eq by (simp add: Inr r with_queue_def)
  qed
  assume "run_on_loop k ucbs (conn, t) (el, s) = Inr (el', s')"
  then obtain w c' where r: "?r = Inr (w, c')" "el' = el"
    "s' = s\<lparr>server_shared := w, alive := (alive s)(conn \<mapsto> c')\<rparr>"
    by (auto simp: eq bindE_eq_Inr)
  have "conn_loop c' = l" using b(2) r(1) by simp
  then have "at_home l s' x" if "at_home l s x" for x
    using that by (cases x) (simp_all add: r(3))
  with r(2,3) assms(2) show "el' = el \<and> server_loop s' = base \<and> (\<forall>x. at_home l s x \<longrightarrow> at_home l s' x)"
    by simp
qed

lemma run_queue:
  "list_all (at_home l s) q \<Longrightarrow> server_loop s = base \<Longrightarrow>
   foldE (server_step k ucbs x0) (posted_events q) (with_queue l q s) =
     map_sum id (\<lambda>(el', s'). with_queue l [] s') (foldE (run_task (run_on_loop k ucbs) now) q (el, s))"
proof (induction q arbitrary: el s)
  case Nil
  then show ?case by simp
next
  case (Cons x q)
  show ?case
  proof (cases x)
    case (InsertTimer w a)
    let ?el = "el\<lparr>loop_timers := insert_timer now w a (loop_timers el)\<rparr>"
    have same: "with_queue l (x # q) s = with_queue l q s"
      by (simp add: with_queue_def InsertTimer cong: if_cong)
    have first: "foldE (run_task (run_on_loop k ucbs) now) (x # q) (el, s) =
        foldE (run_task (run_on_loop k ucbs) now) q (?el, s)" "posted_events (x # q) = posted_events q"
      by (simp_all add: InsertTimer)
    have "list_all (at_home l s) q" using Cons.prems(1) by simp
    from Cons.IH [OF this Cons.prems(2), of ?el] show ?thesis unfolding same first .
  next
    case (UserTask ct)
    obtain conn t where ct: "ct = (conn, t)" by (cases ct)
    have home: "at_home l s (UserTask (conn, t))" using Cons.prems(1) by (simp add: UserTask ct)
    note head = run_head [OF home Cons.prems(2)]
    have first: "foldE (run_task (run_on_loop k ucbs) now) (x # q) (el, s) =
        bindE (run_on_loop k ucbs (conn, t) (el, s)) (foldE (run_task (run_on_loop k ucbs) now) q)"
      "posted_events (x # q) = OnConnection conn RunPosted # posted_events q"
      by (simp_all add: UserTask ct)
    show ?thesis
    proof (cases "run_on_loop k ucbs (conn, t) (el, s)")
      case (Inl e)
      then show ?thesis using head(1) [of k x0 q el] unfolding first by (simp add: UserTask ct)
    next
      case (Inr r)
      obtain s1 where r: "r = (el, s1)" "server_loop s1 = base" "\<And>x. at_home l s x \<Longrightarrow> at_home l s1 x"
        using head(2) [of k el "fst r" "snd r"] Inr by (cases r) auto
      have "list_all (at_home l s1) q"
        using Cons.prems(1) r(3) by (auto simp: list_all_iff)
      from Cons.IH [OF this r(2), of el] head(1) [of k x0 q el] Inr show ?thesis
        unfolding first by (simp add: UserTask ct r(1) del: server_step.simps)
    qed
  qed
qed

end

lemma run_queue_keeps:
  "foldE (run_task (run_on_loop k ucbs) now) q (el, s) = Inr (el', s') \<Longrightarrow>
   thread_id el' = thread_id el \<and> pending_tasks el' = pending_tasks el"
proof (induction q arbitrary: el s)
  case Nil
  then show ?case by simp
next
  case (Cons x q)
  then obtain el1 s1 where one: "run_task (run_on_loop k ucbs) now x (el, s) = Inr (el1, s1)"
    and rest: "foldE (run_task (run_on_loop k ucbs) now) q (el1, s1) = Inr (el', s')"
    by (auto simp: bindE_eq_Inr)
  have "thread_id el1 = thread_id el \<and> pending_tasks el1 = pending_tasks el"
    using one by (cases x) (auto simp: run_on_loop_def bindE_eq_Inr split: option.splits prod.splits)
  with Cons.IH [OF rest] show ?case by simp
qed

text \<open>The callbacks of the HTTP server keep to the contract.\<close>

lemma send_data_blind: "conn_blind (send_data k True d :: 'x connection \<Rightarrow> 'x connection result)"
  using conn_blindD [OF send_in_loop_blind [of k True d]]
  by (auto simp: conn_blind_def keeps_def send_data_def)

lemma shutdown_requeued: "shutdown k True (c\<lparr>posted := ps\<rparr>) = (shutdown k True c)\<lparr>posted := ps\<rparr>"
  by (simp add: shutdown_def shutdown_task_def set_state_def posted_outside Let_def)

lemma refuse_blind: "conn_blind (refuse order k)"
proof -
  have eq: "refuse order k c = bindE (error_message_with order k400BadRequest (new_response True)) (\<lambda>(buf, _).
      bindE (send_data k True (contents buf) c) (\<lambda>c1. Inr (shutdown k True c1)))" for c
    by (simp add: refuse_def send_buffer_eq)
  have "refuse order k (c\<lparr>posted := ps\<rparr>) = map_sum id (\<lambda>c'. c'\<lparr>posted := ps\<rparr>) (refuse order k c)" for ps c
    unfolding eq
    by (cases "error_message_with order k400BadRequest (new_response True)")
      (simp_all add: case_prod_unfold conn_blindD(1) [OF send_data_blind] map_sum_bindE bindE_map_sum shutdown_requeued)
  moreover have "conn_loop c' = conn_loop c" if "refuse order k c = Inr c'" for c c'
    using refuse_calm [OF that] by (simp add: calm_def)
  ultimately show ?thesis unfolding conn_blind_def keeps_def by blast
qed

lemma respond_blind: "conn_blind (respond order k file ctx)"
proof -
  let ?a = "analyse order (opens file) (st_size file) (reads file) (request ctx)
      (set_status_code k200Ok (new_response (is_close_connection (request ctx))))"
  have "respond order k file ctx (c\<lparr>posted := ps\<rparr>) = map_sum id (\<lambda>c'. c'\<lparr>posted := ps\<rparr>) (respond order k file ctx c)"
    for ps c
  proof (cases ?a)
    case (Inl e)
    then show ?thesis by (simp add: respond_def Let_def)
  next
    case (Inr a)
    show ?thesis
    proof (cases a)
      case (Responded b r d)
      show ?thesis
        by (cases "close_connection r") (simp_all add: Inr [unfolded Responded] respond_def
            conn_blindD(1) [OF send_data_blind] map_sum_bindE bindE_map_sum shutdown_requeued
            set_context_def posted_outside Let_def)
    next
      case (Reading b r)
      show ?thesis by (simp add: Inr [unfolded Reading] respond_def Let_def)
    qed
  qed
  moreover have "conn_loop c' = conn_loop c" if "respond order k file ctx c = Inr c'" for c c'
    using respond_calm [OF that] by (simp add: calm_def)
  ultimately show ?thesis unfolding conn_blind_def keeps_def by blast
qed

lemma on_message_blind: "blind l (on_message order k files)"
proof (rule blindI)
  show "conn_loop (snd s') = l" if "conn_loop (snd s) = l" "on_message order k files s = Inr s'" for s s'
    using that on_message_once [of undefined "fst s" "snd s" order k files]
    by (simp add: keeps_def closes_once_def)
  show "on_message order k files (requeue ps s) = map_sum id (requeue ps) (on_message order k files s)" for ps s
  proof (cases "conn_context (snd s)")
    case None
    then show ?thesis by (simp add: on_message_def)
  next
    case (Some ctx)
    show ?thesis
    proof (cases "parse_request (in_buffer (snd s)) ctx")
      case (Inl e)
      with Some show ?thesis by (simp add: on_message_def)
    next
      case (Inr r)
      obtain ok b ctx1 where r: "r = (ok, b, ctx1)" by (cases r) auto
      let ?c1 = "(snd s)\<lparr>in_buffer := b, conn_context := Some ctx1\<rparr>"
      show ?thesis
        by (cases ok; cases "parsing_completed ctx1"; cases "refuse order k ?c1")
          (simp_all add: on_message_def Some Inr r posted_outside map_sum_bindE bindE_map_sum
            conn_blindD(1) [OF refuse_blind] conn_blindD(1) [OF respond_blind] Let_def)
    qed
  qed
qed

lemma run_callback_Some: "run_callback (Some f) = f"
  by (rule ext) (simp add: run_callback_def call_if_set_def)

lemma http_user_blind: "blind_user l (http_user order k files)"
proof -
  have "blind l http_connection_callback"
    by (rule blindI) (auto simp: http_connection_callback_def is_connected_def set_context_def posted_outside)
  with on_message_blind show ?thesis
    by (simp add: blind_user_def http_user_def run_callback_Some)
qed

interpretation http_worker: loop_user 1 0 "http_user order k files" for order k files
  by unfold_locales (simp_all add: http_user_blind)

section \<open>Properties\<close>

text \<open>The loop's queue implements the queues of the connections. \<open>do_pending_tasks\<close> on a queue of
  connection tasks (among timer tasks) does to the server exactly what the steps of \<open>Tcp_Server\<close>
  do that run one posted task for each, in the same order, and ends the process when they do;
  \<open>queue_in_loop\<close> from any thread posts the task to its connection.\<close>

theorem loop_implements_posted_tasks:
  assumes "thread_id el \<noteq> server_loop s" and "blind_user (thread_id el) ucbs"
    and "list_all (at_home (thread_id el) s) (pending_tasks el)"
  shows "map_sum id (\<lambda>(el', s'). with_queue (thread_id el') (pending_tasks el') s')
      (do_pending_tasks (run_on_loop k ucbs) now (el, s)) =
    foldE (server_step k ucbs x0) (posted_events (pending_tasks el))
      (with_queue (thread_id el) (pending_tasks el) s) \<and>
    with_queue (thread_id el) (pending_tasks (queue_in_loop efd caller (UserTask (conn, t)) el)) s =
      (let a = with_queue (thread_id el) (pending_tasks el) s in
       a\<lparr>alive := (alive a)(conn :=
         map_option (\<lambda>c. if conn_loop c = thread_id el then post t c else c) (alive a conn))\<rparr>)"
proof
  have user: "loop_user (thread_id el) (server_loop s) ucbs" using assms(1,2) by unfold_locales
  let ?el = "el\<lparr>pending_tasks := [], doing_pending_tasks := True\<rparr>"
  let ?r = "foldE (run_task (run_on_loop k ucbs) now) (pending_tasks el) (?el, s)"
  have run: "foldE (server_step k ucbs x0) (posted_events (pending_tasks el))
      (with_queue (thread_id el) (pending_tasks el) s) =
    map_sum id (\<lambda>(el', s'). with_queue (thread_id el) [] s') ?r"
    by (rule loop_user.run_queue [OF user assms(3) refl])
  have pending: "do_pending_tasks (run_on_loop k ucbs) now (el, s) =
      bindE ?r (\<lambda>st'. Inr ((fst st')\<lparr>doing_pending_tasks := False\<rparr>, snd st'))"
    by (simp add: do_pending_tasks_def take_pending_def Let_def)
  show "map_sum id (\<lambda>(el', s'). with_queue (thread_id el') (pending_tasks el') s')
      (do_pending_tasks (run_on_loop k ucbs) now (el, s)) =
    foldE (server_step k ucbs x0) (posted_events (pending_tasks el))
      (with_queue (thread_id el) (pending_tasks el) s)"
  proof (cases ?r)
    case (Inl e)
    then show ?thesis unfolding run pending by simp
  next
    case (Inr st)
    obtain el' s' where st: "st = (el', s')" by (cases st)
    from run_queue_keeps [of k ucbs now "pending_tasks el" ?el s el' s'] Inr st
    show ?thesis unfolding run pending by simp
  qed
  have "pending_tasks (queue_in_loop efd caller (UserTask (conn, t)) el) = pending_tasks el @ [UserTask (conn, t)]"
    by (simp add: queue_in_loop_def wakeup_if_needed_def wakeup_def push_task_def)
  then show "with_queue (thread_id el) (pending_tasks (queue_in_loop efd caller (UserTask (conn, t)) el)) s =
      (let a = with_queue (thread_id el) (pending_tasks el) s in
       a\<lparr>alive := (alive a)(conn :=
         map_option (\<lambda>c. if conn_loop c = thread_id el then post t c else c) (alive a conn))\<rparr>)"
    by (simp add: with_queue_append Let_def)
qed

theorem loop_implements_posted_tasks_witness:
  "\<exists>(el :: (nat \<times> conn_task, nat) event_loop) s.
    event_loop_ctor 1 False 3 4 (0 :: nat) True True = Inr el \<and>
    http_server_ctor 0 5 True zero_sockaddr = Inr s \<and>
    (let user = http_user rev (\<lambda>_. slow_kernel) (\<lambda>_ _. missing_file);
         el1 = queue_in_loop counter_eventfd 0 (UserTask (0, SendTask ''x''))
                 (queue_in_loop counter_eventfd 0 (UserTask (0, EstablishTask)) el);
         s1 = s\<lparr>alive := [0 \<mapsto> tcp_connection_ctor 1 7 zero_sockaddr None]\<rparr>
     in pending_tasks el1 = [UserTask (0, EstablishTask), UserTask (0, SendTask ''x'')] \<and>
        map_sum id (\<lambda>(el', s'). with_queue (thread_id el') (pending_tasks el') s')
          (do_pending_tasks (run_on_loop (\<lambda>_. slow_kernel) user) 9 (el1, s1)) =
        foldE (server_step (\<lambda>_. slow_kernel) user None) [OnConnection 0 RunPosted, OnConnection 0 RunPosted]
          (with_queue (thread_id el1) (pending_tasks el1) s1))"
proof -
  let ?user = "http_user rev (\<lambda>_. slow_kernel) (\<lambda>_ _. missing_file)"
  obtain el :: "(nat \<times> conn_task, nat) event_loop"
    where el: "event_loop_ctor 1 False 3 4 (0 :: nat) True True = Inr el"
    by (simp add: event_loop_ctor_def timer_queue_ctor_def enable_reading_eq)
  then have idle: "pending_tasks el = []" "thread_id el = 1"
    by (auto simp: event_loop_ctor_def split: if_splits elim!: bindE_InrE)
  obtain s :: "(http_state, http_context option) server"
    where s: "http_server_ctor 0 5 True zero_sockaddr = Inr s"
    by (simp add: http_server_ctor_def server_ctor_def pool_ctor_def kNumThreads_def)
  then have base: "server_loop s = 0"
    by (auto simp: http_server_ctor_def server_ctor_def elim!: bindE_InrE)
  let ?el1 = "queue_in_loop counter_eventfd 0 (UserTask (0, SendTask ''x''))
      (queue_in_loop counter_eventfd 0 (UserTask (0, EstablishTask)) el)"
  let ?s1 = "s\<lparr>alive := [0 \<mapsto> tcp_connection_ctor 1 7 zero_sockaddr None]\<rparr>"
  have q: "pending_tasks ?el1 = [UserTask (0, EstablishTask), UserTask (0, SendTask ''x'')]" "thread_id ?el1 = 1"
    by (simp_all add: queue_in_loop_def wakeup_if_needed_def wakeup_def push_task_def idle)
  have "thread_id ?el1 \<noteq> server_loop ?s1" "blind_user (thread_id ?el1) ?user"
    "list_all (at_home (thread_id ?el1) ?s1) (pending_tasks ?el1)"
    by (simp_all add: q base http_user_blind tcp_connection_ctor_def)
  note conjunct1 [OF loop_implements_posted_tasks [OF this, where k = "\<lambda>_. slow_kernel" and now = 9 and ?x0.0 = None]]
  with el s q show ?thesis
    by (intro exI [of _ el] exI [of _ s]) (simp only: Let_def posted_events.simps fst_conv)
qed

end
