(* ===== verification/Outbox.thy ===== *)
theory Outbox
  imports Io_Loop
begin

text \<open>
  What the operations of a connection add to the queues of loops. \<open>queue_in_loop\<close> is modelled in
  \<open>Tcp_Connection\<close> and \<open>Tcp_Server\<close> as adding to \<open>posted\<close> and \<open>removals\<close>; here it is shown that the
  operations of \<open>tcp_connection.cpp\<close> only ever add to these two and never look at them, so that
  the two fields can be read as the calls of \<open>queue_in_loop\<close> that an operation makes.
\<close>

section \<open>Operations that only add to the queues\<close>

text \<open>The state with older tasks in front.\<close>

definition behind :: "nat list \<Rightarrow> conn_task list \<Rightarrow> 'u shared \<times> 'x connection \<Rightarrow> 'u shared \<times> 'x connection" where
  "behind rs ps s =
     ((fst s)\<lparr>removals := rs @ removals (fst s)\<rparr>, (snd s)\<lparr>posted := ps @ posted (snd s)\<rparr>)"

definition outbox_only :: "('u shared \<times> 'x connection \<Rightarrow> ('u shared \<times> 'x connection) result) \<Rightarrow> bool" where
  "outbox_only f \<longleftrightarrow>
     (\<forall>rs ps s. f (behind rs ps s) = map_sum id (behind rs ps) (f s)) \<and>
     (\<forall>s s'. f s = Inr s' \<longrightarrow> conn_loop (snd s') = conn_loop (snd s))"

lemma behind_simps [simp]:
  "fst (behind rs ps s) = (fst s)\<lparr>removals := rs @ removals (fst s)\<rparr>"
  "snd (behind rs ps s) = (snd s)\<lparr>posted := ps @ posted (snd s)\<rparr>"
  "behind rs ps (w, c) = (w\<lparr>removals := rs @ removals w\<rparr>, c\<lparr>posted := ps @ posted c\<rparr>)"
  by (simp_all add: behind_def)

lemma outboxD:
  assumes "outbox_only f"
  shows "f (behind rs ps s) = map_sum id (behind rs ps) (f s)"
    and "f s = Inr s' \<Longrightarrow> conn_loop (snd s') = conn_loop (snd s)"
  using assms unfolding outbox_only_def by blast+

lemma outboxI:
  assumes "\<And>rs ps s. f (behind rs ps s) = map_sum id (behind rs ps) (f s)"
    and "\<And>s s'. f s = Inr s' \<Longrightarrow> conn_loop (snd s') = conn_loop (snd s)"
  shows "outbox_only f"
  unfolding outbox_only_def using assms by blast

lemma outbox_Inr [intro]: "outbox_only Inr"
  by (rule outboxI) simp_all

lemma outbox_bind [intro]:
  assumes "outbox_only f" and "outbox_only g"
  shows "outbox_only (\<lambda>s. bindE (f s) g)"
proof (rule outboxI)
  show "bindE (f (behind rs ps s)) g = map_sum id (behind rs ps) (bindE (f s) g)" for rs ps s
    by (simp only: outboxD(1) [OF assms(1)] bindE_map_sum outboxD(1) [OF assms(2)] map_sum_bindE)
  show "conn_loop (snd s') = conn_loop (snd s)" if run: "bindE (f s) g = Inr s'" for s s'
  proof -
    from run obtain s1 where "f s = Inr s1" "g s1 = Inr s'" by (rule bindE_InrE)
    then show ?thesis using outboxD(2) [OF assms(1)] outboxD(2) [OF assms(2)] by simp
  qed
qed

lemma outbox_if [intro]:
  assumes "outbox_only f" and "outbox_only g" and "\<And>rs ps s. P (behind rs ps s) \<longleftrightarrow> P s"
  shows "outbox_only (\<lambda>s. if P s then f s else g s)"
proof (rule outboxI)
  show "(if P (behind rs ps s) then f (behind rs ps s) else g (behind rs ps s)) =
      map_sum id (behind rs ps) (if P s then f s else g s)" for rs ps s
    using outboxD(1) [OF assms(1), of rs ps s] outboxD(1) [OF assms(2), of rs ps s]
    by (cases "P s") (simp_all only: assms(3) if_True if_False)
  show "conn_loop (snd s') = conn_loop (snd s)" if "(if P s then f s else g s) = Inr s'" for s s'
    using that outboxD(2) [OF assms(1)] outboxD(2) [OF assms(2)] by (simp split: if_splits)
qed

lemma outbox_if_const: "outbox_only f \<Longrightarrow> outbox_only g \<Longrightarrow> outbox_only (if P then f else g)"
  by simp

lemma outbox_guard [intro]: "(\<And>rs ps s. P (behind rs ps s) \<longleftrightarrow> P s) \<Longrightarrow> outbox_only (\<lambda>s. if P s then Inr s else Inl e)"
  by (rule outboxI) (simp_all split: if_splits)

text \<open>What does not look at the queue of the connection does not change it.\<close>

lemma conn_blind_posted: "conn_blind f \<Longrightarrow> f c = Inr c' \<Longrightarrow> posted c' = posted c"
proof -
  assume f: "conn_blind f" "f c = Inr c'"
  have "f (c\<lparr>posted := posted c\<rparr>) = map_sum id (\<lambda>c'. c'\<lparr>posted := posted c\<rparr>) (f c)"
    by (rule conn_blindD(1) [OF f(1)])
  with f(2) have "c' = c'\<lparr>posted := posted c\<rparr>" by simp
  then show "posted c' = posted c" by (metis connection.select_convs(10) connection.surjective connection.update_convs(10))
qed

lemma conn_blind_adds:
  "conn_blind f \<Longrightarrow> f (c\<lparr>posted := ps @ posted c\<rparr>) = map_sum id (\<lambda>c'. c'\<lparr>posted := ps @ posted c'\<rparr>) (f c)"
  using conn_blind_posted [of f c] by (cases "f c") (simp_all add: conn_blindD(1))

lemma outbox_conn [intro]:
  assumes "conn_blind f"
  shows "outbox_only (\<lambda>s. bindE (f (snd s)) (\<lambda>c. Inr (fst s, c)))"
proof (rule outboxI)
  show "bindE (f (snd (behind rs ps s))) (\<lambda>c. Inr (fst (behind rs ps s), c)) =
      map_sum id (behind rs ps) (bindE (f (snd s)) (\<lambda>c. Inr (fst s, c)))" for rs ps and s :: "'b shared \<times> 'a connection"
    by (simp add: conn_blind_adds [OF assms] bindE_map_sum map_sum_bindE)
  show "conn_loop (snd s') = conn_loop (snd s)" if "bindE (f (snd s)) (\<lambda>c. Inr (fst s, c)) = Inr s'"
    for s s' :: "'b shared \<times> 'a connection"
    using that conn_blindD(2) [OF assms] by (auto simp: bindE_eq_Inr)
qed

section \<open>The operations of a connection\<close>

definition outbox_callbacks :: "('u shared, 'x) conn_callbacks \<Rightarrow> bool" where
  "outbox_callbacks cbs \<longleftrightarrow>
     outbox_only (run_callback (connection_cb cbs)) \<and> outbox_only (run_callback (message_cb cbs)) \<and>
     outbox_only (run_callback (close_cb cbs))"

lemma erase_behind:
  "erase_connection conn (w\<lparr>removals := rs\<rparr>) = map_sum id (\<lambda>w'. w'\<lparr>removals := rs\<rparr>) (erase_connection conn w)"
  by (simp add: erase_connection_def bindE_assertE)

lemma erase_removals: "erase_connection conn w = Inr w' \<Longrightarrow> removals w' = removals w"
  by (auto simp: erase_connection_def bindE_assertE split: if_splits)

lemma remove_connection_outbox:
  "outbox_only (\<lambda>s. remove_connection (conn_loop (snd s) = base) conn s)"
proof (rule outboxI)
  show "remove_connection (conn_loop (snd (behind rs ps s)) = base) conn (behind rs ps s) =
      map_sum id (behind rs ps) (remove_connection (conn_loop (snd s) = base) conn s)"
    for rs ps and s :: "'u shared \<times> 'x connection"
    by (cases "erase_connection conn (fst s)")
      (simp_all add: remove_connection_def erase_behind post_def erase_removals)
  show "conn_loop (snd s') = conn_loop (snd s)"
    if "remove_connection (conn_loop (snd s) = base) conn s = Inr s'" for s s' :: "'u shared \<times> 'x connection"
    using that by (auto simp: remove_connection_def bindE_eq_Inr post_def split: if_splits)
qed

lemma set_state_blind: "conn_blind f \<Longrightarrow> conn_blind (\<lambda>c. f (set_state st c))"
  unfolding conn_blind_def keeps_def set_state_def
  by (metis connection.select_convs(1) connection.surjective connection.update_convs(2) posted_outside(5))

text \<open>The states and the channel are not the queue.\<close>

abbreviation leave_epoll :: "kernel \<Rightarrow> 'x connection \<Rightarrow> 'x connection result" where
  "leave_epoll k c \<equiv> if \<not> has_none_events (channel c) then on_channel disable_all k True c else Inr c"

lemma leave_epoll_blind: "conn_blind (leave_epoll k)"
  by (auto simp: conn_blind_def keeps_def conn_blindD(1) [OF on_channel_blind] dest: conn_blindD(2) [OF on_channel_blind])

lemma set_state_outbox: "outbox_only (\<lambda>s. Inr (fst s, set_state st (snd s)))"
  by (rule outboxI) (auto simp: set_state_def)

lemma outbox_after:
  assumes "outbox_only f" and "\<And>rs ps s. g (behind rs ps s) = behind rs ps (g s)"
    and "\<And>s. conn_loop (snd (g s)) = conn_loop (snd s)"
  shows "outbox_only (\<lambda>s. f (g s))"
  by (rule outboxI) (simp_all add: assms(2) outboxD(1) [OF assms(1)] outboxD(2) [OF assms(1)] assms(3))

lemma handle_close_outbox:
  assumes "outbox_callbacks cbs"
  shows "outbox_only (handle_close k cbs True)"
proof -
  let ?open = "\<lambda>s. if conn_state (snd s) = kConnected \<or> conn_state (snd s) = kDisconnecting
      then Inr s else Inl AssertFailure"
  have "handle_close k cbs True = (\<lambda>s. bindE (?open s) (\<lambda>s.
      bindE (bindE (leave_epoll k (set_state kDisconnected (snd s))) (\<lambda>c. Inr (fst s, c)))
       (\<lambda>s. bindE (run_callback (connection_cb cbs) s) (run_callback (close_cb cbs)))))"
    by (rule ext) (simp add: handle_close_def bindE_assertE bindE_assoc Let_def)
  moreover have "outbox_only ?open" by (rule outbox_guard) simp
  moreover have "conn_blind (\<lambda>c. leave_epoll k (set_state kDisconnected c))"
    by (rule set_state_blind [OF leave_epoll_blind])
  ultimately show ?thesis
    using assms by (simp only: outbox_callbacks_def) (intro outbox_bind outbox_conn, simp_all)
qed

lemma force_close_task_outbox:
  assumes "outbox_callbacks cbs"
  shows "outbox_only (force_close_task k cbs True)"
  unfolding force_close_task_def
  using handle_close_outbox [OF assms] by (intro outbox_if outbox_Inr) simp_all

lemma force_close_outbox:
  assumes "outbox_callbacks cbs"
  shows "outbox_only (force_close k cbs here)"
proof -
  have "outbox_only (\<lambda>s. force_close_task k cbs True (fst s, set_state kDisconnecting (snd s)))"
    by (rule outbox_after [OF force_close_task_outbox [OF assms]]) (simp_all add: set_state_def)
  moreover have "outbox_only (\<lambda>s. Inr (fst s, post ForceCloseTask (set_state kDisconnecting (snd s))))"
    by (rule outboxI) (auto simp: post_def set_state_def)
  moreover have "force_close k cbs here = (\<lambda>s. if conn_state (snd s) = kConnected \<or> conn_state (snd s) = kDisconnecting
      then (if here then force_close_task k cbs True (fst s, set_state kDisconnecting (snd s))
            else Inr (fst s, post ForceCloseTask (set_state kDisconnecting (snd s)))) else Inr s)"
    by (rule ext) (simp add: force_close_def Let_def)
  ultimately show ?thesis by (cases here) (simp_all only: if_True if_False, intro outbox_if outbox_Inr, simp_all,
      intro outbox_if outbox_Inr, simp_all)
qed

lemma established_outbox:
  assumes "outbox_callbacks cbs"
  shows "outbox_only (established k cbs True)"
proof -
  let ?ready = "\<lambda>s. if conn_state (snd s) = kConnecting then Inr s else Inl AssertFailure"
  have "established k cbs True = (\<lambda>s. bindE (?ready s) (\<lambda>s.
      bindE (bindE (on_channel enable_reading k True (set_state kConnected (snd s))) (\<lambda>c. Inr (fst s, c)))
       (run_callback (connection_cb cbs))))"
    by (rule ext) (simp add: established_def bindE_assertE bindE_assoc)
  moreover have "outbox_only ?ready" by (rule outbox_guard) simp
  moreover have "conn_blind (\<lambda>c. on_channel enable_reading k True (set_state kConnected c))"
    by (rule set_state_blind [OF on_channel_blind])
  ultimately show ?thesis
    using assms by (simp only: outbox_callbacks_def) (intro outbox_bind outbox_conn, simp_all)
qed

lemma destroyed_outbox:
  assumes "outbox_callbacks cbs"
  shows "outbox_only (destroyed k cbs True)"
proof -
  have "destroyed k cbs True = (\<lambda>s. if conn_state (snd s) = kConnected
      then bindE (bindE (leave_epoll k (set_state kDisconnected (snd s))) (\<lambda>c. Inr (fst s, c)))
       (run_callback (connection_cb cbs)) else Inr s)"
    by (rule ext) (simp add: destroyed_def bindE_assertE bindE_assoc Let_def)
  moreover have "conn_blind (\<lambda>c. leave_epoll k (set_state kDisconnected c))"
    by (rule set_state_blind [OF leave_epoll_blind])
  ultimately show ?thesis
    using assms by (simp only: outbox_callbacks_def) (intro outbox_if outbox_bind outbox_conn outbox_Inr, simp_all)
qed

lemma run_conn_task_outbox:
  assumes "outbox_callbacks cbs"
  shows "outbox_only (run_conn_task k cbs t)"
proof (cases t)
  case EstablishTask
  then have "run_conn_task k cbs t = established k cbs True" by (simp add: fun_eq_iff)
  then show ?thesis using established_outbox [OF assms] by simp
next
  case (SendTask d)
  then have "run_conn_task k cbs t = (\<lambda>s. bindE (send_in_loop k True d (snd s)) (\<lambda>c. Inr (fst s, c)))"
    by (simp add: fun_eq_iff)
  then show ?thesis by (simp only:) (rule outbox_conn [OF send_in_loop_blind])
next
  case ShutdownTask
  then show ?thesis by (intro outboxI) (auto simp: shutdown_task_def)
next
  case ForceCloseTask
  then have "run_conn_task k cbs t = force_close_task k cbs True" by (simp add: fun_eq_iff)
  then show ?thesis using force_close_task_outbox [OF assms] by simp
next
  case DestroyTask
  then have "run_conn_task k cbs t = destroyed k cbs True" by (simp add: fun_eq_iff)
  then show ?thesis using destroyed_outbox [OF assms] by simp
qed

section \<open>Calls and events\<close>

lemma send_data_outbox: "outbox_only (\<lambda>s. bindE (send_data k here d (snd s)) (\<lambda>c. Inr (fst s, c)))"
proof (cases here)
  case True
  with send_data_blind show ?thesis by (simp only:) (rule outbox_conn)
next
  case False
  then show ?thesis by (intro outboxI) (auto simp: send_data_def post_def split: if_splits)
qed

lemma shutdown_outbox: "outbox_only (\<lambda>s. Inr (fst s, shutdown k here (snd s)))"
  by (rule outboxI) (auto simp: shutdown_def shutdown_task_def set_state_def post_def Let_def)

lemma handle_write_blind: "conn_blind (handle_write k True :: 'x connection \<Rightarrow> 'x connection result)"
proof -
  have "handle_write k True (c\<lparr>posted := ps\<rparr>) = map_sum id (\<lambda>c'. c'\<lparr>posted := ps\<rparr>) (handle_write k True c)"
    for ps and c :: "'x connection"
  proof (cases "k_write k (calls (sock c)) (peeked (output_buffer c) (readable_bytes (output_buffer c)))")
    case (WriteOk n)
    show ?thesis
      by (cases "retrieve n (output_buffer c)")
        (simp_all add: WriteOk handle_write_def shutdown_quiet on_socket_def sock_write_def posted_outside
          conn_blindD(1) [OF on_channel_blind] Let_def)
  next
    case (WriteErr e)
    then show ?thesis
      by (simp add: handle_write_def on_socket_def sock_write_def posted_outside)
  qed
  moreover have "conn_loop c' = conn_loop c" if "handle_write k True c = Inr c'" for c c' :: "'x connection"
    using handle_write_frame [OF that] by (simp add: same_frame_def)
  ultimately show ?thesis unfolding conn_blind_def keeps_def by blast
qed

lemma handle_read_outbox:
  assumes "outbox_callbacks cbs"
  shows "outbox_only (handle_read k cbs True answer)"
proof -
  have cb: "outbox_only (run_callback (message_cb cbs))" "outbox_only (handle_error k cbs True)"
    "outbox_only (\<lambda>s. handle_close k cbs True (fst s, set_state kDisconnecting (snd s)))"
  proof -
    show "outbox_only (run_callback (message_cb cbs))" using assms by (simp add: outbox_callbacks_def)
    have "handle_error k cbs True = force_close k cbs True" by (simp add: fun_eq_iff handle_error_def)
    then show "outbox_only (handle_error k cbs True)" using force_close_outbox [OF assms] by simp
    show "outbox_only (\<lambda>s. handle_close k cbs True (fst s, set_state kDisconnecting (snd s)))"
      by (rule outbox_after [OF handle_close_outbox [OF assms]]) (simp_all add: set_state_def)
  qed
  define react where "react r s = (if fst r > (0 :: int) then run_callback (message_cb cbs) s
     else if fst r = 0 then handle_close k cbs True (fst s, set_state kDisconnecting (snd s))
     else if fst r = -1 \<and> snd r \<noteq> Some EAGAIN then handle_error k cbs True s else Inr s)" for r s
  have react: "outbox_only (react r)" for r
    unfolding react_def using cb by (intro outbox_if outbox_Inr) simp_all
  have eq: "handle_read k cbs True answer s = bindE (read_fd answer (in_buffer (snd s))) (\<lambda>(r, b).
      react r (fst s, (snd s)\<lparr>in_buffer := b\<rparr>))" for s
    by (simp add: handle_read_def react_def case_prod_unfold Let_def cong: if_cong)
  show ?thesis
  proof (rule outboxI)
    show "handle_read k cbs True answer (behind rs ps s) =
        map_sum id (behind rs ps) (handle_read k cbs True answer s)" for rs ps s
    proof (cases "read_fd answer (in_buffer (snd s))")
      case (Inr rb)
      with outboxD(1) [OF react, of "fst rb" rs ps "(fst s, (snd s)\<lparr>in_buffer := snd rb\<rparr>)"]
      show ?thesis unfolding eq by (simp add: case_prod_unfold posted_outside)
    qed (simp add: eq)
    show "conn_loop (snd s') = conn_loop (snd s)" if "handle_read k cbs True answer s = Inr s'" for s s'
    proof -
      from that obtain r b where "react r (fst s, (snd s)\<lparr>in_buffer := b\<rparr>) = Inr s'"
        by (auto simp: eq bindE_eq_Inr)
      from outboxD(2) [OF react this] show ?thesis by simp
    qed
  qed
qed

lemma conn_events_outbox:
  assumes "outbox_callbacks cbs"
  shows "outbox_only (\<lambda>s. handle_conn_events k cbs True answer (fst s, (snd s)\<lparr>channel := set_revents e (channel (snd s))\<rparr>))"
proof -
  let ?rd = "handle_read k cbs True answer" and ?wr = "\<lambda>s. bindE (handle_write k True (snd s)) (\<lambda>c. Inr (fst s, c))"
  have eq: "handle_conn_events k cbs True answer (fst s, (snd s)\<lparr>channel := set_revents e (channel (snd s))\<rparr>) =
      bindE ((if e AND (EPOLLIN OR EPOLLPRI OR EPOLLRDHUP) \<noteq> 0 then ?rd else Inr)
          (fst s, (snd s)\<lparr>channel := set_revents e (channel (snd s))\<rparr>))
        (if e AND EPOLLOUT \<noteq> 0 then ?wr else Inr)" for s
    by (simp add: handle_conn_events_def handle_events_def conn_channel_callbacks_def call_if_set_def
        set_revents_def cong: if_cong)
  have wr: "outbox_only (if e AND EPOLLOUT \<noteq> 0 then ?wr else Inr)"
    by (intro outbox_if_const outbox_conn handle_write_blind outbox_Inr)
  have "outbox_only (if e AND (EPOLLIN OR EPOLLPRI OR EPOLLRDHUP) \<noteq> 0 then ?rd else Inr)"
    by (intro outbox_if_const handle_read_outbox assms outbox_Inr)
  then have "outbox_only (\<lambda>s. (if e AND (EPOLLIN OR EPOLLPRI OR EPOLLRDHUP) \<noteq> 0 then ?rd else Inr)
      (fst s, (snd s)\<lparr>channel := set_revents e (channel (snd s))\<rparr>))"
    by (rule outbox_after) simp_all
  from outbox_bind [OF this wr] show ?thesis unfolding eq .
qed

text \<open>Every event of a connection but the running of a posted task, which takes it out of the queue.\<close>

lemma conn_step_outbox:
  assumes "outbox_callbacks cbs" and "ev \<noteq> RunPosted"
  shows "outbox_only (conn_step k cbs ev)"
proof (cases ev)
  case (Dispatch e answer)
  have "conn_step k cbs ev = (\<lambda>s. if in_interest_list (channel (snd s))
      then handle_conn_events k cbs True answer (fst s, (snd s)\<lparr>channel := set_revents e (channel (snd s))\<rparr>) else Inr s)"
  proof
    show "conn_step k cbs ev s = (if in_interest_list (channel (snd s))
        then handle_conn_events k cbs True answer (fst s, (snd s)\<lparr>channel := set_revents e (channel (snd s))\<rparr>) else Inr s)" for s
      by (cases s) (simp add: Dispatch)
  qed
  then show ?thesis
    by (simp only:) (intro outbox_if outbox_Inr conn_events_outbox [OF assms(1)], simp)
next
  case (Send here d)
  have "conn_step k cbs ev = (\<lambda>s. bindE (send_data k here d (snd s)) (\<lambda>c. Inr (fst s, c)))"
    by (rule ext) (auto simp: Send)
  then show ?thesis using send_data_outbox by (simp only:)
next
  case (Shutdown here)
  have "conn_step k cbs ev = (\<lambda>s. Inr (fst s, shutdown k here (snd s)))" by (rule ext) (auto simp: Shutdown)
  then show ?thesis using shutdown_outbox by (simp only:)
next
  case (ForceClose here)
  have "conn_step k cbs ev = force_close k cbs here" by (rule ext) (auto simp: ForceClose)
  then show ?thesis using force_close_outbox [OF assms(1)] by simp
qed (use assms(2) in simp)

section \<open>The callbacks of a server\<close>

definition outbox_user :: "('u, 'x) user_callbacks \<Rightarrow> bool" where
  "outbox_user ucbs \<longleftrightarrow>
     (\<forall>conn. outbox_only (run_callback (user_connection ucbs conn)) \<and>
             outbox_only (run_callback (user_message ucbs conn)))"

lemma server_callbacks_outbox:
  assumes "outbox_user ucbs"
  shows "outbox_callbacks (server_callbacks base ucbs conn)"
proof -
  have "run_callback (close_cb (server_callbacks base ucbs conn)) =
      (\<lambda>s. remove_connection (conn_loop (snd s) = base) conn s)"
    by (rule ext) (simp add: server_callbacks_def run_callback_def call_if_set_def)
  with assms remove_connection_outbox show ?thesis
    by (simp add: outbox_callbacks_def outbox_user_def server_callbacks_def)
qed

lemma removals_outside: "w\<lparr>removals := rs, user_state := u\<rparr> = w\<lparr>user_state := u, removals := rs\<rparr>"
  by simp

lemma http_user_outbox: "outbox_user (http_user order k files)"
proof -
  have "outbox_only http_connection_callback"
    by (rule outboxI) (auto simp: http_connection_callback_def is_connected_def set_context_def)
  moreover have "outbox_only (on_message order (k conn) files)" for conn
  proof (rule outboxI)
    show "conn_loop (snd s') = conn_loop (snd s)" if "on_message order (k conn) files s = Inr s'" for s s'
      using that on_message_once [of undefined "fst s" "snd s" order "k conn" files]
      by (simp add: keeps_def closes_once_def)
    show "on_message order (k conn) files (behind rs ps s) =
        map_sum id (behind rs ps) (on_message order (k conn) files s)" for rs ps s
    proof (cases "conn_context (snd s)")
      case None
      then show ?thesis by (simp add: on_message_def)
    next
      case (Some ctx)
      show ?thesis
      proof (cases "parse_request (in_buffer (snd s)) ctx")
        case (Inl e)
        with Some show ?thesis by (simp add: on_message_def)
      next
        case (Inr r)
        obtain ok b ctx1 where r: "r = (ok, b, ctx1)" by (cases r) auto
        let ?c1 = "(snd s)\<lparr>in_buffer := b, conn_context := Some ctx1\<rparr>"
        have c1: "f (?c1\<lparr>posted := ps @ posted (snd s)\<rparr>) = map_sum id (\<lambda>c'. c'\<lparr>posted := ps @ posted c'\<rparr>) (f ?c1)"
          if "conn_blind f" for f
          using conn_blind_adds [OF that, where c = ?c1 and ps = ps] by simp
        show ?thesis
          by (cases ok; cases "parsing_completed ctx1"; cases "refuse order (k conn) ?c1")
            (simp_all add: on_message_def Some Inr r map_sum_bindE bindE_map_sum posted_outside removals_outside
              c1 [OF refuse_blind] c1 [OF respond_blind] conn_blind_adds [OF refuse_blind] conn_blind_adds [OF respond_blind] Let_def)
      qed
    qed
  qed
  ultimately show ?thesis by (simp add: outbox_user_def http_user_def run_callback_Some)
qed

end
