(* ===== verification/Server_Loops.thy ===== *)
theory Server_Loops
  imports Outbox
begin

text \<open>
  The server on its loops: \<open>Tcp_Server\<close> with the queues and rounds of \<open>Event_Loop\<close>. There the tasks
  queued for a connection, and the removals, are lists of their own, from which \<open>server_step\<close> takes
  one at a time. In the program each loop has one queue for all its tasks, \<open>do_pending_tasks\<close> takes
  them out as a whole, and what is taken out goes on owning its connections until the round is
  over. This theory models the program in this way, with one handler, task or call of
  \<open>queue_in_loop\<close> per step, in any order that the threads of the loops can produce, and shows that
  \<open>Tcp_Server\<close> is an abstraction of it.
\<close>

section \<open>The program\<close>

text \<open>What the server and its connections queue: the lambdas of \<open>tcp_connection.cpp\<close> and of
  \<open>new_connection\<close>, and that of \<open>remove_connection\<close>.\<close>

datatype prog_task = ConnTask nat conn_task | RemovalTask nat

text \<open>\<open>srv\<close> is the server with its connections; its fields \<open>posted\<close> and \<open>removals\<close> only hold the calls of
  \<open>queue_in_loop\<close> that one operation has made. \<open>dump\<close> is \<open>tasks_dump\<close> of \<open>do_pending_tasks\<close> while the
  loop runs it, split at the task that comes next.\<close>

record ('u, 'x, 'k) program =
  srv :: "('u, 'x) server"
  loops :: "nat \<Rightarrow> (prog_task, 'k) event_loop"
  dump :: "nat \<Rightarrow> (prog_task loop_task list \<times> prog_task loop_task list) option"

definition queue_on ::
    "'k eventfd \<Rightarrow> nat \<Rightarrow> nat \<Rightarrow> prog_task \<Rightarrow> ('u, 'x, 'k) program \<Rightarrow> ('u, 'x, 'k) program" where
  "queue_on efd thread l t p =
     p\<lparr>loops := (loops p)(l := queue_in_loop efd thread (UserTask t) (loops p l))\<rparr>"

text \<open>The calls of \<open>queue_in_loop\<close> that an operation of the connection has made: on the connection's
  own loop, and for its removal on the server's.\<close>

definition deliver :: "'k eventfd \<Rightarrow> nat \<Rightarrow> nat \<Rightarrow> ('u, 'x, 'k) program \<Rightarrow> ('u, 'x, 'k) program" where
  "deliver efd thread conn p =
     (case alive (srv p) conn of
        None \<Rightarrow> p
      | Some c \<Rightarrow>
          let s = srv p;
              p1 = p\<lparr>srv := s\<lparr>server_shared := (server_shared s)\<lparr>removals := []\<rparr>,
                             alive := (alive s)(conn \<mapsto> c\<lparr>posted := []\<rparr>)\<rparr>\<rparr>;
              p2 = foldl (\<lambda>p t. queue_on efd thread (conn_loop c) (ConnTask conn t) p) p1 (posted c)
          in foldl (\<lambda>p r. queue_on efd thread (server_loop s) (RemovalTask r) p) p2
               (removals (server_shared s)))"

text \<open>An event of a connection, in the thread \<open>thread\<close>.\<close>

definition on_connection ::
    "'k eventfd \<Rightarrow> (nat \<Rightarrow> kernel) \<Rightarrow> ('u, 'x) user_callbacks \<Rightarrow> 'x \<Rightarrow> nat \<Rightarrow> nat \<Rightarrow> conn_event
      \<Rightarrow> ('u, 'x, 'k) program \<Rightarrow> ('u, 'x, 'k) program result" where
  "on_connection efd k ucbs x0 thread conn ev p =
     bindE (server_step k ucbs x0 (OnConnection conn ev) (srv p)) (\<lambda>s.
     Inr (deliver efd thread conn (p\<lparr>srv := s\<rparr>)))"

definition new_on_loops ::
    "'k eventfd \<Rightarrow> (nat \<Rightarrow> kernel) \<Rightarrow> ('u, 'x) user_callbacks \<Rightarrow> 'x \<Rightarrow> int \<Rightarrow> sockaddr_in
      \<Rightarrow> ('u, 'x, 'k) program \<Rightarrow> ('u, 'x, 'k) program result" where
  "new_on_loops efd k ucbs x0 fd peer_address p =
     bindE (server_new_connection k ucbs x0 True fd peer_address (srv p)) (\<lambda>s.
     Inr (deliver efd (thread_id (loops p (server_loop s))) (fresh (srv p)) (p\<lparr>srv := s\<rparr>)))"

text \<open>Running a task in the loop \<open>l\<close>.\<close>

fun run_prog_task ::
    "'k eventfd \<Rightarrow> (nat \<Rightarrow> kernel) \<Rightarrow> ('u, 'x) user_callbacks \<Rightarrow> 'x \<Rightarrow> nat \<Rightarrow> int \<Rightarrow> prog_task loop_task
      \<Rightarrow> ('u, 'x, 'k) program \<Rightarrow> ('u, 'x, 'k) program result" where
  "run_prog_task efd k ucbs x0 l now (UserTask (ConnTask conn t)) p =
     (case alive (srv p) conn of
        None \<Rightarrow> Inl UseAfterFree
      | Some c \<Rightarrow> on_connection efd k ucbs x0 (thread_id (loops p l)) conn RunPosted
          (p\<lparr>srv := (srv p)\<lparr>alive := (alive (srv p))(conn \<mapsto> c\<lparr>posted := [t]\<rparr>)\<rparr>\<rparr>))"
| "run_prog_task efd k ucbs x0 l now (UserTask (RemovalTask conn)) p =
     bindE (run_removal ((srv p)\<lparr>server_shared := (server_shared (srv p))\<lparr>removals := [conn]\<rparr>\<rparr>)) (\<lambda>s.
     Inr (deliver efd (thread_id (loops p l)) conn (p\<lparr>srv := s\<rparr>)))"
| "run_prog_task efd k ucbs x0 l now (InsertTimer w a) p =
     Inr (p\<lparr>loops := (loops p)(l := (loops p l)\<lparr>loop_timers := insert_timer now w a (loop_timers (loops p l))\<rparr>)\<rparr>)"

text \<open>The tasks that exist of a loop, and those of them that are still to be run. A task that has been run
  exists until \<open>tasks_dump\<close> goes.\<close>

definition existing_tasks :: "('u, 'x, 'k) program \<Rightarrow> nat \<Rightarrow> prog_task loop_task list" where
  "existing_tasks p l =
     (case dump p l of None \<Rightarrow> [] | Some (old, rest) \<Rightarrow> old @ rest) @ pending_tasks (loops p l)"

definition tasks_to_run :: "('u, 'x, 'k) program \<Rightarrow> nat \<Rightarrow> prog_task loop_task list" where
  "tasks_to_run p l =
     (case dump p l of None \<Rightarrow> [] | Some (old, rest) \<Rightarrow> rest) @ pending_tasks (loops p l)"

fun shares_connection :: "nat \<Rightarrow> prog_task loop_task \<Rightarrow> bool" where
  "shares_connection conn (UserTask (ConnTask conn' t)) \<longleftrightarrow> conn' = conn \<and> owns_connection t"
| "shares_connection conn (UserTask (RemovalTask conn')) \<longleftrightarrow> conn' = conn"
| "shares_connection conn (InsertTimer w a) \<longleftrightarrow> False"

section \<open>Its steps\<close>

datatype conn_call = CallSend bytes | CallShutdown | CallForceClose

fun call_event :: "bool \<Rightarrow> conn_call \<Rightarrow> conn_event" where
  "call_event here (CallSend d) = Send here d"
| "call_event here CallShutdown = Shutdown here"
| "call_event here CallForceClose = ForceClose here"

text \<open>In the order: the acceptor's channel or a connection's channel is reported and handled by its loop; a loop swaps its
  pending tasks out, runs the next one of them, and is done with them; a thread calls an operation
  of a connection, or adds a timer to the loop of another thread; a connection is destroyed; a loop
  handles its wake-up channel; a thread calls \<open>quit\<close> of a loop. An event that cannot happen in a state does
  nothing in it: a channel that is not registered is not reported, and a loop that runs tasks handles no
  channel. \<open>EventLoop::loop\<close> does not look whether a channel that \<open>wait\<close> has reported is still registered;
  that its iterations are nevertheless made of these steps is shown in \<open>Loop_Iterations\<close>. A call
  from another thread is one step here, and two in \<open>Cross_Thread\<close>.\<close>

datatype prog_event =
  AcceptorReady "accept_result list"
| ConnReady nat event_mask read_result
| SwapTasks nat
| NextTask nat int
| TasksDone nat
| UserCall nat nat conn_call
| TimerCall nat nat int nat
| LastReference nat
| WakeupReady nat
| QuitCall nat nat

fun program_step ::
    "'k eventfd \<Rightarrow> (nat \<Rightarrow> kernel) \<Rightarrow> ('u, 'x) user_callbacks \<Rightarrow> 'x \<Rightarrow> prog_event
      \<Rightarrow> ('u, 'x, 'k) program \<Rightarrow> ('u, 'x, 'k) program result" where
  "program_step efd k ucbs x0 (AcceptorReady answers) p =
     (if dump p (server_loop (srv p)) = None
      then bindE (on_incoming_connection True (Some (new_on_loops efd k ucbs x0)) answers p)
             (\<lambda>(ended, closed, p'). Inr p')
      else Inr p)"
| "program_step efd k ucbs x0 (ConnReady conn e answer) p =
     (case alive (srv p) conn of
        None \<Rightarrow> Inr p
      | Some c \<Rightarrow>
          if dump p (conn_loop c) = None
          then on_connection efd k ucbs x0 (thread_id (loops p (conn_loop c))) conn (Dispatch e answer) p
          else Inr p)"
| "program_step efd k ucbs x0 (SwapTasks l) p =
     (if dump p l = None
      then let (tasks_dump, el) = take_pending (loops p l) in
        Inr (p\<lparr>loops := (loops p)(l := el\<lparr>doing_pending_tasks := True\<rparr>), dump := (dump p)(l \<mapsto> ([], tasks_dump))\<rparr>)
      else Inr p)"
| "program_step efd k ucbs x0 (NextTask l now) p =
     (case dump p l of
        Some (old, t # rest) \<Rightarrow>
          run_prog_task efd k ucbs x0 l now t (p\<lparr>dump := (dump p)(l \<mapsto> (old @ [t], rest))\<rparr>)
      | _ \<Rightarrow> Inr p)"
| "program_step efd k ucbs x0 (TasksDone l) p =
     (case dump p l of
        Some (old, []) \<Rightarrow>
          Inr (p\<lparr>loops := (loops p)(l := (loops p l)\<lparr>doing_pending_tasks := False\<rparr>), dump := (dump p)(l := None)\<rparr>)
      | _ \<Rightarrow> Inr p)"
| "program_step efd k ucbs x0 (UserCall thread conn call) p =
     (case alive (srv p) conn of
        None \<Rightarrow> Inr p
      | Some c \<Rightarrow> on_connection efd k ucbs x0 thread conn
          (call_event (in_loop_thread thread (loops p (conn_loop c))) call) p)"
| "program_step efd k ucbs x0 (TimerCall thread l w a) p =
     Inr (p\<lparr>loops := (loops p)(l := queue_in_loop efd thread (InsertTimer w a) (loops p l))\<rparr>)"
| "program_step efd k ucbs x0 (LastReference conn) p =
     (case alive (srv p) conn of
        None \<Rightarrow> Inr p
      | Some c \<Rightarrow>
          if conn \<in> connections (server_shared (srv p)) \<or>
             list_ex (shares_connection conn) (existing_tasks p (conn_loop c)) \<or>
             list_ex (shares_connection conn) (existing_tasks p (server_loop (srv p)))
          then Inr p
          else bindE (connection_dtor (k conn) True c) (\<lambda>_.
               Inr (p\<lparr>srv := (srv p)\<lparr>alive := (alive (srv p))(conn := None)\<rparr>\<rparr>)))"
| "program_step efd k ucbs x0 (WakeupReady l) p =
     (if dump p l = None then Inr (p\<lparr>loops := (loops p)(l := handle_wakeup efd (loops p l))\<rparr>) else Inr p)"
| "program_step efd k ucbs x0 (QuitCall thread l) p =
     Inr (p\<lparr>loops := (loops p)(l := quit efd thread (loops p l))\<rparr>)"

section \<open>Its abstraction\<close>

fun conn_tasks :: "nat \<Rightarrow> prog_task loop_task list \<Rightarrow> conn_task list" where
  "conn_tasks conn [] = []"
| "conn_tasks conn (UserTask (ConnTask conn' t) # q) =
     (if conn' = conn then t # conn_tasks conn q else conn_tasks conn q)"
| "conn_tasks conn (t # q) = conn_tasks conn q"

fun removal_tasks :: "prog_task loop_task list \<Rightarrow> nat list" where
  "removal_tasks [] = []"
| "removal_tasks (UserTask (RemovalTask conn) # q) = conn # removal_tasks q"
| "removal_tasks (t # q) = removal_tasks q"

text \<open>The server of \<open>Tcp_Server\<close>, with the tasks sorted by connection.\<close>

definition abstract_server :: "(nat \<Rightarrow> conn_task list) \<Rightarrow> ('u, 'x, 'k) program \<Rightarrow> ('u, 'x) server" where
  "abstract_server left p =
     (srv p)\<lparr>server_shared := (server_shared (srv p))
          \<lparr>removals := removal_tasks (tasks_to_run p (server_loop (srv p)))\<rparr>,
        alive := (\<lambda>conn. map_option
          (\<lambda>c. c\<lparr>posted := conn_tasks conn (tasks_to_run p (conn_loop c))\<rparr>) (alive (srv p) conn)),
        orphans := left\<rparr>"

fun tasks_in_place :: "(nat \<Rightarrow> conn_task list) \<Rightarrow> ('u, 'x, 'k) program \<Rightarrow> nat \<Rightarrow> prog_task loop_task \<Rightarrow> bool" where
  "tasks_in_place left p l (UserTask (ConnTask conn t)) \<longleftrightarrow>
     (case alive (srv p) conn of None \<Rightarrow> left conn \<noteq> [] | Some c \<Rightarrow> conn_loop c = l)"
| "tasks_in_place left p l (UserTask (RemovalTask conn)) \<longleftrightarrow> l = server_loop (srv p)"
| "tasks_in_place left p l (InsertTimer w a) \<longleftrightarrow> True"

definition program_wf :: "(nat \<Rightarrow> conn_task list) \<Rightarrow> ('u, 'x, 'k) program \<Rightarrow> bool" where
  "program_wf left p \<longleftrightarrow>
     removals (server_shared (srv p)) = [] \<and>
     (\<forall>conn c. alive (srv p) conn = Some c \<longrightarrow> posted c = []) \<and>
     (\<forall>l. \<forall>t \<in> set (tasks_to_run p l). tasks_in_place left p l t) \<and>
     (\<forall>conn. fresh (srv p) \<le> conn \<longrightarrow> alive (srv p) conn = None \<and> left conn = [])"

text \<open>\<open>s\<close> is what \<open>Tcp_Server\<close> sees of the program; what it keeps of the tasks that connections have left
  behind is not in the program any more.\<close>

definition implements :: "('u, 'x, 'k) program \<Rightarrow> ('u, 'x) server \<Rightarrow> bool" where
  "implements p s \<longleftrightarrow> s = abstract_server (orphans s) p \<and> program_wf (orphans s) p"

text \<open>The step of \<open>Tcp_Server\<close> that goes with a step of the program, if one does.\<close>

fun shadow :: "('u, 'x, 'k) program \<Rightarrow> prog_event \<Rightarrow> server_event list" where
  "shadow p (AcceptorReady answers) =
     (if dump p (server_loop (srv p)) = None then [Incoming answers] else [])"
| "shadow p (ConnReady conn e answer) =
     (case alive (srv p) conn of
        None \<Rightarrow> []
      | Some c \<Rightarrow> if dump p (conn_loop c) = None then [OnConnection conn (Dispatch e answer)] else [])"
| "shadow p (NextTask l now) =
     (case dump p l of
        Some (old, UserTask (ConnTask conn t) # rest) \<Rightarrow> [OnConnection conn RunPosted]
      | Some (old, UserTask (RemovalTask conn) # rest) \<Rightarrow> [RunRemoval]
      | _ \<Rightarrow> [])"
| "shadow p (UserCall thread conn call) =
     (case alive (srv p) conn of
        None \<Rightarrow> []
      | Some c \<Rightarrow> [OnConnection conn (call_event (in_loop_thread thread (loops p (conn_loop c))) call)])"
| "shadow p (LastReference conn) =
     (case alive (srv p) conn of
        None \<Rightarrow> []
      | Some c \<Rightarrow>
          if conn \<in> connections (server_shared (srv p)) \<or>
             list_ex (shares_connection conn) (existing_tasks p (conn_loop c)) \<or>
             list_ex (shares_connection conn) (existing_tasks p (server_loop (srv p)))
          then [] else [Release conn])"
| "shadow p _ = []"

section \<open>Queues\<close>

lemma conn_tasks_append [simp]: "conn_tasks conn (q @ q') = conn_tasks conn q @ conn_tasks conn q'"
  by (induction conn q rule: conn_tasks.induct) simp_all

lemma removal_tasks_append [simp]: "removal_tasks (q @ q') = removal_tasks q @ removal_tasks q'"
  by (induction q rule: removal_tasks.induct) simp_all

abbreviation conn_queue :: "nat \<Rightarrow> conn_task list \<Rightarrow> prog_task loop_task list" where
  "conn_queue conn ts \<equiv> map (\<lambda>t. UserTask (ConnTask conn t)) ts"

abbreviation removal_queue :: "nat list \<Rightarrow> prog_task loop_task list" where
  "removal_queue rs \<equiv> map (\<lambda>r. UserTask (RemovalTask r)) rs"

lemma conn_queue_tasks [simp]: "conn_tasks conn (conn_queue conn' ts) = (if conn' = conn then ts else [])"
  by (cases "conn' = conn"; induction ts) simp_all

lemma removal_queue_conn [simp]: "conn_tasks conn (removal_queue rs) = []"
  by (induction rs) simp_all

lemma conn_queue_removals [simp]: "removal_tasks (conn_queue conn ts) = []"
  by (induction ts) simp_all

lemma removal_queue_tasks [simp]: "removal_tasks (removal_queue rs) = rs"
  by (induction rs) simp_all

lemma conn_tasks_empty: "(\<And>t. UserTask (ConnTask conn t) \<notin> set q) \<Longrightarrow> conn_tasks conn q = []"
  by (induction conn q rule: conn_tasks.induct) auto

lemma queue_on_simps [simp]:
  "srv (queue_on efd thread l t p) = srv p" "dump (queue_on efd thread l t p) = dump p"
  "pending_tasks (loops (queue_on efd thread l t p) l') =
     pending_tasks (loops p l') @ (if l' = l then [UserTask t] else [])"
  by (simp_all add: queue_on_def queue_in_loop_def wakeup_if_needed_def wakeup_def push_task_def)

lemma queue_all:
  fixes p :: "('u, 'x, 'k) program"
  shows "srv (foldl (\<lambda>p t. queue_on efd thread l (f t) p) p ts) = srv p"
    "dump (foldl (\<lambda>p t. queue_on efd thread l (f t) p) p ts) = dump p"
    "pending_tasks (loops (foldl (\<lambda>p t. queue_on efd thread l (f t) p) p ts) l') =
       pending_tasks (loops p l') @ (if l' = l then map (\<lambda>t. UserTask (f t)) ts else [])"
  by (induction ts arbitrary: p) simp_all

lemma deliver_simps:
  assumes "alive (srv p) conn = Some c"
  shows "srv (deliver efd thread conn p) =
      (srv p)\<lparr>server_shared := (server_shared (srv p))\<lparr>removals := []\<rparr>,
              alive := (alive (srv p))(conn \<mapsto> c\<lparr>posted := []\<rparr>)\<rparr>"
    and "dump (deliver efd thread conn p) = dump p"
    and "tasks_to_run (deliver efd thread conn p) l = tasks_to_run p l @
      (if l = conn_loop c then conn_queue conn (posted c) else []) @
      (if l = server_loop (srv p) then removal_queue (removals (server_shared (srv p))) else [])"
  using assms by (simp_all add: deliver_def Let_def queue_all tasks_to_run_def)

lemma tasks_in_place_cong:
  "alive (srv p') = alive (srv p) \<Longrightarrow> server_loop (srv p') = server_loop (srv p) \<Longrightarrow>
   tasks_in_place left p' l t = tasks_in_place left p l t"
  by (cases "(left, p, l, t)" rule: tasks_in_place.cases) simp_all

lemma program_wfD:
  assumes "program_wf left p"
  shows "removals (server_shared (srv p)) = []"
    and "alive (srv p) conn = Some c \<Longrightarrow> posted c = []"
    and "t \<in> set (tasks_to_run p l) \<Longrightarrow> tasks_in_place left p l t"
    and "fresh (srv p) \<le> conn \<Longrightarrow> alive (srv p) conn = None \<and> left conn = []"
  using assms unfolding program_wf_def by blast+

text \<open>When an operation on a connection is done and its calls of \<open>queue_in_loop\<close> are made, the queues
  have got longer by what \<open>posted\<close> and \<open>removals\<close> have.\<close>

lemma delivered:
  assumes wf: "program_wf left p"
    and s': "alive s' = (alive (srv p))(conn \<mapsto> c')" "server_loop s' = server_loop (srv p)"
      "fresh (srv p) \<le> fresh s'" "conn < fresh s'"
    and home: "\<And>l t. UserTask (ConnTask conn t) \<in> set (tasks_to_run p l) \<Longrightarrow> l = conn_loop c'"
  shows "implements (deliver efd thread conn (p\<lparr>srv := s'\<rparr>))
    (s'\<lparr>orphans := left, server_shared := (server_shared s')
          \<lparr>removals := removal_tasks (tasks_to_run p (server_loop (srv p))) @ removals (server_shared s')\<rparr>,
        alive := (alive (abstract_server left p))
          (conn \<mapsto> c'\<lparr>posted := conn_tasks conn (tasks_to_run p (conn_loop c')) @ posted c'\<rparr>)\<rparr>)"
proof -
  let ?p = "p\<lparr>srv := s'\<rparr>" and ?p' = "deliver efd thread conn (p\<lparr>srv := s'\<rparr>)"
  have c': "alive (srv ?p) conn = Some c'" by (simp add: s'(1))
  note d = deliver_simps [OF c', of efd thread]
  have same: "tasks_to_run ?p l = tasks_to_run p l" for l by (simp add: tasks_to_run_def)
  have "alive (abstract_server left ?p') j = ((alive (abstract_server left p))
      (conn \<mapsto> c'\<lparr>posted := conn_tasks conn (tasks_to_run p (conn_loop c')) @ posted c'\<rparr>)) j" for j
    using s' by (cases "alive (srv p) j") (simp_all add: abstract_server_def d same)
  then have "alive (abstract_server left ?p') = (alive (abstract_server left p))
      (conn \<mapsto> c'\<lparr>posted := conn_tasks conn (tasks_to_run p (conn_loop c')) @ posted c'\<rparr>)" by (rule ext)
  moreover have "program_wf left ?p'"
    unfolding program_wf_def
  proof (intro conjI allI ballI impI)
    show "removals (server_shared (srv ?p')) = []" by (simp add: d)
    show "posted c = []" if "alive (srv ?p') j = Some c" for j c
      using that program_wfD(2) [OF wf, of j c] by (auto simp: d s'(1) split: if_splits)
    show "alive (srv ?p') j = None" "left j = []" if "fresh (srv ?p') \<le> j" for j
      using that program_wfD(4) [OF wf, of j] s'(3,4) by (auto simp: d s'(1))
    show "tasks_in_place left ?p' l t" if t: "t \<in> set (tasks_to_run ?p' l)" for l t
    proof -
      consider "t \<in> set (tasks_to_run p l)"
        | "t \<in> set (conn_queue conn (posted c'))" "l = conn_loop c'"
        | "t \<in> set (removal_queue (removals (server_shared s')))" "l = server_loop s'"
        using t by (auto simp: d same split: if_splits)
      then show ?thesis
      proof cases
        case 1
        from program_wfD(3) [OF wf 1] home [of _ l] 1 s'(2) show ?thesis
          by (cases "(left, p, l, t)" rule: tasks_in_place.cases) (auto simp: d s'(1) split: option.splits)
      qed (auto simp: d)
    qed
  qed
  moreover have "removal_tasks (tasks_to_run ?p' (server_loop s')) =
      removal_tasks (tasks_to_run p (server_loop (srv p))) @ removals (server_shared s')"
    by (simp add: d same s'(2))
  ultimately show ?thesis
    unfolding implements_def by (intro conjI server.equality) (simp_all add: abstract_server_def d)
qed

section \<open>Every step is one of the abstraction\<close>

abbreviation same_result :: "('u, 'x, 'k) program result \<Rightarrow> ('u, 'x) server result \<Rightarrow> bool" where
  "same_result \<equiv> rel_sum (=) implements"

lemma abstract_simps [simp]:
  "server_loop (abstract_server left p) = server_loop (srv p)"
  "orphans (abstract_server left p) = left"
  "fresh (abstract_server left p) = fresh (srv p)"
  "server_pool (abstract_server left p) = server_pool (srv p)"
  by (simp_all add: abstract_server_def)

lemma abstract_upd:
  "(abstract_server left p)\<lparr>server_shared := w, alive := f\<rparr> = (srv p)\<lparr>orphans := left, server_shared := w, alive := f\<rparr>"
  by (simp add: abstract_server_def)

lemma in_place_of:
  assumes "program_wf left p" and "UserTask (ConnTask conn t) \<in> set (tasks_to_run p l)"
  shows "case alive (srv p) conn of None \<Rightarrow> left conn \<noteq> [] | Some c \<Rightarrow> conn_loop c = l"
  using program_wfD(3) [OF assms] by simp

text \<open>The operation \<open>f\<close> on a connection: in the program with empty outboxes, in the abstraction behind the
  tasks that are queued.\<close>

lemma operation_delivered:
  assumes wf: "program_wf left p" and c: "alive (srv p) conn = Some c" and f: "outbox_only f"
    and a: "alive (abstract_server left p) conn = Some a"
  shows "same_result
    (bindE (f (server_shared (srv p), c)) (\<lambda>(w, c'). Inr (deliver efd thread conn
       (p\<lparr>srv := (srv p)\<lparr>server_shared := w, alive := (alive (srv p))(conn \<mapsto> c')\<rparr>\<rparr>))))
    (bindE (f (server_shared (abstract_server left p), a)) (\<lambda>(w, c'). Inr
       ((abstract_server left p)\<lparr>server_shared := w, alive := (alive (abstract_server left p))(conn \<mapsto> c')\<rparr>)))"
proof -
  let ?R = "removal_tasks (tasks_to_run p (server_loop (srv p)))"
  let ?P = "conn_tasks conn (tasks_to_run p (conn_loop c))"
  have "(server_shared (abstract_server left p), a) = behind ?R ?P (server_shared (srv p), c)"
    using a c program_wfD(1) [OF wf] program_wfD(2) [OF wf c] by (auto simp: abstract_server_def)
  then have abs: "f (server_shared (abstract_server left p), a) =
      map_sum id (behind ?R ?P) (f (server_shared (srv p), c))" by (simp only: outboxD(1) [OF f])
  show ?thesis
  proof (cases "f (server_shared (srv p), c)")
    case (Inl e)
    then show ?thesis unfolding abs by simp
  next
    case (Inr r)
    obtain w c' where r: "r = (w, c')" by (cases r)
    let ?s = "(srv p)\<lparr>server_shared := w, alive := (alive (srv p))(conn \<mapsto> c')\<rparr>"
    have loop: "conn_loop c' = conn_loop c" using outboxD(2) [OF f Inr] r by simp
    have "conn < fresh ?s" using program_wfD(4) [OF wf, of conn] c by (simp, metis leI option.distinct(1))
    moreover have "l = conn_loop c'" if "UserTask (ConnTask conn t) \<in> set (tasks_to_run p l)" for l t
      using in_place_of [OF wf that] c loop by simp
    ultimately have "implements (deliver efd thread conn (p\<lparr>srv := ?s\<rparr>))
      (?s\<lparr>orphans := left, server_shared := (server_shared ?s)\<lparr>removals := ?R @ removals (server_shared ?s)\<rparr>,
        alive := (alive (abstract_server left p))
          (conn \<mapsto> c'\<lparr>posted := conn_tasks conn (tasks_to_run p (conn_loop c')) @ posted c'\<rparr>)\<rparr>)"
      by (intro delivered [OF wf]) simp_all
    then show ?thesis unfolding abs by (simp add: Inr r loop abstract_server_def)
  qed
qed

lemma server_step_alive:
  "alive s conn = Some c \<Longrightarrow>
   server_step k ucbs x0 (OnConnection conn ev) s =
     bindE (conn_step (k conn) (server_callbacks (server_loop s) ucbs conn) ev (server_shared s, c))
       (\<lambda>(w, c'). Inr (s\<lparr>server_shared := w, alive := (alive s)(conn \<mapsto> c')\<rparr>))"
  by simp

lemma alive_abstract:
  "alive (abstract_server left p) conn = map_option
     (\<lambda>c. c\<lparr>posted := conn_tasks conn (tasks_to_run p (conn_loop c))\<rparr>) (alive (srv p) conn)"
  by (simp add: abstract_server_def)

lemma on_connection_sim:
  assumes user: "outbox_user ucbs" and wf: "program_wf left p" and c: "alive (srv p) conn = Some c"
    and ev: "ev \<noteq> RunPosted"
  shows "same_result (on_connection efd k ucbs x0 thread conn ev p)
    (server_step k ucbs x0 (OnConnection conn ev) (abstract_server left p))"
proof -
  let ?f = "conn_step (k conn) (server_callbacks (server_loop (srv p)) ucbs conn) ev"
  obtain a where a: "alive (abstract_server left p) conn = Some a" by (simp add: alive_abstract c)
  have "outbox_only ?f" by (rule conn_step_outbox [OF server_callbacks_outbox [OF user] ev])
  from operation_delivered [OF wf c this a] show ?thesis
    unfolding server_step_alive [OF a] on_connection_def server_step_alive [OF c]
    by (simp add: bindE_assoc case_prod_unfold)
qed

section \<open>Tasks\<close>

text \<open>The task at the head of a loop's round is the oldest that is queued.\<close>

lemma take_task:
  assumes "dump p l = Some (old, t # rest)"
  defines "p1 \<equiv> p\<lparr>dump := (dump p)(l \<mapsto> (old @ [t], rest))\<rparr>"
  shows "tasks_to_run p l' = (if l' = l then t # tasks_to_run p1 l' else tasks_to_run p1 l')"
    and "srv p1 = srv p" and "loops p1 = loops p"
  using assms by (simp_all add: tasks_to_run_def)

lemma taken_wf:
  assumes "program_wf left p" and "dump p l = Some (old, t # rest)"
  shows "program_wf left (p\<lparr>dump := (dump p)(l \<mapsto> (old @ [t], rest))\<rparr>)"
  unfolding program_wf_def
proof (intro conjI allI ballI impI)
  let ?p1 = "p\<lparr>dump := (dump p)(l \<mapsto> (old @ [t], rest))\<rparr>"
  show "tasks_in_place left ?p1 l' t'" if "t' \<in> set (tasks_to_run ?p1 l')" for l' t'
  proof -
    have "t' \<in> set (tasks_to_run p l')" using that take_task(1) [OF assms(2), of l'] by (simp split: if_splits)
    from program_wfD(3) [OF assms(1) this] show ?thesis using tasks_in_place_cong [of ?p1 p left l' t'] by simp
  qed
qed (use program_wfD [OF assms(1)] in auto)

lemma conn_task_sim:
  assumes user: "outbox_user ucbs" and wf: "program_wf left p"
    and next_task: "dump p l = Some (old, UserTask (ConnTask conn t) # rest)"
  shows "same_result
    (run_prog_task efd k ucbs x0 l now (UserTask (ConnTask conn t))
       (p\<lparr>dump := (dump p)(l \<mapsto> (old @ [UserTask (ConnTask conn t)], rest))\<rparr>))
    (server_step k ucbs x0 (OnConnection conn RunPosted) (abstract_server left p))"
proof -
  let ?p1 = "p\<lparr>dump := (dump p)(l \<mapsto> (old @ [UserTask (ConnTask conn t)], rest))\<rparr>"
  note take = take_task [OF next_task]
  have "UserTask (ConnTask conn t) \<in> set (tasks_to_run p l)" by (simp add: take(1))
  note home = in_place_of [OF wf this]
  show ?thesis
  proof (cases "alive (srv p) conn")
    case None
    with home show ?thesis by (simp add: alive_abstract)
  next
    case (Some c)
    let ?f = "run_conn_task (k conn) (server_callbacks (server_loop (srv p)) ucbs conn) t"
    have loop: "conn_loop c = l" using home Some by simp
    have c: "alive (srv ?p1) conn = Some c" using Some by simp
    obtain a where a: "alive (abstract_server left ?p1) conn = Some a" by (simp add: alive_abstract Some)
    have a1: "a = c\<lparr>posted := conn_tasks conn (tasks_to_run ?p1 l)\<rparr>"
      using a by (simp add: alive_abstract Some loop)
    have f: "outbox_only ?f" by (rule run_conn_task_outbox [OF server_callbacks_outbox [OF user]])
    have others: "alive (abstract_server left p) j = alive (abstract_server left ?p1) j" if "j \<noteq> conn" for j
      using that by (cases "alive (srv p) j") (auto simp: alive_abstract take(1))
    have shared: "server_shared (abstract_server left p) = server_shared (abstract_server left ?p1)"
      by (simp add: abstract_server_def take(1))
    have alive_p: "alive (abstract_server left p) conn = Some (c\<lparr>posted := t # conn_tasks conn (tasks_to_run ?p1 l)\<rparr>)"
      by (simp add: alive_abstract Some take(1) loop)
    have upd: "(abstract_server left p)\<lparr>server_shared := w, alive := (alive (abstract_server left p))(conn \<mapsto> c')\<rparr> =
        (abstract_server left ?p1)\<lparr>server_shared := w, alive := (alive (abstract_server left ?p1))(conn \<mapsto> c')\<rparr>" for w c'
      using others by (intro server.equality) (auto simp: fun_eq_iff, simp_all add: abstract_server_def)
    have "c\<lparr>posted := []\<rparr> = c" using program_wfD(2) [OF wf Some] by simp
    then show ?thesis
      using operation_delivered [OF taken_wf [OF wf next_task] c f a, of efd "thread_id (loops p l)"]
      unfolding server_step_alive [OF alive_p] upd shared
      by (simp add: Some on_connection_def bindE_assoc case_prod_unfold a1 loop)
  qed
qed

lemma removal_task_sim:
  assumes wf: "program_wf left p"
    and next_task: "dump p l = Some (old, UserTask (RemovalTask conn) # rest)"
  shows "same_result
    (run_prog_task efd k ucbs x0 l now (UserTask (RemovalTask conn))
       (p\<lparr>dump := (dump p)(l \<mapsto> (old @ [UserTask (RemovalTask conn)], rest))\<rparr>))
    (server_step k ucbs x0 RunRemoval (abstract_server left p))"
proof -
  let ?p1 = "p\<lparr>dump := (dump p)(l \<mapsto> (old @ [UserTask (RemovalTask conn)], rest))\<rparr>"
  let ?w = "server_shared (srv p)"
  note take = take_task [OF next_task] and wf1 = taken_wf [OF wf next_task]
  have "UserTask (RemovalTask conn) \<in> set (tasks_to_run p l)" by (simp add: take(1))
  then have base: "l = server_loop (srv p)"
    using program_wfD(3) [OF wf] by fastforce
  let ?R = "removal_tasks (tasks_to_run ?p1 l)"
  have removals: "removals (server_shared (abstract_server left p)) = conn # ?R"
    by (simp add: abstract_server_def take(1) flip: base)
  have alive: "alive (abstract_server left p) = alive (abstract_server left ?p1)"
  proof
    show "alive (abstract_server left p) j = alive (abstract_server left ?p1) j" for j
      by (cases "alive (srv p) j") (simp_all add: alive_abstract take(1))
  qed
  have empty: "removals ?w = []" by (rule program_wfD(1) [OF wf])
  have erased: "erase_connection conn ((server_shared (abstract_server left p))\<lparr>removals := ?R\<rparr>) =
      map_sum id (\<lambda>w. w\<lparr>removals := ?R\<rparr>) (erase_connection conn ?w)"
    using erase_behind [where w = ?w and rs = ?R and conn = conn] by (simp add: abstract_server_def)
  show ?thesis
  proof (cases "erase_connection conn ?w")
    case (Inl e)
    then show ?thesis using erase_behind [where w = ?w and rs = "[]" and conn = conn] by (simp add: run_removal_def removals erased)
  next
    case (Inr w)
    have w: "removals w = []" using erase_removals [OF Inr] empty by simp
    have erased0: "erase_connection conn (?w\<lparr>removals := []\<rparr>) = Inr w"
      using erase_behind [where w = ?w and rs = "[]" and conn = conn] Inr w by simp
    show ?thesis
    proof (cases "alive (srv p) conn")
      case None
      let ?p2 = "?p1\<lparr>srv := (srv p)\<lparr>server_shared := w\<rparr>\<rparr>"
      have run: "tasks_to_run ?p2 l' = tasks_to_run ?p1 l'" for l' by (simp add: tasks_to_run_def)
      have "program_wf left ?p2"
        using wf1 w tasks_in_place_cong [of ?p2 ?p1 left] unfolding program_wf_def by (simp add: run)
      then have "implements ?p2 (abstract_server left ?p2)" by (simp add: implements_def)
      moreover have "abstract_server left ?p2 = (abstract_server left p)\<lparr>server_shared := w\<lparr>removals := ?R\<rparr>,
          alive := (alive (abstract_server left p))(conn := None)\<rparr>"
        using None alive by (intro server.equality)
          (simp_all add: abstract_server_def run fun_eq_iff flip: base)
      moreover have "(alive (srv p))(conn := None) = alive (srv p)" using None by (rule_tac ext) simp
      ultimately show ?thesis
        by (simp add: run_removal_def removals erased Inr erased0 None alive_abstract deliver_def)
    next
      case (Some c)
      let ?s = "(srv p)\<lparr>server_shared := w, alive := (alive (srv p))(conn \<mapsto> post DestroyTask c)\<rparr>"
      have c: "posted c = []" by (rule program_wfD(2) [OF wf Some])
      have "conn < fresh ?s" using program_wfD(4) [OF wf, of conn] Some by (simp, metis leI option.distinct(1))
      moreover have "l' = conn_loop (post DestroyTask c)" if "UserTask (ConnTask conn t) \<in> set (tasks_to_run ?p1 l')" for l' t
        using in_place_of [OF wf1 that] Some by (simp add: post_def)
      ultimately have "implements (deliver efd (thread_id (loops p l)) conn (?p1\<lparr>srv := ?s\<rparr>))
        (?s\<lparr>orphans := left, server_shared := (server_shared ?s)
            \<lparr>removals := removal_tasks (tasks_to_run ?p1 (server_loop (srv ?p1))) @ removals (server_shared ?s)\<rparr>,
          alive := (alive (abstract_server left ?p1)) (conn \<mapsto> (post DestroyTask c)
            \<lparr>posted := conn_tasks conn (tasks_to_run ?p1 (conn_loop (post DestroyTask c))) @ posted (post DestroyTask c)\<rparr>)\<rparr>)"
        by (intro delivered [OF wf1]) simp_all
      moreover have "alive (abstract_server left p) conn =
          Some (c\<lparr>posted := conn_tasks conn (tasks_to_run ?p1 (conn_loop c))\<rparr>)"
        by (simp add: alive alive_abstract Some)
      ultimately show ?thesis
        by (simp add: run_removal_def removals erased Inr erased0 Some w alive post_def c abstract_upd flip: base)
    qed
  qed
qed

section \<open>Connections that come and go\<close>

lemma rel_bindE:
  "rel_sum (=) A m n \<Longrightarrow> (\<And>x y. A x y \<Longrightarrow> rel_sum (=) B (f x) (g y)) \<Longrightarrow> rel_sum (=) B (bindE m f) (bindE n g)"
  by (cases m; cases n) auto

lemma accept_loop_sim:
  assumes "\<And>fd peer p s. R p s \<Longrightarrow> rel_sum (=) R (f fd peer p) (g fd peer s)" and "R p s"
  shows "rel_sum (=) (rel_prod (=) (rel_prod (=) R)) (accept_loop (Some f) answers p) (accept_loop (Some g) answers s)"
  using assms(2)
proof (induction answers arbitrary: p s)
  case Nil
  then show ?case by simp
next
  case (Cons r answers)
  show ?case
  proof (cases r)
    case (Accepted fd peer)
    then show ?thesis using rel_bindE [OF assms(1) [OF Cons.prems, of fd peer] Cons.IH] by simp
  next
    case (AcceptErr e)
    with Cons.prems show ?thesis by simp
  qed
qed

text \<open>What \<open>new_connection\<close> gives to \<open>run_in_loop\<close>, as an operation on the connection.\<close>

definition begin_connection ::
    "kernel \<Rightarrow> ('u shared, 'x) conn_callbacks \<Rightarrow> bool \<Rightarrow> 'u shared \<times> 'x connection
      \<Rightarrow> ('u shared \<times> 'x connection) result" where
  "begin_connection k cbs here s =
     (if here then established k cbs True s else Inr (fst s, post EstablishTask (snd s)))"

lemma begin_connection_outbox: "outbox_callbacks cbs \<Longrightarrow> outbox_only (begin_connection k cbs here)"
proof (cases here)
  case True
  assume "outbox_callbacks cbs"
  from established_outbox [OF this] True show ?thesis by (simp add: begin_connection_def [abs_def])
next
  case False
  show ?thesis by (rule outboxI) (auto simp: False begin_connection_def post_def)
qed

lemma new_connection_eq:
  "server_new_connection k ucbs x0 True fd peer_address s =
     bindE (next_loop True (server_pool s)) (\<lambda>(io_loop, p).
     bindE (assertE (fresh s \<notin> connections (server_shared s))) (\<lambda>_.
     bindE (begin_connection (k (fresh s)) (server_callbacks (server_loop s) ucbs (fresh s)) (io_loop = server_loop s)
        ((server_shared s)\<lparr>connections := insert (fresh s) (connections (server_shared s))\<rparr>,
         tcp_connection_ctor io_loop fd peer_address x0)) (\<lambda>(w2, c2).
     Inr (s\<lparr>server_pool := p, server_shared := w2, alive := (alive s)(fresh s \<mapsto> c2), fresh := Suc (fresh s)\<rparr>))))"
  by (simp add: server_new_connection_def begin_connection_def Let_def cong: if_cong)

lemma new_on_loops_sim:
  assumes user: "outbox_user ucbs" and imp: "implements p s"
  shows "same_result (new_on_loops efd k ucbs x0 fd peer_address p)
    (server_new_connection k ucbs x0 True fd peer_address s)"
proof -
  let ?left = "orphans s" and ?n = "fresh (srv p)" and ?w = "server_shared (srv p)"
  have s: "s = abstract_server ?left p" and wf: "program_wf ?left p" using imp by (simp_all add: implements_def)
  have base: "server_loop s = server_loop (srv p)" "fresh s = ?n" "server_pool s = server_pool (srv p)"
    by (subst s, simp)+
  have none: "alive (srv p) ?n = None" "?left ?n = []" using program_wfD(4) [OF wf, of ?n] by simp_all
  have no_task: "UserTask (ConnTask ?n t) \<notin> set (tasks_to_run p l)" for t l
    using in_place_of [OF wf, of ?n t l] none by auto
  let ?R = "removal_tasks (tasks_to_run p (server_loop (srv p)))"
  have w: "server_shared s = ?w\<lparr>removals := ?R\<rparr>" by (subst s, simp add: abstract_server_def)
  have empty: "removals ?w = []" by (rule program_wfD(1) [OF wf])
  have conns: "connections (server_shared s) = connections ?w" by (simp add: w)
  show ?thesis
  proof (cases "next_loop True (server_pool (srv p))")
    case (Inl e)
    then show ?thesis by (simp add: new_on_loops_def new_connection_eq base)
  next
    case (Inr r)
    obtain io_loop pool where r: "r = (io_loop, pool)" by (cases r)
    let ?c = "tcp_connection_ctor io_loop fd peer_address x0 :: 'b connection"
    let ?f = "begin_connection (k ?n) (server_callbacks (server_loop (srv p)) ucbs ?n) (io_loop = server_loop (srv p))"
    let ?w1 = "?w\<lparr>connections := insert ?n (connections ?w)\<rparr>"
    have f: "outbox_only ?f" by (rule begin_connection_outbox [OF server_callbacks_outbox [OF user]])
    have "((server_shared s)\<lparr>connections := insert ?n (connections ?w)\<rparr>, ?c) = behind ?R [] (?w1, ?c)"
      by (simp add: w empty)
    then have abs: "?f ((server_shared s)\<lparr>connections := insert ?n (connections ?w)\<rparr>, ?c) =
        map_sum id (behind ?R []) (?f (?w1, ?c))" by (simp only: outboxD(1) [OF f])
    show ?thesis
    proof (cases "?n \<in> connections ?w \<or> (\<exists>e. ?f (?w1, ?c) = Inl e)")
      case True
      then show ?thesis
        by (cases "?n \<in> connections ?w") (auto simp: new_on_loops_def new_connection_eq base conns Inr r abs bindE_assertE)
    next
      case False
      then obtain w2 c2 where run: "?f (?w1, ?c) = Inr (w2, c2)" and n: "?n \<notin> connections ?w"
        by (cases "?f (?w1, ?c)") auto
      let ?s = "(srv p)\<lparr>server_pool := pool, server_shared := w2, alive := (alive (srv p))(?n \<mapsto> c2), fresh := Suc ?n\<rparr>"
      have "implements (deliver efd (thread_id (loops p (server_loop (srv p)))) ?n (p\<lparr>srv := ?s\<rparr>))
        (?s\<lparr>orphans := ?left, server_shared := (server_shared ?s)\<lparr>removals := ?R @ removals (server_shared ?s)\<rparr>,
          alive := (alive (abstract_server ?left p))
            (?n \<mapsto> c2\<lparr>posted := conn_tasks ?n (tasks_to_run p (conn_loop c2)) @ posted c2\<rparr>)\<rparr>)"
        by (rule delivered [OF wf]) (use no_task in simp_all)
      moreover have "conn_tasks ?n (tasks_to_run p (conn_loop c2)) = []"
        by (rule conn_tasks_empty) (rule no_task)
      moreover have "s\<lparr>server_pool := pool, server_shared := w2\<lparr>removals := ?R @ removals w2\<rparr>,
            alive := (alive s)(?n \<mapsto> c2), fresh := Suc ?n\<rparr> =
          ?s\<lparr>orphans := ?left, server_shared := (server_shared ?s)\<lparr>removals := ?R @ removals (server_shared ?s)\<rparr>,
            alive := (alive (abstract_server ?left p))(?n \<mapsto> c2)\<rparr>"
        by (subst (1 2) s) (simp add: abstract_server_def)
      ultimately show ?thesis
        using n by (simp add: new_on_loops_def new_connection_eq base conns Inr r run abs)
    qed
  qed
qed

lemma existing_tasks_to_run: "set (tasks_to_run p l) \<subseteq> set (existing_tasks p l)"
  by (auto simp: tasks_to_run_def existing_tasks_def split: option.splits)

lemma conn_tasks_iff: "t \<in> set (conn_tasks conn q) \<longleftrightarrow> UserTask (ConnTask conn t) \<in> set q"
  by (induction conn q rule: conn_tasks.induct) auto

lemma removal_tasks_iff: "r \<in> set (removal_tasks q) \<longleftrightarrow> UserTask (RemovalTask r) \<in> set q"
  by (induction q rule: removal_tasks.induct) auto

text \<open>What no existing task shares, no queued one does.\<close>

lemma not_shared:
  assumes "\<not> list_ex (shares_connection conn) (existing_tasks p l)"
  shows "conn \<notin> set (removal_tasks (tasks_to_run p l))"
    and "\<not> list_ex owns_connection (conn_tasks conn (tasks_to_run p l))"
proof -
  have none: "\<not> shares_connection conn t" if "t \<in> set (tasks_to_run p l)" for t
    using that assms existing_tasks_to_run [of p l] by (auto simp: list_ex_iff)
  show "conn \<notin> set (removal_tasks (tasks_to_run p l))"
    using none [of "UserTask (RemovalTask conn)"] by (auto simp: removal_tasks_iff)
  show "\<not> list_ex owns_connection (conn_tasks conn (tasks_to_run p l))"
    using none by (fastforce simp: list_ex_iff conn_tasks_iff)
qed

lemma release_sim:
  assumes imp: "implements p s" and c: "alive (srv p) conn = Some c"
    and free: "conn \<notin> connections (server_shared (srv p))"
      "\<not> list_ex (shares_connection conn) (existing_tasks p (conn_loop c))"
      "\<not> list_ex (shares_connection conn) (existing_tasks p (server_loop (srv p)))"
  shows "same_result (program_step efd k ucbs x0 (LastReference conn) p) (release k conn s)"
proof -
  let ?left = "orphans s"
  have s: "s = abstract_server ?left p" and wf: "program_wf ?left p" using imp by (simp_all add: implements_def)
  let ?P = "conn_tasks conn (tasks_to_run p (conn_loop c))"
  have a: "alive s conn = Some (c\<lparr>posted := ?P\<rparr>)" by (subst s) (simp add: alive_abstract c)
  have shared: "server_shared s = (server_shared (srv p))\<lparr>removals := removal_tasks (tasks_to_run p (server_loop (srv p)))\<rparr>"
    by (subst s) (simp add: abstract_server_def)
  have abs: "release k conn s = bindE (connection_dtor (k conn) True c) (\<lambda>_.
      Inr (s\<lparr>alive := (alive s)(conn := None), orphans := (orphans s)(conn := ?P)\<rparr>))"
    using not_shared [OF free(2)] not_shared [OF free(3)] free(1)
    by (simp add: release_def a shared connection_dtor_def)
  let ?p = "p\<lparr>srv := (srv p)\<lparr>alive := (alive (srv p))(conn := None)\<rparr>\<rparr>"
  let ?left' = "?left(conn := ?P)"
  have run: "tasks_to_run ?p l = tasks_to_run p l" for l by (simp add: tasks_to_run_def)
  have "program_wf ?left' ?p"
    unfolding program_wf_def
  proof (intro conjI allI ballI impI)
    show "tasks_in_place ?left' ?p l t" if "t \<in> set (tasks_to_run ?p l)" for l t
    proof (cases "\<exists>ct. t = UserTask (ConnTask conn ct)")
      case True
      then obtain ct where t: "t = UserTask (ConnTask conn ct)" by blast
      have "l = conn_loop c" using in_place_of [OF wf, of conn ct l] that c by (simp add: run t)
      with that have "ct \<in> set ?P" by (simp add: conn_tasks_iff run t)
      then show ?thesis by (auto simp: t)
    next
      case False
      have "tasks_in_place ?left p l t" using program_wfD(3) [OF wf] that by (simp add: run)
      with False show ?thesis
        by (cases "(?left, p, l, t)" rule: tasks_in_place.cases) (auto split: option.splits)
    qed
    show "?left' j = []" if "fresh (srv ?p) \<le> j" for j
      using that program_wfD(4) [OF wf, of j] c by auto
  qed (use program_wfD [OF wf] in \<open>auto split: if_splits\<close>)
  moreover have "s\<lparr>alive := (alive s)(conn := None), orphans := ?left'\<rparr> = abstract_server ?left' ?p"
    by (subst (1 2) s) (intro server.equality, simp_all add: abstract_server_def run fun_eq_iff)
  ultimately have "implements ?p (s\<lparr>alive := (alive s)(conn := None), orphans := ?left'\<rparr>)"
    by (simp add: implements_def)
  then show ?thesis
    unfolding abs using c free by (cases "connection_dtor (k conn) True c") simp_all
qed

text \<open>Steps that move tasks within a loop, or concern timers.\<close>

fun is_user_task :: "'t loop_task \<Rightarrow> bool" where
  "is_user_task (UserTask t) \<longleftrightarrow> True"
| "is_user_task (InsertTimer w a) \<longleftrightarrow> False"

lemma tasks_filter:
  "conn_tasks conn (filter is_user_task q) = conn_tasks conn q"
  "removal_tasks (filter is_user_task q) = removal_tasks q"
  by (induction conn q rule: conn_tasks.induct) auto

lemma rearranged:
  assumes "implements p s" and "srv p' = srv p"
    and same: "\<And>l. filter is_user_task (tasks_to_run p' l) = filter is_user_task (tasks_to_run p l)"
  shows "implements p' s"
proof -
  have s: "s = abstract_server (orphans s) p" and wf: "program_wf (orphans s) p"
    using assms(1) by (simp_all add: implements_def)
  have "conn_tasks conn (tasks_to_run p' l) = conn_tasks conn (tasks_to_run p l)"
    "removal_tasks (tasks_to_run p' l) = removal_tasks (tasks_to_run p l)" for conn l
    using tasks_filter same by metis+
  then have "abstract_server (orphans s) p' = abstract_server (orphans s) p"
    by (simp add: abstract_server_def assms(2))
  moreover have "program_wf (orphans s) p'"
    unfolding program_wf_def
  proof (intro conjI allI ballI impI)
    show "tasks_in_place (orphans s) p' l t" if "t \<in> set (tasks_to_run p' l)" for l t
    proof (cases "is_user_task t")
      case True
      with that have "t \<in> set (filter is_user_task (tasks_to_run p' l))" by simp
      then have "t \<in> set (tasks_to_run p l)" unfolding same by simp
      from program_wfD(3) [OF wf this] show ?thesis
        using tasks_in_place_cong [of p' p "orphans s" l t] assms(2) by simp
    next
      case False
      then show ?thesis by (cases t) simp_all
    qed
  qed (use program_wfD [OF wf] assms(2) in auto)
  ultimately show ?thesis using s by (simp add: implements_def)
qed

section \<open>Runs\<close>

lemma program_step_sim:
  assumes user: "outbox_user ucbs" and imp: "implements p s"
  shows "same_result (program_step efd k ucbs x0 ev p) (foldE (server_step k ucbs x0) (shadow p ev) s)"
proof -
  have s: "s = abstract_server (orphans s) p" and wf: "program_wf (orphans s) p"
    using imp by (simp_all add: implements_def)
  show ?thesis
  proof (cases ev)
    case (AcceptorReady answers)
    note accept = accept_loop_sim [of implements "new_on_loops efd k ucbs x0" "server_new_connection k ucbs x0 True",
        OF new_on_loops_sim [OF user] imp, of answers]
    have "same_result
        (bindE (accept_loop (Some (new_on_loops efd k ucbs x0)) answers p) (\<lambda>(ended, closed, p'). Inr p'))
        (bindE (accept_loop (Some (server_new_connection k ucbs x0 True)) answers s) (\<lambda>(ended, closed, s'). Inr s'))"
      by (rule rel_bindE [OF accept]) auto
    with AcceptorReady imp show ?thesis by (cases "dump p (server_loop (srv p)) = None")
        (auto simp: on_incoming_connection_def foldE_fun(1))
  next
    case (ConnReady conn e answer)
    show ?thesis
    proof (cases "alive (srv p) conn")
      case None
      with ConnReady imp show ?thesis by simp
    next
      case (Some c)
      have "same_result (on_connection efd k ucbs x0 (thread_id (loops p (conn_loop c))) conn (Dispatch e answer) p)
          (server_step k ucbs x0 (OnConnection conn (Dispatch e answer)) s)"
        by (subst s) (rule on_connection_sim [OF user wf Some], simp)
      with ConnReady Some imp show ?thesis by (simp add: foldE_fun(1) del: server_step.simps)
    qed
  next
    case (SwapTasks l)
    have "implements (p\<lparr>loops := (loops p)(l := (snd (take_pending (loops p l)))\<lparr>doing_pending_tasks := True\<rparr>),
        dump := (dump p)(l \<mapsto> ([], fst (take_pending (loops p l))))\<rparr>) s" if "dump p l = None"
      by (rule rearranged [OF imp]) (simp_all add: tasks_to_run_def take_pending_def that)
    with SwapTasks imp show ?thesis by (simp add: case_prod_unfold Let_def)
  next
    case (NextTask l now)
    show ?thesis
    proof (cases "\<exists>old t rest. dump p l = Some (old, t # rest)")
      case True
      then obtain old t rest where d: "dump p l = Some (old, t # rest)" by blast
      show ?thesis
      proof (cases t)
        case (UserTask u)
        show ?thesis
        proof (cases u)
          case (ConnTask conn ct)
          from conn_task_sim [OF user wf d [unfolded UserTask ConnTask], of efd k x0 now] s NextTask d UserTask ConnTask
          show ?thesis by (simp add: foldE_fun(1) del: server_step.simps run_prog_task.simps)
        next
          case (RemovalTask conn)
          from removal_task_sim [OF wf d [unfolded UserTask RemovalTask], of efd k ucbs x0 now] s NextTask d UserTask RemovalTask
          show ?thesis by (simp add: foldE_fun(1) del: server_step.simps run_prog_task.simps)
        qed
      next
        case (InsertTimer w a)
        let ?p = "p\<lparr>dump := (dump p)(l \<mapsto> (old @ [t], rest)),
          loops := (loops p)(l := (loops p l)\<lparr>loop_timers := insert_timer now w a (loop_timers (loops p l))\<rparr>)\<rparr>"
        have "implements ?p s"
          by (rule rearranged [OF imp]) (auto simp: tasks_to_run_def d InsertTimer)
        with NextTask d InsertTimer show ?thesis by simp
      qed
    next
      case False
      with NextTask imp show ?thesis by (auto split: option.splits list.splits)
    qed
  next
    case (TasksDone l)
    have "implements (p\<lparr>loops := (loops p)(l := (loops p l)\<lparr>doing_pending_tasks := False\<rparr>), dump := (dump p)(l := None)\<rparr>) s"
      if "dump p l = Some (old, [])" for old
      by (rule rearranged [OF imp]) (auto simp: tasks_to_run_def that)
    with TasksDone imp show ?thesis by (auto split: option.splits list.splits)
  next
    case (UserCall thread conn call)
    show ?thesis
    proof (cases "alive (srv p) conn")
      case None
      with UserCall imp show ?thesis by simp
    next
      case (Some c)
      let ?e = "call_event (in_loop_thread thread (loops p (conn_loop c))) call"
      have "?e \<noteq> RunPosted" by (cases call) simp_all
      then have "same_result (on_connection efd k ucbs x0 thread conn ?e p)
          (server_step k ucbs x0 (OnConnection conn ?e) s)"
        by (subst s) (rule on_connection_sim [OF user wf Some])
      with UserCall Some show ?thesis by (simp add: foldE_fun(1) del: server_step.simps)
    qed
  next
    case (TimerCall thread l w a)
    have "implements (p\<lparr>loops := (loops p)(l := queue_in_loop efd thread (InsertTimer w a) (loops p l))\<rparr>) s"
      by (rule rearranged [OF imp])
        (auto simp: tasks_to_run_def queue_in_loop_def wakeup_if_needed_def wakeup_def push_task_def)
    with TimerCall show ?thesis by simp
  next
    case (LastReference conn)
    show ?thesis
    proof (cases "alive (srv p) conn")
      case (Some c)
      with release_sim [OF imp Some, of efd k ucbs x0] LastReference imp show ?thesis
        by (auto simp: foldE_fun(1))
    qed (simp add: LastReference imp)
  next
    case (WakeupReady l)
    have "implements (p\<lparr>loops := (loops p)(l := handle_wakeup efd (loops p l))\<rparr>) s"
      by (rule rearranged [OF imp]) (auto simp: tasks_to_run_def handle_wakeup_def)
    with WakeupReady imp show ?thesis by simp
  next
    case (QuitCall thread l)
    have "implements (p\<lparr>loops := (loops p)(l := quit efd thread (loops p l))\<rparr>) s"
      by (rule rearranged [OF imp]) (auto simp: tasks_to_run_def quit_def wakeup_def Let_def)
    with QuitCall imp show ?thesis by simp
  qed
qed

text \<open>The contract of a simulation whose steps may go with any number of steps of the abstraction, and
  what it gives for runs.\<close>

fun shadow_run ::
    "('ev \<Rightarrow> 'c \<Rightarrow> 'c result) \<Rightarrow> ('c \<Rightarrow> 'ev \<Rightarrow> 'e list) \<Rightarrow> 'ev list \<Rightarrow> 'c \<Rightarrow> 'e list" where
  "shadow_run cstep shadows [] c = []"
| "shadow_run cstep shadows (ev # evs) c =
     shadows c ev @ (case cstep ev c of Inl e \<Rightarrow> [] | Inr c' \<Rightarrow> shadow_run cstep shadows evs c')"

locale simulation =
  fixes cstep :: "'ev \<Rightarrow> 'c \<Rightarrow> 'c result"
    and astep :: "'e \<Rightarrow> 'a \<Rightarrow> 'a result"
    and shadows :: "'c \<Rightarrow> 'ev \<Rightarrow> 'e list"
    and R :: "'c \<Rightarrow> 'a \<Rightarrow> bool"
  assumes step_sim: "R c a \<Longrightarrow> rel_sum (=) R (cstep ev c) (foldE astep (shadows c ev) a)"
begin

lemma run_sim:
  "R c a \<Longrightarrow> rel_sum (=) R (foldE cstep evs c) (foldE astep (shadow_run cstep shadows evs c) a)"
proof (induction evs arbitrary: c a)
  case Nil
  then show ?case by simp
next
  case (Cons ev evs)
  show ?case
  proof (cases "cstep ev c")
    case (Inl e)
    with step_sim [OF Cons.prems, of ev] show ?thesis
      by (cases "foldE astep (shadows c ev) a") (auto simp: foldE_append)
  next
    case (Inr c')
    with step_sim [OF Cons.prems, of ev] obtain a' where
      "foldE astep (shadows c ev) a = Inr a'" "R c' a'" by (cases "foldE astep (shadows c ev) a") auto
    with Cons.IH [OF this(2)] Inr show ?thesis by (simp add: foldE_append)
  qed
qed

end

interpretation http_loops: simulation
    "program_step efd k (http_user order k files) None" "server_step k (http_user order k files) None" shadow implements
  for efd k order files
  by unfold_locales (rule program_step_sim [OF http_user_outbox])

text \<open>The program after \<open>TcpServer::start\<close>, before its loops run.\<close>

definition program_start :: "('u, 'x) server \<Rightarrow> (nat \<Rightarrow> (prog_task, 'k) event_loop) \<Rightarrow> ('u, 'x, 'k) program" where
  "program_start s el = \<lparr>srv = s, loops = el, dump = (\<lambda>_. None)\<rparr>"

lemma start_implements:
  assumes "server_ctor base fd bind_ok local u = Inr s0" and "server_start new_loop ctl_ok True s0 = Inr s"
    and "\<And>l. event_loop_ctor (tid l) False (tfd l) (wfd l) (kst l) True True = Inr (el l)"
  shows "implements (program_start s el) s"
proof -
  have s: "removals (server_shared s) = []" "alive s = Map.empty" "orphans s = (\<lambda>_. [])"
    using assms(1,2) by (auto simp: server_ctor_def server_start_def start_task_def bindE_eq_Inr)
  have "pending_tasks (el l) = []" for l
    using ctor_idle [OF assms(3)] by simp
  then have none: "tasks_to_run (program_start s el) l = []" for l
    by (simp add: tasks_to_run_def program_start_def)
  have "program_wf (orphans s) (program_start s el)"
    unfolding program_wf_def none by (simp add: program_start_def s)
  moreover have "s = abstract_server (orphans s) (program_start s el)"
    by (intro server.equality) (simp_all add: abstract_server_def none, simp_all add: program_start_def s)
  ultimately show ?thesis by (simp add: implements_def)
qed

section \<open>Properties\<close>

text \<open>C9: The program on its loops implements the server of \<open>Tcp_Server\<close>. Whatever the loops and the threads
  do, with one handler, task or call at a time in any order, the program ends exactly when the
  abstraction ends, with the same error, and otherwise its state is that of the abstraction with
  the tasks of all connections merged into the queues of their loops and the removals into that
  of the server's loop. The only thing asked of the server's user is that its callbacks do not look into
  the queues.\<close>

theorem loops_implement_server:
  assumes "outbox_user ucbs"
    and "server_ctor base fd bind_ok local u = Inr s0" and "server_start new_loop ctl_ok True s0 = Inr s"
    and "\<And>l. event_loop_ctor (tid l) False (tfd l) (wfd l) (kst l) True True = Inr (el l)"
  shows "rel_sum (=) implements
    (foldE (program_step efd k ucbs x0) evs (program_start s el))
    (foldE (server_step k ucbs x0)
       (shadow_run (program_step efd k ucbs x0) shadow evs (program_start s el)) s)"
proof -
  have "simulation (program_step efd k ucbs x0) (server_step k ucbs x0) shadow implements"
    by unfold_locales (rule program_step_sim [OF assms(1)])
  from simulation.run_sim [OF this start_implements [OF assms(2-4)]] show ?thesis .
qed

text \<open>Two connections on the loops 1 and 2; the second one is closed by its peer, and is destroyed only
  after the round that ran \<open>destroyed\<close>.\<close>

definition one_departure :: "prog_event list" where
  "one_departure =
     [AcceptorReady [Accepted 7 zero_sockaddr, Accepted 8 zero_sockaddr, AcceptErr 11],
      SwapTasks 2, NextTask 2 0, TasksDone 2, ConnReady 1 EPOLLIN (ReadOk []),
      SwapTasks 0, NextTask 0 1, TasksDone 0, SwapTasks 2, NextTask 2 2, LastReference 1, TasksDone 2,
      LastReference 1]"

theorem loops_implement_server_witness:
  "\<exists>s0 s (el :: nat \<Rightarrow> (prog_task, nat) event_loop).
    server_ctor 0 3 True zero_sockaddr (0 :: nat) = Inr s0 \<and> server_start Suc True True s0 = Inr s \<and>
    (\<forall>l. event_loop_ctor l False 3 4 0 True True = Inr (el l)) \<and>
    rel_sum (=) implements
      (foldE (program_step counter_eventfd (\<lambda>_. slow_kernel) no_user_callbacks ()) one_departure (program_start s el))
      (foldE (server_step (\<lambda>_. slow_kernel) no_user_callbacks ())
         (shadow_run (program_step counter_eventfd (\<lambda>_. slow_kernel) no_user_callbacks ()) shadow one_departure
            (program_start s el)) s)"
proof -
  obtain s0 :: "(nat, unit) server" where s0: "server_ctor 0 3 True zero_sockaddr (0 :: nat) = Inr s0"
    by (simp add: server_ctor_def pool_ctor_def kNumThreads_def)
  from start_succeeds [OF s0, of Suc] obtain s where s: "server_start Suc True True s0 = Inr s" by blast
  have "\<exists>el. event_loop_ctor l False 3 4 0 True True = Inr (el :: (prog_task, nat) event_loop)" for l
    by (simp add: event_loop_ctor_def timer_queue_ctor_def enable_reading_eq)
  then obtain el :: "nat \<Rightarrow> (prog_task, nat) event_loop" where
    el: "\<And>l. event_loop_ctor l False 3 4 0 True True = Inr (el l)" by metis
  have user: "outbox_user (no_user_callbacks :: (nat, unit) user_callbacks)"
    by (auto simp: outbox_user_def run_callback_def call_if_set_def intro!: outboxI)
  from loops_implement_server [OF user s0 s, where tid = "\<lambda>l. l" and el = el, OF el] s0 s el show ?thesis by blast
qed

end
