(* ===== verification/Http_Program.thy ===== *)
theory Http_Program
  imports Http_Service Server_Loops
begin

text \<open>
  The HTTP server as it runs: \<open>Http_Service\<close> on the loops of \<open>Server_Loops\<close>, from the construction of
  the server and its loops to what every client receives.
\<close>

section \<open>Clients of the program\<close>

text \<open>The events that clients and loops cause, with any masks the kernel may report; no thread calls an
  operation of a connection.\<close>

fun client_activity :: "prog_event \<Rightarrow> bool" where
  "client_activity (UserCall thread conn call) \<longleftrightarrow> False"
| "client_activity ev \<longleftrightarrow> True"

text \<open>The pieces that are read from the client of the connection \<open>j\<close>.\<close>

fun piece_read :: "prog_event \<Rightarrow> ('u, 'x, 'k) program \<Rightarrow> nat \<Rightarrow> bytes list" where
  "piece_read (ConnReady conn e (ReadOk d)) p j =
     (if j = conn \<and> may_read e \<and> d \<noteq> [] \<and>
         (case alive (srv p) conn of
            Some c \<Rightarrow> dump p (conn_loop c) = None \<and> in_interest_list (channel c)
          | None \<Rightarrow> False)
      then [d] else [])"
| "piece_read _ p j = []"

fun pieces_read ::
    "'k eventfd \<Rightarrow> (nat \<Rightarrow> kernel) \<Rightarrow> ('u, 'x) user_callbacks \<Rightarrow> 'x \<Rightarrow> prog_event list
      \<Rightarrow> ('u, 'x, 'k) program \<Rightarrow> nat \<Rightarrow> bytes list" where
  "pieces_read efd k ucbs x0 [] p j = []"
| "pieces_read efd k ucbs x0 (ev # evs) p j =
     piece_read ev p j @
     (case program_step efd k ucbs x0 ev p of Inl e \<Rightarrow> [] | Inr p' \<Rightarrow> pieces_read efd k ucbs x0 evs p' j)"

text \<open>The room that an event may take up in the buffers of its connection.\<close>

fun activity_cost :: "nat \<Rightarrow> prog_event \<Rightarrow> nat" where
  "activity_cost cost (ConnReady conn e answer) = event_cost cost (Dispatch e answer)"
| "activity_cost cost (UserCall thread conn call) = event_cost cost (call_event False call)"
| "activity_cost cost (NextTask l now) = 2 * cost"
| "activity_cost cost _ = 0"

section \<open>The same clients in the abstraction\<close>

lemma shadow_NextTask:
  "shadow p (NextTask l now) = [] \<or> shadow p (NextTask l now) = [RunRemoval] \<or>
   (\<exists>conn. shadow p (NextTask l now) = [OnConnection conn RunPosted])"
proof (cases "dump p l")
  case (Some d)
  obtain old rest where d: "d = (old, rest)" by (cases d)
  show ?thesis
  proof (cases rest)
    case (Cons t ts)
    show ?thesis
    proof (cases t)
      case (UserTask u)
      then show ?thesis by (cases u) (simp_all add: Some d Cons)
    qed (simp add: Some d Cons)
  qed (simp add: Some d)
qed simp

lemma shadow_clients: "client_activity ev \<Longrightarrow> list_all client_event (shadow p ev)"
proof (cases ev)
  case (NextTask l now)
  then show ?thesis using shadow_NextTask [of p l now] by auto
qed (simp_all split: option.split)

lemma shadow_cost: "sum_list (map (server_cost cost) (shadow p ev)) \<le> activity_cost cost ev"
proof (cases ev)
  case (NextTask l now)
  then show ?thesis using shadow_NextTask [of p l now] by auto
next
  case (UserCall thread conn call)
  then show ?thesis by (cases call) (simp_all split: option.split)
next
  case (LastReference conn)
  then show ?thesis by (cases "alive (srv p) conn") simp_all
qed (simp_all split: option.split)

lemma shadow_run_clients:
  "list_all client_activity evs \<Longrightarrow> list_all client_event (shadow_run step shadow evs p)"
  by (induction evs arbitrary: p) (auto simp: shadow_clients split: sum.split)

lemma shadow_run_cost:
  "sum_list (map (server_cost cost) (shadow_run step shadow evs p)) \<le> sum_list (map (activity_cost cost) evs)"
proof (induction evs arbitrary: p)
  case (Cons ev evs)
  have "sum_list (map (server_cost cost) (case step ev p of Inl e \<Rightarrow> [] | Inr c \<Rightarrow> shadow_run step shadow evs c))
      \<le> sum_list (map (activity_cost cost) evs)"
    using Cons.IH by (cases "step ev p") simp_all
  then show ?case using add_mono [OF shadow_cost] by simp
qed simp

lemma read_by_append:
  "read_by k ucbs x0 (evs @ evs') s j =
     read_by k ucbs x0 evs s j @ (case foldE (server_step k ucbs x0) evs s of Inl e \<Rightarrow> [] | Inr s' \<Rightarrow> read_by k ucbs x0 evs' s' j)"
proof (induction evs arbitrary: s)
  case (Cons ev evs)
  then show ?case by (cases "server_step k ucbs x0 ev s") (simp_all del: server_step.simps)
qed simp

lemma implements_alive:
  assumes "implements p s"
  shows "alive s conn = map_option
    (\<lambda>c. c\<lparr>posted := conn_tasks conn (tasks_to_run p (conn_loop c))\<rparr>) (alive (srv p) conn)"
proof -
  have "s = abstract_server (orphans s) p" using assms by (simp add: implements_def)
  then have "alive s conn = alive (abstract_server (orphans s) p) conn" by (rule arg_cong)
  then show ?thesis unfolding alive_abstract .
qed

lemma read_by_single: "read_by k ucbs x0 [ev] s j = taken ev s j"
  by (cases "server_step k ucbs x0 ev s") (simp_all del: server_step.simps)

lemma shadow_read:
  assumes "implements p s"
  shows "read_by k ucbs x0 (shadow p ev) s j = piece_read ev p j"
proof (cases ev)
  case (ConnReady conn e answer)
  show ?thesis
  proof (cases "alive (srv p) conn")
    case None
    then show ?thesis by (cases answer) (simp_all add: ConnReady)
  next
    case (Some c)
    then show ?thesis
      by (cases answer) (simp_all add: ConnReady read_by_single implements_alive [OF assms] del: read_by.simps(2))
  qed
next
  case (NextTask l now)
  then show ?thesis using shadow_NextTask [of p l now] by (auto simp: read_by_single simp del: read_by.simps(2))
next
  case (UserCall thread conn call)
  then show ?thesis
    by (cases call; cases "alive (srv p) conn") (simp_all add: read_by_single del: read_by.simps(2))
next
  case (LastReference conn)
  then show ?thesis by (cases "alive (srv p) conn") (simp_all add: read_by_single del: read_by.simps(2))
qed (simp_all add: read_by_single del: read_by.simps(2))

lemma shadow_run_read:
  assumes "outbox_user ucbs"
  shows "implements p s \<Longrightarrow>
    read_by k ucbs x0 (shadow_run (program_step efd k ucbs x0) shadow evs p) s j = pieces_read efd k ucbs x0 evs p j"
proof (induction evs arbitrary: p s)
  case Nil
  then show ?case by simp
next
  case (Cons ev evs)
  note sim = program_step_sim [OF assms Cons.prems, of efd k x0 ev]
  show ?case
  proof (cases "program_step efd k ucbs x0 ev p")
    case (Inl e)
    then show ?thesis by (simp add: read_by_append shadow_read [OF Cons.prems] split: sum.split)
  next
    case (Inr p')
    with sim obtain s' where s': "foldE (server_step k ucbs x0) (shadow p ev) s = Inr s'" "implements p' s'"
      by (cases "foldE (server_step k ucbs x0) (shadow p ev) s") auto
    show ?thesis
      by (simp add: Inr read_by_append shadow_read [OF Cons.prems] s'(1) Cons.IH [OF s'(2)])
  qed
qed

section \<open>Properties\<close>


text \<open>Two clients on the loops 1 and 2 whose events interleave; the second one hangs up.\<close>

definition two_clients_on_loops :: "bytes \<Rightarrow> prog_event list" where
  "two_clients_on_loops t =
     [AcceptorReady [Accepted 7 zero_sockaddr, Accepted 8 zero_sockaddr, AcceptErr 11],
      SwapTasks 2, SwapTasks 1, NextTask 2 0, NextTask 1 0, TasksDone 1, TasksDone 2,
      ConnReady 1 EPOLLIN (ReadOk t), ConnReady 0 (EPOLLIN OR EPOLLOUT) (ReadOk t), ConnReady 0 EPOLLOUT (ReadOk []),
      ConnReady 1 (EPOLLIN OR EPOLLHUP) (ReadOk []), SwapTasks 0, NextTask 0 1, TasksDone 0, SwapTasks 2, NextTask 2 2,
      TasksDone 2, LastReference 1]"

fun piece_offered :: "nat \<Rightarrow> prog_event \<Rightarrow> bytes list" where
  "piece_offered j (ConnReady conn e (ReadOk d)) = (if j = conn \<and> may_read e \<and> d \<noteq> [] then [d] else [])"
| "piece_offered j _ = []"

lemma pieces_read_offered: "subseq (pieces_read efd k ucbs x0 evs p j) (concat (map (piece_offered j) evs))"
proof (induction evs arbitrary: p)
  case (Cons ev evs)
  have "subseq (piece_read ev p j) (piece_offered j ev)" by (cases "(ev, p, j)" rule: piece_read.cases) auto
  then show ?case
    using Cons.IH by (auto intro: list_emb_append_mono list_emb_append2 split: sum.split)
qed simp


end
