(* ===== verification/Program_Rounds.thy ===== *)
theory Program_Rounds
  imports Http_Program
begin

text \<open>
  What the program on its loops owes to its connections: rounds of \<open>do_pending_tasks\<close> come to an
  end, and when the loops have nothing left to do, every closed connection can go.
\<close>

section \<open>The invariant of the server, for the program\<close>

lemma implements_parts:
  assumes "implements p s"
  shows "connections (server_shared s) = connections (server_shared (srv p))"
    and "removals (server_shared s) = removal_tasks (tasks_to_run p (server_loop (srv p)))"
    and "server_loop s = server_loop (srv p)"
proof -
  have s: "s = abstract_server (orphans s) p" using assms by (simp add: implements_def)
  show "connections (server_shared s) = connections (server_shared (srv p))"
    "removals (server_shared s) = removal_tasks (tasks_to_run p (server_loop (srv p)))"
    "server_loop s = server_loop (srv p)"
    by (subst s, simp add: abstract_server_def)+
qed

lemma program_run_ok:
  assumes "\<And>conn. kernel_ok (k conn)" and "good_user base cost ucbs" and "outbox_user ucbs"
    and "implements p s" and "server_inv (sum_list (map (activity_cost cost) evs) + n) s" and "server_loop s = base"
  shows "case foldE (program_step efd k ucbs x0) evs p of
      Inl e \<Rightarrow> user_raised base ucbs e
    | Inr p' \<Rightarrow> \<exists>s'. implements p' s' \<and> server_inv n s' \<and> server_loop s' = base"
proof -
  let ?step = "program_step efd k ucbs x0"
  let ?sevs = "shadow_run ?step shadow evs p"
  have user: "server_user k base ucbs cost" using assms(1,2) by unfold_locales
  have "simulation ?step (server_step k ucbs x0) shadow implements"
    by unfold_locales (rule program_step_sim [OF assms(3)])
  note sim = simulation.run_sim [OF this assms(4), of evs]
  have "server_inv (sum_list (map (server_cost cost) ?sevs) + n) s"
    using server_inv_mono [OF assms(5)] shadow_run_cost [of cost ?step evs p] by simp
  from server_user.server_run_fine [OF user this assms(6), of x0]
  have ok: "server_step_ok n base ucbs (foldE (server_step k ucbs x0) ?sevs s)" .
  show ?thesis
    using sim ok
    by (cases "foldE ?step evs p"; cases "foldE (server_step k ucbs x0) ?sevs s") (auto simp: server_step_ok_def)
qed

section \<open>Rounds\<close>

lemma run_prog_task_dump:
  assumes "run_prog_task efd k ucbs x0 l now t p = Inr p'"
  shows "dump p' = dump p"
proof -
  have deliver: "dump (deliver efd thread conn q) = dump q" for thread conn and q :: "('a, 'b, 'c) program"
  proof (cases "alive (srv q) conn")
    case (Some c)
    then show ?thesis by (rule deliver_simps(2))
  qed (simp add: deliver_def)
  show ?thesis
    using assms
    by (cases "(efd, k, ucbs, x0, l, now, t, p)" rule: run_prog_task.cases)
      (auto simp: on_connection_def deliver bindE_eq_Inr simp del: server_step.simps split: option.splits)
qed

text \<open>What is queued during a round waits for the next one, so a round ends after the tasks it began with.\<close>

lemma round_ends:
  assumes "dump p l = Some (old, rest)"
    and "foldE (program_step efd k ucbs x0) (replicate (length rest) (NextTask l now) @ [TasksDone l]) p = Inr p'"
  shows "dump p' = (dump p)(l := None)"
  using assms
proof (induction rest arbitrary: p old)
  case Nil
  then show ?case by auto
next
  case (Cons t rest)
  from Cons.prems obtain p1 where
    step: "run_prog_task efd k ucbs x0 l now t (p\<lparr>dump := (dump p)(l \<mapsto> (old @ [t], rest))\<rparr>) = Inr p1"
    and run: "foldE (program_step efd k ucbs x0) (replicate (length rest) (NextTask l now) @ [TasksDone l]) p1 = Inr p'"
    by (auto simp: bindE_eq_Inr)
  have dump: "dump p1 = (dump p)(l \<mapsto> (old @ [t], rest))" using run_prog_task_dump [OF step] by simp
  then have "dump p1 l = Some (old @ [t], rest)" by simp
  from Cons.IH [OF this run] show ?case by (auto simp: dump)
qed

section \<open>Properties\<close>

text \<open>C7: When its loops are idle, the program keeps no closed connection. After any run in which handlers, tasks
  and calls of any thread take their turns in any order, each as one step, a connection whose own loop and
  whose server's loop have no task left is in the server's set exactly when it is not closed; and when
  it is closed, nothing shares it any more, so that its destructor runs, which closes the descriptor. It is
  assumed that the run has not ended with an error, that no call of \<open>epoll_ctl\<close> fails, that only registered
  channels are reported, that the bytes fit into strings, and that the user's callbacks keep the contract
  \<open>good_user\<close> and only add to the queues of tasks (\<open>outbox_user\<close>). When another thread's call of \<open>send\<close>, \<open>shutdown\<close> or \<open>force_close\<close> is cut in two by the
  close of its connection, this fails: see \<open>Cross_Thread\<close>.\<close>

theorem idle_loops_leak_nothing:
  assumes "\<And>conn. kernel_ok (k conn)" and "good_user base cost ucbs" and "outbox_user ucbs"
    and "server_ctor base fd bind_ok local u = Inr s0" and "base \<notin> range new_loop"
    and "server_start new_loop ctl_ok True s0 = Inr s"
    and "\<And>l. event_loop_ctor (tid l) False (tfd l) (wfd l) (kst l) True True = Inr (el l)"
    and "sum_list (map (activity_cost cost) evs) + 8 \<le> max_string_size"
    and "foldE (program_step efd k ucbs x0) evs (program_start s el) = Inr p"
    and "alive (srv p) conn = Some c"
    and "\<And>l. l \<in> {conn_loop c, base} \<Longrightarrow> existing_tasks p l = []"
  shows "(conn \<in> connections (server_shared (srv p)) \<longleftrightarrow> conn_state c \<noteq> kDisconnected) \<and>
    (conn_state c = kDisconnected \<longrightarrow>
      (\<exists>p'. program_step efd k ucbs x0 (LastReference conn) p = Inr p' \<and> alive (srv p') conn = None))"
proof -
  note start = started_inv [OF assms(4) assms(8,5,6)]
  have "server_inv (sum_list (map (activity_cost cost) evs) + 0) s" using start(1) by simp
  from program_run_ok [where k = k and efd = efd and ?x0.0 = x0,
      OF assms(1-3) start_implements [where el = el, OF assms(4,6,7)] this start(2)] assms(9)
  obtain s' where s': "implements p s'" "server_inv 0 s'" "server_loop s' = base" by auto
  note parts = implements_parts [OF s'(1)]
  have idle: "tasks_to_run p l = []" if "l \<in> {conn_loop c, base}" for l
    using existing_tasks_to_run [of p l] assms(11) [OF that] by simp
  have gone: "removals (server_shared s') = []" using idle [of base] s'(3) parts(2,3) by simp
  have c': "alive s' conn = Some (c\<lparr>posted := []\<rparr>)"
    using assms(10) idle [of "conn_loop c"] by (simp add: implements_alive [OF s'(1)])
  have link: "linked 0 base conn (server_shared s') (Some (c\<lparr>posted := []\<rparr>))"
    using s'(2,3) c' by (metis server_inv_def)
  have in_set: "conn \<in> connections (server_shared (srv p)) \<longleftrightarrow> conn_state c \<noteq> kDisconnected"
    using link gone parts(1) by auto
  moreover have "\<exists>p'. program_step efd k ucbs x0 (LastReference conn) p = Inr p' \<and> alive (srv p') conn = None"
    if closed: "conn_state c = kDisconnected"
  proof -
    have "closed_for_good (c\<lparr>posted := []\<rparr>)" using closed_for_good [of 0 "c\<lparr>posted := []\<rparr>"] link closed by simp
    then obtain x where "connection_dtor (k conn) True c = Inr x"
      by (simp add: connection_dtor_def closed_for_good_def channel_dtor_iff Let_def)
    then show ?thesis
      using in_set closed assms(10,11) s'(3) parts(3) by simp
  qed
  ultimately show ?thesis by blast
qed

text \<open>A connection whose peer closes it, with the rounds of the two loops that take it down.\<close>

definition one_open :: "nat \<Rightarrow> prog_event list" where
  "one_open l = [AcceptorReady [Accepted 7 zero_sockaddr, AcceptErr 11], SwapTasks l, NextTask l 0, TasksDone l]"

definition one_hangup :: "prog_event list" where
  "one_hangup = [ConnReady 0 EPOLLIN (ReadOk []), SwapTasks 0, NextTask 0 1, TasksDone 0]"

definition one_closed :: "nat \<Rightarrow> prog_event list" where
  "one_closed l = one_open l @ one_hangup @ [SwapTasks l, NextTask l 2, TasksDone l]"

definition around :: "nat \<Rightarrow> nat set \<Rightarrow> (nat, unit, nat) program \<Rightarrow> unit connection \<Rightarrow> bool" where
  "around l conns P c \<longleftrightarrow> alive (srv P) 0 = Some c \<and> conn_loop c = l \<and> posted c = [] \<and> server_loop (srv P) = 0 \<and>
     server_shared (srv P) = \<lparr>connections = conns, removals = [], user_state = 0\<rparr> \<and> dump P = (\<lambda>_. None) \<and>
     fresh (srv P) = 1 \<and> (\<forall>j. thread_id (loops P j) = j)"

lemma one_closed_stages:
  assumes "server_ctor 0 3 True zero_sockaddr (0 :: nat) = Inr s0" and "server_start Suc True True s0 = Inr s"
    and "\<And>l. event_loop_ctor l False 3 4 0 True True = Inr (el l :: (prog_task, nat) event_loop)"
  shows "\<exists>l p1 c1 p2 c2 p3 c3. l \<noteq> 0 \<and>
    (let step = program_step counter_eventfd (\<lambda>_. slow_kernel) no_user_callbacks () in
     foldE step (one_open l) (program_start s el) = Inr p1 \<and> around l {0} p1 c1 \<and> in_interest_list (channel c1) \<and>
     foldE step one_hangup p1 = Inr p2 \<and> around l {} p2 c2 \<and>
     existing_tasks p2 l = [UserTask (ConnTask 0 DestroyTask)] \<and>
     foldE step [SwapTasks l, NextTask l 2, TasksDone l] p2 = Inr p3 \<and> around l {} p3 c3 \<and>
     conn_state c3 = kDisconnected \<and> (\<forall>j. existing_tasks p3 j = []))"
proof -
  have "server_inv 0 s" "server_loop s = 0"
    using started_inv [OF assms(1) _ _ assms(2), of 0] by (simp_all add: max_string_size_def image_iff)
  note i = this(1) [unfolded server_inv_def]
  have new: "fresh s = 0" "server_shared s = \<lparr>connections = {}, removals = [], user_state = 0\<rparr>"
    "alive s = Map.empty"
    using assms by (auto simp: server_ctor_def server_start_def start_task_def bindE_eq_Inr)
  from pool.pick [of "server_pool s"] i obtain l p where p: "next_loop True (server_pool s) = Inr (l, p)"
    "l \<in> pool_loops (server_pool s)" by blast
  then have l: "l \<noteq> 0" using i \<open>server_loop s = 0\<close> by metis
  have el: "pending_tasks (el l) = []" "thread_id (el l) = l" "doing_pending_tasks (el l) = False" for l
    using ctor_idle [OF assms(3)] assms(3) [of l, symmetric]
    by (auto simp: event_loop_ctor_def bindE_eq_Inr timer_queue_ctor_def enable_reading_eq)
  let ?step = "program_step counter_eventfd (\<lambda>_. slow_kernel) no_user_callbacks ()"
  note run_defs = on_connection_def deliver_def Let_def take_pending_def around_def server_callbacks_def
    run_callback_def call_if_set_def set_state_def on_channel_eq [OF slow_kernel_ok]
    queue_on_def queue_in_loop_def wakeup_if_needed_def push_task_def wakeup_def post_def
  have "\<exists>P c. ?step (AcceptorReady [Accepted 7 zero_sockaddr, AcceptErr 11]) (program_start s el) = Inr P \<and>
    around l {0} P c \<and> conn_state c = kConnecting \<and> channel c = new_channel l 7 \<and> in_buffer c = new_buffer \<and>
    (\<forall>j. pending_tasks (loops P j) = (if j = l then [UserTask (ConnTask 0 EstablishTask)] else []))"
    using p(1) l \<open>server_loop s = 0\<close> el
    by (simp add: program_start_def on_incoming_connection_def new_on_loops_def server_new_connection_def new
        tcp_connection_ctor_def run_defs)
  then obtain P1 c1 where P1: "?step (AcceptorReady [Accepted 7 zero_sockaddr, AcceptErr 11]) (program_start s el) = Inr P1"
    "around l {0} P1 c1" "conn_state c1 = kConnecting" "channel c1 = new_channel l 7" "in_buffer c1 = new_buffer"
    "\<And>j. pending_tasks (loops P1 j) = (if j = l then [UserTask (ConnTask 0 EstablishTask)] else [])" by blast
  have "\<exists>P c. foldE ?step [SwapTasks l, NextTask l 0, TasksDone l] P1 = Inr P \<and>
    around l {0} P c \<and> conn_state c = kConnected \<and> in_interest_list (channel c) \<and> events (channel c) \<noteq> 0 \<and>
    in_buffer c = new_buffer \<and>
    (\<forall>j. pending_tasks (loops P j) = [])"
    using P1(2-) l
    by (simp add: established_def new_channel_def epoll_constants run_defs)
  then obtain P2 c2 where P2: "foldE ?step [SwapTasks l, NextTask l 0, TasksDone l] P1 = Inr P2"
    "around l {0} P2 c2" "conn_state c2 = kConnected" "in_interest_list (channel c2)" "events (channel c2) \<noteq> 0"
    "in_buffer c2 = new_buffer" "\<And>j. pending_tasks (loops P2 j) = []" by blast
  obtain b where b: "read_fd (ReadOk []) new_buffer = Inr ((0, None), b)"
    using read_fd_spec [of new_buffer "[]" 0] by (auto simp: max_string_size_def)
  have "\<exists>P c. ?step (ConnReady 0 EPOLLIN (ReadOk [])) P2 = Inr P \<and>
    around l {0} P c \<and> conn_state c = kDisconnected \<and> \<not> in_interest_list (channel c) \<and>
    (\<forall>j. pending_tasks (loops P j) = (if j = 0 then [UserTask (RemovalTask 0)] else []))"
    using P2(2-) l b
    by (simp add: handle_conn_events_def handle_events_def conn_channel_callbacks_def
        set_revents_def epoll_constants handle_read_def handle_close_def has_none_events_def remove_connection_def
        run_defs)
  then obtain P3 c3 where P3: "?step (ConnReady 0 EPOLLIN (ReadOk [])) P2 = Inr P3"
    "around l {0} P3 c3" "conn_state c3 = kDisconnected" "\<not> in_interest_list (channel c3)"
    "\<And>j. pending_tasks (loops P3 j) = (if j = 0 then [UserTask (RemovalTask 0)] else [])" by blast
  have "\<exists>P c. foldE ?step [SwapTasks 0, NextTask 0 1, TasksDone 0] P3 = Inr P \<and>
    around l {} P c \<and> conn_state c = kDisconnected \<and> \<not> in_interest_list (channel c) \<and>
    (\<forall>j. pending_tasks (loops P j) = (if j = l then [UserTask (ConnTask 0 DestroyTask)] else []))"
    using P3(2-) l
    by (simp add: run_removal_def erase_connection_def run_defs)
  then obtain P4 c4 where P4: "foldE ?step [SwapTasks 0, NextTask 0 1, TasksDone 0] P3 = Inr P4"
    "around l {} P4 c4" "conn_state c4 = kDisconnected" "\<not> in_interest_list (channel c4)"
    "\<And>j. pending_tasks (loops P4 j) = (if j = l then [UserTask (ConnTask 0 DestroyTask)] else [])" by blast
  have "\<exists>P c. foldE ?step [SwapTasks l, NextTask l 2, TasksDone l] P4 = Inr P \<and>
    around l {} P c \<and> conn_state c = kDisconnected \<and> (\<forall>j. pending_tasks (loops P j) = [])"
    using P4(2-) l
    by (simp add: destroyed_def run_defs)
  then obtain P5 c5 where P5: "foldE ?step [SwapTasks l, NextTask l 2, TasksDone l] P4 = Inr P5"
    "around l {} P5 c5" "conn_state c5 = kDisconnected" "\<And>j. pending_tasks (loops P5 j) = []" by blast
  have single: "foldE ?step (ev # evs) P = bindE (?step ev P) (foldE ?step evs)" for ev evs P by simp
  have "foldE ?step (one_open l) (program_start s el) = Inr P2" "foldE ?step one_hangup P2 = Inr P4"
    unfolding one_open_def one_hangup_def by (simp_all only: single P1(1) P3(1) bindE_simps)
      (use P2(1) P4(1) in \<open>simp_all only: single\<close>)
  moreover have "existing_tasks P4 l = [UserTask (ConnTask 0 DestroyTask)]" "existing_tasks P5 j = []" for j
    using P4(2,5) P5(2,4) by (simp_all add: around_def existing_tasks_def)
  ultimately show ?thesis using l P2(2,4) P4(2) P5(1-3) unfolding Let_def by blast
qed

lemma one_closed_run:
  assumes "server_ctor 0 3 True zero_sockaddr (0 :: nat) = Inr s0" and "server_start Suc True True s0 = Inr s"
    and "\<And>l. event_loop_ctor l False 3 4 0 True True = Inr (el l :: (prog_task, nat) event_loop)"
  shows "\<exists>l p c. foldE (program_step counter_eventfd (\<lambda>_. slow_kernel) no_user_callbacks ()) (one_closed l)
      (program_start s el) = Inr p \<and> alive (srv p) 0 = Some c \<and> conn_state c = kDisconnected \<and>
    existing_tasks p (conn_loop c) = [] \<and> existing_tasks p 0 = []"
  using one_closed_stages [OF assms] unfolding one_closed_def foldE_append Let_def around_def
  by (metis bindE_simps(2))

theorem idle_loops_leak_nothing_witness:
  "\<exists>s0 s (el :: nat \<Rightarrow> (prog_task, nat) event_loop) l p c.
    server_ctor 0 3 True zero_sockaddr (0 :: nat) = Inr s0 \<and> server_start Suc True True s0 = Inr s \<and>
    (let step = program_step counter_eventfd (\<lambda>_. slow_kernel) no_user_callbacks () in
     foldE step (one_closed l) (program_start s el) = Inr p \<and> alive (srv p) 0 = Some c \<and>
     conn_state c = kDisconnected \<and> 0 \<notin> connections (server_shared (srv p)) \<and>
     (\<exists>p'. step (LastReference 0) p = Inr p' \<and> alive (srv p') 0 = None))"
proof -
  obtain s0 :: "(nat, unit) server" where s0: "server_ctor 0 3 True zero_sockaddr (0 :: nat) = Inr s0"
    by (simp add: server_ctor_def pool_ctor_def kNumThreads_def)
  from start_succeeds [OF s0, of Suc] obtain s where s: "server_start Suc True True s0 = Inr s" by blast
  have "\<exists>el. event_loop_ctor l False 3 4 0 True True = Inr (el :: (prog_task, nat) event_loop)" for l
    by (simp add: event_loop_ctor_def timer_queue_ctor_def enable_reading_eq)
  then obtain el :: "nat \<Rightarrow> (prog_task, nat) event_loop" where
    el: "\<And>l. event_loop_ctor l False 3 4 0 True True = Inr (el l)" by metis
  from one_closed_run [OF s0 s el] obtain l p c where
    run: "foldE (program_step counter_eventfd (\<lambda>_. slow_kernel) no_user_callbacks ()) (one_closed l)
      (program_start s el) = Inr p"
    and c: "alive (srv p) 0 = Some c" "conn_state c = kDisconnected"
    and idle: "\<And>j. j \<in> {conn_loop c, 0} \<Longrightarrow> existing_tasks p j = []" by blast
  have k: "kernel_ok slow_kernel" by (rule slow_kernel_ok)
  have quiet: "good_user 0 0 (no_user_callbacks :: (nat, unit) user_callbacks)"
    by (simp add: good_user_def good_user_callback_def run_callback_def call_if_set_def good_callback_def advances_refl)
  have outbox: "outbox_user (no_user_callbacks :: (nat, unit) user_callbacks)"
    by (auto simp: outbox_user_def run_callback_def call_if_set_def intro!: outboxI)
  have cost: "sum_list (map (activity_cost 0) (one_closed l)) + 8 \<le> max_string_size"
    by (simp add: one_closed_def one_open_def one_hangup_def max_string_size_def)
  have base: "0 \<notin> range Suc" by auto
  from idle_loops_leak_nothing [where tid = "\<lambda>l. l" and el = el,
      OF k quiet outbox s0 base s el cost run c(1) idle] s0 s run c
  show ?thesis unfolding Let_def by blast
qed

end
