(* ===== verification/Active_Channels.thy ===== *)
theory Active_Channels
  imports Program_Rounds
begin

text \<open>
  The raw pointers of the epoller. \<open>Epoller::wait\<close> hands out pointers to the channels that the kernel
  has reported, and \<open>EventLoop::loop\<close> calls \<open>handle_events\<close> of one after the other, while the
  connections that own the channels are shared by other threads. Here it is shown that none of them
  is destroyed before the loop goes on to its tasks.
\<close>

section \<open>What keeps a connection\<close>

text \<open>The server's set, or the task that runs \<open>destroyed\<close> in the connection's own loop.\<close>

definition kept :: "nat \<Rightarrow> nat \<Rightarrow> ('u, 'x) server \<Rightarrow> bool" where
  "kept l conn s \<longleftrightarrow>
     (case alive s conn of
        None \<Rightarrow> False
      | Some c \<Rightarrow> conn_loop c = l \<and> (conn \<in> connections (server_shared s) \<or> DestroyTask \<in> set (posted c)))"

lemma kept_cong:
  "alive s' conn = alive s conn \<Longrightarrow> conn \<in> connections (server_shared s) \<longrightarrow> conn \<in> connections (server_shared s') \<Longrightarrow>
   kept l conn s \<Longrightarrow> kept l conn s'"
  by (auto simp: kept_def split: option.splits)

lemma kept_new_connection:
  assumes inv: "server_inv n s" and new: "server_new_connection k ucbs x0 True fd a s = Inr s'" and "kept l conn s"
  shows "kept l conn s'"
proof (rule kept_cong [OF _ _ assms(3)])
  from new_connection_ok [OF inv, of k ucbs x0 fd a] new
  obtain io_loop where "alive s' = (alive s)(fresh s \<mapsto> start_connection io_loop fd a x0)" by auto
  moreover have "conn \<noteq> fresh s" using inv assms(3) by (auto simp: server_inv_def kept_def split: option.splits)
  ultimately show "alive s' conn = alive s conn" by simp
  note i = inv [unfolded server_inv_def]
  from pool.pick [of "server_pool s"] i obtain j p where p: "next_loop True (server_pool s) = Inr (j, p)"
    "j \<in> pool_loops (server_pool s)" by blast
  then have "j \<noteq> server_loop s" using i by auto
  with new p(1) have "connections (server_shared s') = insert (fresh s) (connections (server_shared s))"
    by (auto simp: server_new_connection_def Let_def bindE_assertE split: if_splits)
  then show "conn \<in> connections (server_shared s) \<longrightarrow> conn \<in> connections (server_shared s')" by simp
qed

lemma kept_incoming:
  "server_inv n s \<Longrightarrow> kept l conn s \<Longrightarrow>
   accept_loop (Some (server_new_connection k ucbs x0 True)) answers s = Inr (ended, closed, s') \<Longrightarrow> kept l conn s'"
proof (induction answers arbitrary: s)
  case (Cons r answers)
  show ?case
  proof (cases r)
    case (Accepted fd peer_address)
    from new_connection_ok [OF Cons.prems(1), of k ucbs x0 fd peer_address] obtain s1 where s1:
      "server_new_connection k ucbs x0 True fd peer_address s = Inr s1" "server_inv n s1" by blast
    have "accept_loop (Some (server_new_connection k ucbs x0 True)) answers s1 = Inr (ended, closed, s')"
      using Cons.prems(3) by (simp add: Accepted s1(1))
    from Cons.IH [OF s1(2) kept_new_connection [OF Cons.prems(1) s1(1) Cons.prems(2)] this] show ?thesis .
  next
    case (AcceptErr e)
    with Cons.prems show ?thesis by simp
  qed
qed simp

lemma kept_removal:
  assumes "run_removal s = Inr s'" and "kept l conn s"
  shows "kept l conn s'"
  using assms
  by (auto simp: run_removal_def kept_def erase_connection_def Let_def bindE_assertE post_def
      split: list.splits option.splits if_splits)

lemma kept_release:
  assumes "release k conn' s = Inr s'" and "kept l conn s"
  shows "kept l conn s'"
  using assms
  by (cases "conn' = conn")
    (auto simp: release_def kept_def bindE_eq_Inr list_ex_iff split: option.splits if_splits)

text \<open>An operation of the connection itself, other than running a task, only adds to its tasks.\<close>

lemma posted_grows:
  assumes "outbox_user ucbs" and "ev \<noteq> RunPosted"
    and "conn_step k (server_callbacks base ucbs conn) ev (w, c) = Inr (w', c')"
  shows "conn_loop c' = conn_loop c \<and> (\<exists>ts. posted c' = posted c @ ts)"
proof -
  let ?f = "conn_step k (server_callbacks base ucbs conn) ev"
  have f: "outbox_only ?f" by (rule conn_step_outbox [OF server_callbacks_outbox [OF assms(1)] assms(2)])
  let ?c = "c\<lparr>posted := []\<rparr>"
  have "behind [] (posted c) (w, ?c) = (w, c)" by simp
  with outboxD(1) [OF f, of "[]" "posted c" "(w, ?c)"]
  have eq: "?f (w, c) = map_sum id (behind [] (posted c)) (?f (w, ?c))" by metis
  show ?thesis
  proof (cases "?f (w, ?c)")
    case (Inl e)
    with eq assms(3) show ?thesis by simp
  next
    case (Inr t)
    with eq assms(3) have "(w', c') = behind [] (posted c) t" by simp
    then have "posted c' = posted c @ posted (snd t)" by (cases t) simp
    with outboxD(2) [OF f assms(3)] show ?thesis by simp
  qed
qed

context server_user
begin

lemma kept_step:
  assumes inv: "server_inv (server_cost cost ev + n) s" and base: "server_loop s = base" and outbox: "outbox_user ucbs"
    and kept: "kept l conn s" and ev: "ev \<noteq> OnConnection conn RunPosted" and step: "server_step k ucbs x0 ev s = Inr s'"
  shows "kept l conn s'"
proof (cases ev)
  case (Incoming answers)
  with step obtain ended closed where
    run: "accept_loop (Some (server_new_connection k ucbs x0 True)) answers s = Inr (ended, closed, s')"
    by (auto simp: on_incoming_connection_def bindE_eq_Inr)
  show ?thesis by (rule kept_incoming [OF inv kept run])
next
  case (OnConnection conn' ev')
  show ?thesis
  proof (cases "alive s conn'")
    case None
    then show ?thesis using step kept by (auto simp: OnConnection split: if_splits)
  next
    case (Some c)
    from step obtain w' c' where run: "conn_step (k conn') (cbs_of conn') ev' (server_shared s, c) = Inr (w', c')"
      and s': "s' = s\<lparr>server_shared := w', alive := (alive s)(conn' \<mapsto> c')\<rparr>"
      unfolding OnConnection server_step_alive [OF Some] base by (auto simp: bindE_eq_Inr simp del: conn_step.simps)
    have "linked (server_cost cost ev + n) base conn' (server_shared s) (Some c)"
      using inv base Some by (metis server_inv_def)
    then have wf: "conn_wf (server_cost cost ev + n) c" and loop: "conn_loop c \<noteq> base"
      and destroy: "DestroyTask \<in> set (posted c) \<longrightarrow> conn_state c = kDisconnected" by simp_all
    from conn_step_once [OF wf loop destroy, of conn' "server_shared s" ev'] run have
      "closes_once conn' (server_shared s, c) (w', c')" by simp
    then have set: "connections w' = connections (server_shared s)" by (simp add: closes_once_def)
    show ?thesis
    proof (cases "conn' = conn")
      case True
      with ev OnConnection have "ev' \<noteq> RunPosted" by simp
      from posted_grows [OF outbox this run] obtain ts where
        c': "conn_loop c' = conn_loop c" "posted c' = posted c @ ts" by blast
      have "conn_loop c = l \<and> (conn \<in> connections (server_shared s) \<or> DestroyTask \<in> set (posted c))"
        using kept Some True by (simp add: kept_def)
      then show ?thesis by (auto simp: s' kept_def c' set True)
    next
      case False
      then show ?thesis using kept set by (intro kept_cong [OF _ _ kept]) (simp_all add: s')
    qed
  qed
next
  case RunRemoval
  with step kept_removal [OF _ kept] show ?thesis by simp
next
  case (Release conn')
  with step kept_release [OF _ kept] show ?thesis by simp
qed

lemma kept_run:
  "server_inv (sum_list (map (server_cost cost) evs) + n) s \<Longrightarrow> server_loop s = base \<Longrightarrow> outbox_user ucbs \<Longrightarrow>
   kept l conn s \<Longrightarrow> OnConnection conn RunPosted \<notin> set evs \<Longrightarrow> foldE (server_step k ucbs x0) evs s = Inr s' \<Longrightarrow>
   kept l conn s' \<and> server_inv n s' \<and> server_loop s' = base"
proof (induction evs arbitrary: s)
  case (Cons ev evs)
  let ?rest = "sum_list (map (server_cost cost) evs) + n"
  have inv: "server_inv (server_cost cost ev + ?rest) s" using Cons.prems(1) by (simp add: add.assoc)
  from Cons.prems(6) obtain s1 where s1: "server_step k ucbs x0 ev s = Inr s1"
    "foldE (server_step k ucbs x0) evs s1 = Inr s'" by (auto simp: bindE_eq_Inr simp del: server_step.simps)
  have "server_inv ?rest s1" "server_loop s1 = base"
    using server_step_fine [OF inv Cons.prems(2), of x0] s1(1) by (simp_all add: server_step_ok_def)
  moreover have "kept l conn s1"
    by (rule kept_step [OF inv Cons.prems(2-4) _ s1(1)]) (use Cons.prems(5) in auto)
  ultimately show ?case using Cons.IH [OF _ _ Cons.prems(3) _ _ s1(2)] Cons.prems(5) by simp
qed simp

end

section \<open>Runs of the program\<close>

lemma shadow_not_run:
  assumes "program_wf left p" and "alive (srv p) conn = Some c" and "\<And>now. ev \<noteq> NextTask (conn_loop c) now"
  shows "OnConnection conn RunPosted \<notin> set (shadow p ev)"
proof (cases ev)
  case (NextTask l now)
  show ?thesis
  proof
    assume run: "OnConnection conn RunPosted \<in> set (shadow p ev)"
    have "\<exists>old t rest. dump p l = Some (old, UserTask (ConnTask conn t) # rest)"
    proof (cases "dump p l")
      case (Some d)
      obtain old ts where d: "d = (old, ts)" by (cases d)
      show ?thesis
      proof (cases ts)
        case (Cons t rest)
        show ?thesis
        proof (cases t)
          case (UserTask u)
          then show ?thesis using run by (cases u) (simp_all add: NextTask Some d Cons)
        qed (use run in \<open>simp add: NextTask Some d Cons\<close>)
      qed (use run in \<open>simp add: NextTask Some d\<close>)
    qed (use run in \<open>simp add: NextTask\<close>)
    then obtain old t rest where d: "dump p l = Some (old, UserTask (ConnTask conn t) # rest)" by blast
    then have "UserTask (ConnTask conn t) \<in> set (tasks_to_run p l)" by (simp add: tasks_to_run_def)
    from program_wfD(3) [OF assms(1) this] assms(2) have "conn_loop c = l" by simp
    with assms(3) NextTask show False by blast
  qed
next
  case (UserCall thread conn' call)
  then show ?thesis by (cases call) (auto split: option.splits)
qed (auto split: option.splits)

lemma kept_program_run:
  assumes user: "server_user k base ucbs cost" and outbox: "outbox_user ucbs"
  shows "implements p s \<Longrightarrow> server_inv (sum_list (map (activity_cost cost) evs)) s \<Longrightarrow> server_loop s = base \<Longrightarrow>
    kept l conn s \<Longrightarrow> (\<And>now. NextTask l now \<notin> set evs) \<Longrightarrow> foldE (program_step efd k ucbs x0) evs p = Inr p' \<Longrightarrow>
    \<exists>s'. implements p' s' \<and> kept l conn s'"
proof (induction evs arbitrary: p s)
  case Nil
  then show ?case by auto
next
  case (Cons ev evs)
  from Cons.prems(6) obtain p1 where p1: "program_step efd k ucbs x0 ev p = Inr p1"
    "foldE (program_step efd k ucbs x0) evs p1 = Inr p'" by (auto simp: bindE_eq_Inr simp del: program_step.simps)
  with program_step_sim [OF outbox Cons.prems(1), of efd k x0 ev] obtain s1 where
    s1: "foldE (server_step k ucbs x0) (shadow p ev) s = Inr s1" "implements p1 s1"
    by (cases "foldE (server_step k ucbs x0) (shadow p ev) s") auto
  obtain c where c: "alive (srv p) conn = Some c" "conn_loop c = l"
    using Cons.prems(1,4) by (auto simp: kept_def implements_alive split: option.splits)
  have "program_wf (orphans s) p" using Cons.prems(1) by (simp add: implements_def)
  then have "OnConnection conn RunPosted \<notin> set (shadow p ev)"
    using c Cons.prems(5) by (intro shadow_not_run) auto
  moreover have "server_inv (sum_list (map (server_cost cost) (shadow p ev)) + sum_list (map (activity_cost cost) evs)) s"
    using server_inv_mono [OF Cons.prems(2)] shadow_cost [of cost p ev] by simp
  ultimately have "kept l conn s1 \<and> server_inv (sum_list (map (activity_cost cost) evs)) s1 \<and> server_loop s1 = base"
    using server_user.kept_run [OF user _ Cons.prems(3) outbox Cons.prems(4) _ s1(1)] by blast
  with Cons.IH [OF s1(2) _ _ _ _ p1(2)] Cons.prems(5) show ?case by simp
qed

section \<open>Properties\<close>

text \<open>C8: The channels that the epoller reports stay valid until the loop has handled them. When a channel is
  registered at the moment of \<open>wait\<close>, then its connection is alive as long as its loop has not
  gone on to run tasks: whatever handlers run in the meantime, in this loop and others, and whatever
  other threads call, close or release, the loop never calls \<open>handle_events\<close> of a destroyed channel.\<close>

theorem active_channels_stay_valid:
  assumes "\<And>conn. kernel_ok (k conn)" and "good_user base cost ucbs" and "outbox_user ucbs"
    and "server_ctor base fd bind_ok local u = Inr s0" and "base \<notin> range new_loop"
    and "server_start new_loop ctl_ok True s0 = Inr s"
    and "\<And>l. event_loop_ctor (tid l) False (tfd l) (wfd l) (kst l) True True = Inr (el l)"
    and "sum_list (map (activity_cost cost) (evs @ batch)) + 8 \<le> max_string_size"
    and "foldE (program_step efd k ucbs x0) evs (program_start s el) = Inr p"
    and "alive (srv p) conn = Some c" and "in_interest_list (channel c)"
    and "\<And>now. NextTask (conn_loop c) now \<notin> set batch"
    and "foldE (program_step efd k ucbs x0) batch p = Inr p'"
  shows "\<exists>c'. alive (srv p') conn = Some c' \<and> conn_loop c' = conn_loop c"
proof -
  let ?left = "sum_list (map (activity_cost cost) batch)"
  have user: "server_user k base ucbs cost" using assms(1,2) by unfold_locales
  note start = started_inv [OF assms(4) assms(8,5,6)]
  have "server_inv (sum_list (map (activity_cost cost) evs) + ?left) s" using start(1) by simp
  from program_run_ok [where k = k and efd = efd and ?x0.0 = x0,
      OF assms(1-3) start_implements [where el = el, OF assms(4,6,7)] this start(2)] assms(9)
  obtain s1 where s1: "implements p s1" "server_inv ?left s1" "server_loop s1 = base" by auto
  have c1: "alive s1 conn = Some (c\<lparr>posted := conn_tasks conn (tasks_to_run p (conn_loop c))\<rparr>)"
    using assms(10) by (simp add: implements_alive [OF s1(1)])
  have link: "linked ?left base conn (server_shared s1) (Some (c\<lparr>posted := conn_tasks conn (tasks_to_run p (conn_loop c))\<rparr>))"
    using s1(2,3) c1 by (metis server_inv_def)
  then have "conn_state c \<noteq> kDisconnected"
    using assms(11) closed_for_good by (fastforce simp: closed_for_good_def)
  with link c1 have "kept (conn_loop c) conn s1" by (simp add: kept_def)
  from kept_program_run [OF user assms(3) s1(1,2,3) this assms(12,13)] obtain s2 where
    "implements p' s2" "kept (conn_loop c) conn s2" by blast
  then show ?thesis by (auto simp: kept_def implements_alive split: option.splits)
qed

text \<open>A connection is reported, hangs up, is erased from the set and would be destroyed.\<close>

theorem active_channels_stay_valid_witness:
  "\<exists>s0 s (el :: nat \<Rightarrow> (prog_task, nat) event_loop) l p c p' c'.
    server_ctor 0 3 True zero_sockaddr (0 :: nat) = Inr s0 \<and> server_start Suc True True s0 = Inr s \<and>
    (let step = program_step counter_eventfd (\<lambda>_. slow_kernel) no_user_callbacks () in
     foldE step (one_open l) (program_start s el) = Inr p \<and> alive (srv p) 0 = Some c \<and>
     in_interest_list (channel c) \<and>
     foldE step (one_hangup @ [LastReference 0]) p = Inr p' \<and> 0 \<notin> connections (server_shared (srv p')) \<and>
     alive (srv p') 0 = Some c')"
proof -
  obtain s0 :: "(nat, unit) server" where s0: "server_ctor 0 3 True zero_sockaddr (0 :: nat) = Inr s0"
    by (simp add: server_ctor_def pool_ctor_def kNumThreads_def)
  from start_succeeds [OF s0, of Suc] obtain s where s: "server_start Suc True True s0 = Inr s" by blast
  have "\<exists>el. event_loop_ctor l False 3 4 0 True True = Inr (el :: (prog_task, nat) event_loop)" for l
    by (simp add: event_loop_ctor_def timer_queue_ctor_def enable_reading_eq)
  then obtain el :: "nat \<Rightarrow> (prog_task, nat) event_loop" where
    el: "\<And>l. event_loop_ctor l False 3 4 0 True True = Inr (el l)" by metis
  let ?step = "program_step counter_eventfd (\<lambda>_. slow_kernel) (no_user_callbacks :: (nat, unit) user_callbacks) ()"
  from one_closed_stages [OF s0 s el] obtain l p c p' c' where
    l: "l \<noteq> 0" and run: "foldE ?step (one_open l) (program_start s el) = Inr p" and c: "around l {0} p c" "in_interest_list (channel c)"
    and gone: "foldE ?step one_hangup p = Inr p'" "around l {} p' c'"
      "existing_tasks p' l = [UserTask (ConnTask 0 DestroyTask)]"
    unfolding Let_def by blast
  have "?step (LastReference 0) p' = Inr p'" using gone(2,3) by (simp add: around_def)
  then have batch: "foldE ?step (one_hangup @ [LastReference 0]) p = Inr p'"
    by (simp only: foldE_append gone(1) bindE_simps foldE.simps)
  have k: "kernel_ok slow_kernel" by (rule slow_kernel_ok)
  have quiet: "good_user 0 0 (no_user_callbacks :: (nat, unit) user_callbacks)"
    by (simp add: good_user_def good_user_callback_def run_callback_def call_if_set_def good_callback_def advances_refl)
  have outbox: "outbox_user (no_user_callbacks :: (nat, unit) user_callbacks)"
    by (auto simp: outbox_user_def run_callback_def call_if_set_def intro!: outboxI)
  have cost: "sum_list (map (activity_cost 0) (one_open l @ one_hangup @ [LastReference 0])) + 8 \<le> max_string_size"
    by (simp add: one_open_def one_hangup_def max_string_size_def)
  have base: "0 \<notin> range Suc" by auto
  have alive: "alive (srv p) 0 = Some c" "conn_loop c = l" using c(1) by (simp_all add: around_def)
  have "NextTask (conn_loop c) now \<notin> set (one_hangup @ [LastReference 0])" for now
    using l by (simp add: one_hangup_def alive(2))
  from active_channels_stay_valid [where tid = "\<lambda>l. l" and el = el,
      OF k quiet outbox s0 base s el cost run alive(1) c(2) this batch]
  obtain c2 where "alive (srv p') 0 = Some c2" by blast
  moreover have "0 \<notin> connections (server_shared (srv p'))" using gone(2) by (simp add: around_def)
  ultimately show ?thesis using s0 s run alive(1) c(2) batch unfolding Let_def by blast
qed

end
