(* ===== verification/Loop_Iterations.thy ===== *)
theory Loop_Iterations
  imports Program_Rounds
begin

text \<open>
  \<open>EventLoop::loop\<close> on the program. \<open>Event_Loop\<close> models the code of \<open>loop\<close> and \<open>do_pending_tasks\<close> for any
  tasks and any channels; \<open>Server_Loops\<close> takes the program apart into steps of all its loops. Here the first
  is run with the tasks and the channels of the second, and is shown to be made of its steps.
\<close>

section \<open>A loop of the program\<close>

text \<open>A loop and the rest of the program; the rest has an outdated copy of the loop.\<close>

definition put_loop ::
    "nat \<Rightarrow> (prog_task, 'k) event_loop \<times> ('u, 'x, 'k) program \<Rightarrow> ('u, 'x, 'k) program" where
  "put_loop l st = (snd st)\<lparr>loops := (loops (snd st))(l := fst st)\<rparr>"

definition take_loop ::
    "nat \<Rightarrow> ('u, 'x, 'k) program \<Rightarrow> (prog_task, 'k) event_loop \<times> ('u, 'x, 'k) program" where
  "take_loop l p = (loops p l, p)"

lemma put_take_loop [simp]: "put_loop l (take_loop l p) = p"
  by (simp add: put_loop_def take_loop_def)

lemma put_loop_simps [simp]:
  "srv (put_loop l st) = srv (snd st)" "dump (put_loop l st) = dump (snd st)"
  "loops (put_loop l st) l = fst st"
  by (simp_all add: put_loop_def)

text \<open>Running a task, given as the step of the program that does it.\<close>

definition loop_exec ::
    "'k eventfd \<Rightarrow> (nat \<Rightarrow> kernel) \<Rightarrow> ('u, 'x) user_callbacks \<Rightarrow> 'x \<Rightarrow> nat
      \<Rightarrow> (prog_task, 'k, ('u, 'x, 'k) program) exec" where
  "loop_exec efd k ucbs x0 l t st =
     map_sum id (take_loop l) (run_prog_task efd k ucbs x0 l 0 (UserTask t) (put_loop l st))"

text \<open>Handling a reported channel: the callbacks of the acceptor's, of a connection's or of the wake-up
  channel are called, whatever has become of the channel since \<open>wait\<close> returned. A connection that does
  not exist any more is a dangling pointer in \<open>active_channels\<close>.\<close>

fun handle_ready ::
    "'k eventfd \<Rightarrow> (nat \<Rightarrow> kernel) \<Rightarrow> ('u, 'x) user_callbacks \<Rightarrow> 'x \<Rightarrow> nat \<Rightarrow> prog_event
      \<Rightarrow> ('u, 'x, 'k) program \<Rightarrow> ('u, 'x, 'k) program result" where
  "handle_ready efd k ucbs x0 l (AcceptorReady answers) p =
     bindE (on_incoming_connection True (Some (new_on_loops efd k ucbs x0)) answers p)
       (\<lambda>(ended, closed, p'). Inr p')"
| "handle_ready efd k ucbs x0 l (ConnReady conn e answer) p =
     bindE (handle_report k ucbs conn e answer (srv p)) (\<lambda>s.
     Inr (deliver efd (thread_id (loops p l)) conn (p\<lparr>srv := s\<rparr>)))"
| "handle_ready efd k ucbs x0 l (WakeupReady l') p =
     Inr (p\<lparr>loops := (loops p)(l' := handle_wakeup efd (loops p l'))\<rparr>)"
| "handle_ready efd k ucbs x0 l _ p = Inr p"

definition loop_dispatch ::
    "'k eventfd \<Rightarrow> (nat \<Rightarrow> kernel) \<Rightarrow> ('u, 'x) user_callbacks \<Rightarrow> 'x \<Rightarrow> nat \<Rightarrow> (nat \<Rightarrow> prog_event) \<Rightarrow> nat
      \<Rightarrow> (prog_task, 'k) event_loop \<times> ('u, 'x, 'k) program
      \<Rightarrow> ((prog_task, 'k) event_loop \<times> ('u, 'x, 'k) program) result" where
  "loop_dispatch efd k ucbs x0 l ready c st =
     map_sum id (take_loop l) (handle_ready efd k ucbs x0 l (ready c) (put_loop l st))"

text \<open>The contract of \<open>epoll_wait\<close>: when it returns, what it reports to the loop \<open>l\<close> are channels that are
  registered with it then (of connections that exist, and that \<open>new_connection\<close> has made), each of them once.\<close>

fun reported_by :: "nat \<Rightarrow> ('u, 'x, 'k) program \<Rightarrow> prog_event \<Rightarrow> bool" where
  "reported_by l p (AcceptorReady answers) \<longleftrightarrow> l = server_loop (srv p)"
| "reported_by l p (ConnReady conn e answer) \<longleftrightarrow> conn < fresh (srv p) \<and>
     (case alive (srv p) conn of None \<Rightarrow> False | Some c \<Rightarrow> conn_loop c = l \<and> in_interest_list (channel c))"
| "reported_by l p (WakeupReady l') \<longleftrightarrow> l' = l"
| "reported_by l p _ \<longleftrightarrow> False"

fun reported_conns :: "prog_event list \<Rightarrow> nat list" where
  "reported_conns [] = []"
| "reported_conns (ConnReady conn e answer # evs) = conn # reported_conns evs"
| "reported_conns (_ # evs) = reported_conns evs"

definition wait_reports :: "nat \<Rightarrow> ('u, 'x, 'k) program \<Rightarrow> prog_event list \<Rightarrow> bool" where
  "wait_reports l p evs \<longleftrightarrow> distinct (reported_conns evs) \<and> list_all (reported_by l p) evs"

text \<open>In a run of the loop, every \<open>wait\<close> that it comes to keeps this contract.\<close>

fun waits_report ::
    "'k eventfd \<Rightarrow> (nat \<Rightarrow> kernel) \<Rightarrow> ('u, 'x) user_callbacks \<Rightarrow> 'x \<Rightarrow> nat \<Rightarrow> (nat \<Rightarrow> prog_event)
      \<Rightarrow> (nat list \<times> int) list \<Rightarrow> (prog_task, 'k) event_loop \<times> ('u, 'x, 'k) program \<Rightarrow> bool" where
  "waits_report efd k ucbs x0 l ready [] st \<longleftrightarrow> True"
| "waits_report efd k ucbs x0 l ready ((active, now) # rounds) st \<longleftrightarrow>
     quit_flag (fst st) \<or>
     wait_reports l (put_loop l st) (List.map ready active) \<and>
     (case bindE (foldE (loop_dispatch efd k ucbs x0 l ready) active st)
             (do_pending_tasks (loop_exec efd k ucbs x0 l) now) of
        Inl e \<Rightarrow> True
      | Inr st' \<Rightarrow> waits_report efd k ucbs x0 l ready rounds st')"

text \<open>What the loop \<open>l\<close> does between two waits, with \<open>n\<close> tasks.\<close>

definition iteration :: "(nat \<Rightarrow> prog_event) \<Rightarrow> nat \<Rightarrow> nat list \<Rightarrow> int \<Rightarrow> nat \<Rightarrow> prog_event list" where
  "iteration ready l active now n =
     List.map ready active @ SwapTasks l # replicate n (NextTask l now) @ [TasksDone l]"

section \<open>Rounds\<close>

lemma map_sum_comp: "map_sum id g (map_sum id f r) = map_sum id (\<lambda>x. g (f x)) r"
  by (cases r) simp_all

lemma map_sum_same [simp]: "map_sum id (\<lambda>x. x) r = r"
  by (cases r) simp_all

lemma bindE_map: "bindE (map_sum id f r) g = bindE r (\<lambda>x. g (f x))"
  by (cases r) simp_all

lemma map_bindE: "map_sum id f (bindE r g) = bindE r (\<lambda>x. map_sum id f (g x))"
  by (cases r) simp_all

text \<open>A view of the state under which one operation is another carries over to lists of them.\<close>

lemma foldE_view:
  assumes "\<And>x st. map_sum id v (f x st) = g x (v st)"
  shows "map_sum id v (foldE f xs st) = foldE g xs (v st)"
proof (induction xs arbitrary: st)
  case (Cons x xs)
  have "foldE g (x # xs) (v st) = bindE (map_sum id v (f x st)) (foldE g xs)" by (simp only: foldE.simps assms)
  also have "\<dots> = map_sum id v (foldE f (x # xs) st)"
    by (simp only: bindE_map foldE.simps map_bindE Cons.IH)
  finally show ?case by (rule sym)
qed simp

lemma run_task_view:
  "map_sum id (put_loop l) (run_task (loop_exec efd k ucbs x0 l) now t st) =
   run_prog_task efd k ucbs x0 l now t (put_loop l st)"
proof (cases t)
  case (UserTask u)
  then show ?thesis by (cases u) (simp_all add: loop_exec_def map_sum_comp)
next
  case (InsertTimer w a)
  then show ?thesis by (cases st) (simp add: put_loop_def)
qed

text \<open>Running tasks does not look at what remains of the round.\<close>

definition with_dump ::
    "(nat \<Rightarrow> (prog_task loop_task list \<times> prog_task loop_task list) option)
      \<Rightarrow> ('u, 'x, 'k) program \<Rightarrow> ('u, 'x, 'k) program" where
  "with_dump d p = p\<lparr>dump := d\<rparr>"

lemma with_dump_simps [simp]:
  "srv (with_dump d p) = srv p" "loops (with_dump d p) = loops p" "dump (with_dump d p) = d"
  "with_dump d (with_dump d' p) = with_dump d p" "with_dump (dump p) p = p"
  by (simp_all add: with_dump_def)

lemma queue_on_dump: "queue_on efd thread l t (with_dump d p) = with_dump d (queue_on efd thread l t p)"
  by (simp add: queue_on_def with_dump_def)

lemma queue_all_dump:
  "foldl (\<lambda>p t. queue_on efd thread l (f t) p) (with_dump d p) ts =
   with_dump d (foldl (\<lambda>p t. queue_on efd thread l (f t) p) p ts)"
  by (induction ts arbitrary: p) (simp_all add: queue_on_dump)

lemma with_srv_dump: "with_dump d p\<lparr>srv := s\<rparr> = with_dump d (p\<lparr>srv := s\<rparr>)"
  by (simp add: with_dump_def)

lemma deliver_dump: "deliver efd thread conn (with_dump d p) = with_dump d (deliver efd thread conn p)"
  by (simp add: deliver_def with_srv_dump queue_all_dump Let_def split: option.split)

lemma run_prog_task_with_dump:
  "run_prog_task efd k ucbs x0 l now t (with_dump d p) = map_sum id (with_dump d) (run_prog_task efd k ucbs x0 l now t p)"
proof (cases "(efd, k, ucbs, x0, l, now, t, p)" rule: run_prog_task.cases)
  case (1 efd' k' ucbs' x0' l' now' conn t' p')
  then show ?thesis
    by (simp add: on_connection_def with_srv_dump deliver_dump map_bindE del: server_step.simps split: option.split)
next
  case (2 efd' k' ucbs' x0' l' now' conn p')
  then show ?thesis by (simp add: with_srv_dump deliver_dump map_bindE)
next
  case (3 efd' k' ucbs' x0' l' now' w a p')
  then show ?thesis by (simp add: with_dump_def)
qed

lemma tasks_view:
  assumes "dump p l = Some (old, ts)"
  shows "foldE (program_step efd k ucbs x0) (replicate (length ts) (NextTask l now)) p =
    map_sum id (with_dump ((dump p)(l \<mapsto> (old @ ts, [])))) (foldE (run_prog_task efd k ucbs x0 l now) ts p)"
  using assms
proof (induction ts arbitrary: p old)
  case Nil
  then have "(dump p)(l \<mapsto> (old, [])) = dump p" by auto
  then show ?case by simp
next
  case (Cons t ts)
  let ?d = "(dump p)(l \<mapsto> (old @ [t], ts))"
  have "foldE (program_step efd k ucbs x0) (replicate (length (t # ts)) (NextTask l now)) p =
      bindE (run_prog_task efd k ucbs x0 l now t (with_dump ?d p))
        (foldE (program_step efd k ucbs x0) (replicate (length ts) (NextTask l now)))"
    using Cons.prems by (simp add: with_dump_def)
  also have "\<dots> = bindE (run_prog_task efd k ucbs x0 l now t p)
      (\<lambda>p1. foldE (program_step efd k ucbs x0) (replicate (length ts) (NextTask l now)) (with_dump ?d p1))"
    by (simp only: run_prog_task_with_dump bindE_map)
  also have "\<dots> = bindE (run_prog_task efd k ucbs x0 l now t p)
      (\<lambda>p1. map_sum id (with_dump ((dump p)(l \<mapsto> (old @ t # ts, [])))) (foldE (run_prog_task efd k ucbs x0 l now) ts p1))"
  proof -
    have "foldE (run_prog_task efd k ucbs x0 l now) ts (with_dump ?d p1) =
        map_sum id (with_dump ?d) (foldE (run_prog_task efd k ucbs x0 l now) ts p1)" for p1
      by (rule foldE_view [symmetric]) (rule run_prog_task_with_dump [symmetric])
    note run = this
    have ih: "foldE (program_step efd k ucbs x0) (replicate (length ts) (NextTask l now)) (with_dump ?d p1) =
        map_sum id (with_dump ((dump (with_dump ?d p1))(l \<mapsto> ((old @ [t]) @ ts, []))))
          (foldE (run_prog_task efd k ucbs x0 l now) ts (with_dump ?d p1))" for p1
      by (rule Cons.IH) simp
    show ?thesis
      by (simp only: ih run map_sum_comp with_dump_simps fun_upd_upd append_assoc append_Cons append_Nil)
  qed
  finally show ?case by (simp only: map_bindE foldE.simps)
qed

lemma tasks_keep_dump: "foldE (run_prog_task efd k ucbs x0 l now) ts p = Inr p' \<Longrightarrow> dump p' = dump p"
  by (induction ts arbitrary: p) (auto simp: bindE_eq_Inr dest: run_prog_task_dump)

text \<open>A call of \<open>do_pending_tasks\<close> is a round.\<close>

lemma round_view:
  assumes "dump (snd st) l = None"
  shows "map_sum id (put_loop l) (do_pending_tasks (loop_exec efd k ucbs x0 l) now st) =
    foldE (program_step efd k ucbs x0)
      (SwapTasks l # replicate (length (pending_tasks (fst st))) (NextTask l now) @ [TasksDone l]) (put_loop l st)"
proof -
  let ?ts = "pending_tasks (fst st)" and ?step = "program_step efd k ucbs x0"
  let ?st = "((snd (take_pending (fst st)))\<lparr>doing_pending_tasks := True\<rparr>, snd st)"
  let ?p = "put_loop l ?st"
  let ?run = "foldE (run_prog_task efd k ucbs x0 l now) ?ts ?p"
  have none: "(dump (snd st))(l := None) = dump (snd st)" using assms by auto
  have "?step (SwapTasks l) (put_loop l st) = Inr (with_dump ((dump (snd st))(l \<mapsto> ([], ?ts))) ?p)"
    using assms by (simp add: take_pending_def with_dump_def put_loop_def)
  then have "foldE ?step (SwapTasks l # replicate (length ?ts) (NextTask l now) @ [TasksDone l]) (put_loop l st) =
      bindE (foldE ?step (replicate (length ?ts) (NextTask l now)) (with_dump ((dump (snd st))(l \<mapsto> ([], ?ts))) ?p))
        (?step (TasksDone l))"
    by (simp only: foldE.simps foldE_append bindE_simps foldE_fun bindE_Inr_right)
  also have "\<dots> = bindE (map_sum id (with_dump ((dump (snd st))(l \<mapsto> (?ts, [])))) ?run) (?step (TasksDone l))"
  proof -
    have "foldE (run_prog_task efd k ucbs x0 l now) ?ts (with_dump d ?p) = map_sum id (with_dump d) ?run" for d
      by (rule foldE_view [symmetric]) (rule run_prog_task_with_dump [symmetric])
    then show ?thesis
      using tasks_view [of "with_dump ((dump (snd st))(l \<mapsto> ([], ?ts))) ?p" l "[]" ?ts efd k ucbs x0 now]
      by (simp only: map_sum_comp with_dump_simps fun_upd_upd fun_upd_same append_Nil)
  qed
  also have "\<dots> = map_sum id (\<lambda>p. p\<lparr>loops := (loops p)(l := (loops p l)\<lparr>doing_pending_tasks := False\<rparr>)\<rparr>) ?run"
  proof (cases ?run)
    case (Inr p')
    have "dump p' = dump (snd st)" using tasks_keep_dump [OF Inr] by simp
    then show ?thesis using none by (simp add: Inr with_dump_def)
  qed simp
  also have "\<dots> = map_sum id (put_loop l) (do_pending_tasks (loop_exec efd k ucbs x0 l) now st)"
  proof -
    let ?R = "foldE (run_task (loop_exec efd k ucbs x0 l) now) ?ts ?st"
    have run: "map_sum id (put_loop l) ?R = ?run"
      by (rule foldE_view) (rule run_task_view)
    show ?thesis
      unfolding run [symmetric] do_pending_tasks_def Let_def
      by (cases ?R) (simp_all add: take_pending_def put_loop_def)
  qed
  finally show ?thesis by (rule sym)
qed

section \<open>Iterations\<close>

lemma new_on_loops_keeps:
  assumes "new_on_loops efd k ucbs x0 fd addr p = Inr p'"
  shows "dump p' = dump p" and "server_loop (srv p') = server_loop (srv p)" and "fresh (srv p') = Suc (fresh (srv p))"
    and "conn < fresh (srv p) \<Longrightarrow> alive (srv p') conn = alive (srv p) conn"
proof -
  from assms obtain s where s: "server_new_connection k ucbs x0 True fd addr (srv p) = Inr s"
    and p': "p' = deliver efd (thread_id (loops p (server_loop s))) (fresh (srv p)) (p\<lparr>srv := s\<rparr>)"
    by (auto simp: new_on_loops_def bindE_eq_Inr)
  from s obtain c where c: "alive s (fresh (srv p)) = Some c" "server_loop s = server_loop (srv p)"
    "fresh s = Suc (fresh (srv p))" "\<And>conn. conn < fresh (srv p) \<Longrightarrow> alive s conn = alive (srv p) conn"
    by (auto simp: server_new_connection_def bindE_eq_Inr Let_def)
  have "alive (srv (p\<lparr>srv := s\<rparr>)) (fresh (srv p)) = Some c" using c(1) by simp
  note d = deliver_simps [OF this]
  show "dump p' = dump p" "server_loop (srv p') = server_loop (srv p)" "fresh (srv p') = Suc (fresh (srv p))"
    "conn < fresh (srv p) \<Longrightarrow> alive (srv p') conn = alive (srv p) conn"
    using c by (simp_all add: p' d)
qed

text \<open>Handling a channel leaves the other connections as they are.\<close>

definition untouched :: "('u, 'x, 'k) program \<Rightarrow> nat set \<Rightarrow> ('u, 'x, 'k) program \<Rightarrow> bool" where
  "untouched p touched p' \<longleftrightarrow>
     dump p' = dump p \<and> server_loop (srv p') = server_loop (srv p) \<and> fresh (srv p) \<le> fresh (srv p') \<and>
     (\<forall>conn. conn < fresh (srv p) \<and> conn \<notin> touched \<longrightarrow> alive (srv p') conn = alive (srv p) conn)"

lemma accept_loop_untouched:
  assumes "accept_loop (Some (new_on_loops efd k ucbs x0)) answers p = Inr (ended, closed, p')"
  shows "untouched p {} p'"
  using assms
proof (induction answers arbitrary: p ended closed)
  case (Cons r answers)
  show ?case
  proof (cases r)
    case (Accepted fd peer)
    with Cons.prems obtain p1 e' c' where p1: "new_on_loops efd k ucbs x0 fd peer p = Inr p1"
      "accept_loop (Some (new_on_loops efd k ucbs x0)) answers p1 = Inr (e', c', p')"
      by (auto simp: bindE_eq_Inr)
    from Cons.IH [OF p1(2)] new_on_loops_keeps [OF p1(1)] show ?thesis
      unfolding untouched_def by (metis le_SucI less_SucI order.trans le_refl)
  qed (use Cons.prems in \<open>auto simp: untouched_def\<close>)
qed (simp add: untouched_def)

lemma handling_untouched:
  assumes "reported_by l p ev" and "handle_ready efd k ucbs x0 l ev p = Inr p'"
  shows "untouched p (set (reported_conns [ev])) p'"
proof (cases ev)
  case (AcceptorReady answers)
  with assms(2) obtain ended closed where
    "accept_loop (Some (new_on_loops efd k ucbs x0)) answers p = Inr (ended, closed, p')"
    by (auto simp: on_incoming_connection_def bindE_eq_Inr)
  from accept_loop_untouched [OF this] show ?thesis by (simp add: AcceptorReady)
next
  case (ConnReady conn e answer)
  with assms(2) obtain s where s: "handle_report k ucbs conn e answer (srv p) = Inr s"
    and p': "p' = deliver efd (thread_id (loops p l)) conn (p\<lparr>srv := s\<rparr>)" by (auto simp: bindE_eq_Inr)
  from s obtain w c' where s': "s = (srv p)\<lparr>server_shared := w, alive := (alive (srv p))(conn \<mapsto> c')\<rparr>"
    by (auto simp: handle_report_def bindE_eq_Inr split: option.splits)
  have "alive (srv (p\<lparr>srv := s\<rparr>)) conn = Some c'" by (simp add: s')
  from deliver_simps [OF this] show ?thesis by (simp add: untouched_def p' s' ConnReady)
qed (use assms in \<open>auto simp: untouched_def\<close>)

lemma reported_untouched:
  assumes "reported_by l p ev" and "untouched p touched p'" and "set (reported_conns [ev]) \<inter> touched = {}"
  shows "reported_by l p' ev"
  using assms by (cases ev) (auto simp: untouched_def)

text \<open>A channel that is registered when it is handled is handled by a step of the program.\<close>

lemma handle_reported:
  assumes "reported_by l p ev" and "dump p l = None"
  shows "handle_ready efd k ucbs x0 l ev p = program_step efd k ucbs x0 ev p"
proof (cases ev)
  case (ConnReady conn e answer)
  with assms obtain c where c: "alive (srv p) conn = Some c" "conn_loop c = l" "in_interest_list (channel c)"
    by (auto split: option.splits)
  note report = fresh_report [OF c(1,3), of k ucbs e answer x0]
  from c assms(2) show ?thesis
    unfolding ConnReady handle_ready.simps program_step.simps by (simp add: on_connection_def report del: server_step.simps)
qed (use assms in auto)

lemma reported_conns_Cons: "reported_conns (ev # evs) = reported_conns [ev] @ reported_conns evs"
  by (cases ev) simp_all

lemma reported_conns_mem: "ev \<in> set evs \<Longrightarrow> set (reported_conns [ev]) \<subseteq> set (reported_conns evs)"
proof (induction evs)
  case (Cons ev' evs)
  then show ?case using reported_conns_Cons [of ev' evs] by auto
qed simp

text \<open>The channels of one \<open>wait\<close>.\<close>

lemma reports_handled:
  assumes "wait_reports l p evs" and "dump p l = None"
  shows "foldE (handle_ready efd k ucbs x0 l) evs p = foldE (program_step efd k ucbs x0) evs p"
    and "foldE (handle_ready efd k ucbs x0 l) evs p = Inr p' \<Longrightarrow> dump p' = dump p"
proof -
  have "foldE (handle_ready efd k ucbs x0 l) evs p = foldE (program_step efd k ucbs x0) evs p \<and>
      (\<forall>p'. foldE (handle_ready efd k ucbs x0 l) evs p = Inr p' \<longrightarrow> dump p' = dump p)"
    using assms
  proof (induction evs arbitrary: p)
    case (Cons ev evs)
    have ev: "reported_by l p ev" and distinct: "distinct (reported_conns [ev] @ reported_conns evs)"
      and evs: "list_all (reported_by l p) evs"
      using Cons.prems(1) by (simp_all add: wait_reports_def reported_conns_Cons [of ev evs])
    note same = handle_reported [OF ev Cons.prems(2), of efd k ucbs x0, symmetric]
    show ?case
    proof (cases "handle_ready efd k ucbs x0 l ev p")
      case (Inr p1)
      note u = handling_untouched [OF ev Inr]
      have "reported_by l p1 ev'" if "ev' \<in> set evs" for ev'
        using reported_untouched [OF _ u, of l ev'] evs that reported_conns_mem [OF that] distinct
        by (auto simp: list_all_iff)
      then have "wait_reports l p1 evs" using distinct by (simp add: wait_reports_def list_all_iff)
      moreover have "dump p1 = dump p" using u by (simp add: untouched_def)
      ultimately show ?thesis using Cons.IH [of p1] Cons.prems(2) Inr same by simp
    qed (simp add: same)
  qed simp
  then show "foldE (handle_ready efd k ucbs x0 l) evs p = foldE (program_step efd k ucbs x0) evs p"
    and "foldE (handle_ready efd k ucbs x0 l) evs p = Inr p' \<Longrightarrow> dump p' = dump p" by blast+
qed

lemma dispatch_view:
  "map_sum id (put_loop l) (foldE (loop_dispatch efd k ucbs x0 l ready) cs st) =
   foldE (handle_ready efd k ucbs x0 l) (List.map ready cs) (put_loop l st)"
proof -
  have "map_sum id (put_loop l) (foldE (loop_dispatch efd k ucbs x0 l ready) cs st) =
      foldE (\<lambda>c. handle_ready efd k ucbs x0 l (ready c)) cs (put_loop l st)"
    by (rule foldE_view) (simp add: loop_dispatch_def map_sum_comp)
  also have "\<dots> = foldE (handle_ready efd k ucbs x0 l) (List.map ready cs) (put_loop l st)"
  proof -
    have "foldE (\<lambda>c. handle_ready efd k ucbs x0 l (ready c)) cs = foldE (handle_ready efd k ucbs x0 l) (List.map ready cs)"
      by (induction cs) (simp_all add: foldE_fun del: foldE.simps)
    then show ?thesis by simp
  qed
  finally show ?thesis .
qed

lemma round_keeps_dump:
  assumes "dump (snd st) l = None" and "do_pending_tasks (loop_exec efd k ucbs x0 l) now st = Inr st'"
  shows "dump (snd st') l = None"
proof -
  let ?ts = "pending_tasks (fst st)"
  let ?p = "put_loop l st\<lparr>loops := (loops (put_loop l st))(l := (fst st)\<lparr>pending_tasks := [], doing_pending_tasks := True\<rparr>),
    dump := (dump (snd st))(l \<mapsto> ([], ?ts))\<rparr>"
  have "foldE (program_step efd k ucbs x0) (replicate (length ?ts) (NextTask l now) @ [TasksDone l]) ?p =
      Inr (put_loop l st')"
    using round_view [OF assms(1), of efd k ucbs x0 now] assms by (simp add: take_pending_def)
  from round_ends [OF _ this, of "[]"] show ?thesis by simp
qed

text \<open>The body of the loop, after \<open>wait\<close> has returned.\<close>

lemma iteration_view:
  assumes "wait_reports l (put_loop l st) (List.map ready active)" and "dump (snd st) l = None"
    and body_def: "body = bindE (foldE (loop_dispatch efd k ucbs x0 l ready) active st)
      (do_pending_tasks (loop_exec efd k ucbs x0 l) now)"
  shows "\<exists>n. map_sum id (put_loop l) body =
      foldE (program_step efd k ucbs x0) (iteration ready l active now n) (put_loop l st)"
    and "body = Inr st' \<Longrightarrow> dump (snd st') l = None"
proof -
  have idle: "dump (put_loop l st) l = None" using assms(2) by simp
  note reports = reports_handled [OF assms(1) idle, of efd k ucbs x0]
  note handled = dispatch_view [of l efd k ucbs x0 ready active st, unfolded reports(1)]
  have quiet: "dump (snd st1) l = None" if "foldE (loop_dispatch efd k ucbs x0 l ready) active st = Inr st1" for st1
    using dispatch_view [of l efd k ucbs x0 ready active st] reports(2) [of "put_loop l st1"] assms(2)
    by (simp add: that)
  show "\<exists>n. map_sum id (put_loop l) body =
      foldE (program_step efd k ucbs x0) (iteration ready l active now n) (put_loop l st)"
  proof (cases "foldE (loop_dispatch efd k ucbs x0 l ready) active st")
    case (Inl e)
    with handled have "foldE (program_step efd k ucbs x0) (List.map ready active) (put_loop l st) = Inl e" by simp
    with Inl show ?thesis by (simp add: body_def iteration_def foldE_append)
  next
    case (Inr st1)
    with handled have "foldE (program_step efd k ucbs x0) (List.map ready active) (put_loop l st) = Inr (put_loop l st1)"
      by simp
    with round_view [OF quiet [OF Inr]] Inr show ?thesis
      by (intro exI [of _ "length (pending_tasks (fst st1))"])
        (simp add: body_def iteration_def foldE_append del: foldE.simps program_step.simps)
  qed
  show "dump (snd st') l = None" if "body = Inr st'"
  proof -
    from that obtain st1 where "foldE (loop_dispatch efd k ucbs x0 l ready) active st = Inr st1"
      "do_pending_tasks (loop_exec efd k ucbs x0 l) now st1 = Inr st'" by (auto simp: body_def bindE_eq_Inr)
    from round_keeps_dump [OF quiet [OF this(1)] this(2)] show ?thesis .
  qed
qed

text \<open>The events of some iterations of the loop \<open>l\<close>, with the numbers of tasks they run.\<close>

definition iterations :: "(nat \<Rightarrow> prog_event) \<Rightarrow> nat \<Rightarrow> (nat list \<times> int) list \<Rightarrow> nat list \<Rightarrow> prog_event list" where
  "iterations ready l rounds ns = concat (map2 (\<lambda>(active, now) n. iteration ready l active now n) rounds ns)"

lemma iterations_simps [simp]:
  "iterations ready l rounds [] = []"
  "iterations ready l ((active, now) # rounds) (n # ns) = iteration ready l active now n @ iterations ready l rounds ns"
  by (simp_all add: iterations_def)

text \<open>What a run of the loop \<open>l\<close> over some rounds comes to, and a run of the program: \<open>full\<close> says that all
  the rounds were needed.\<close>

definition loop_result ::
    "nat \<Rightarrow> bool \<Rightarrow> ((prog_task, 'k) event_loop \<times> ('u, 'x, 'k) program) option result
      \<Rightarrow> ('u, 'x, 'k) program result \<Rightarrow> bool" where
  "loop_result l full r q \<longleftrightarrow>
     (case r of
        Inl e \<Rightarrow> q = Inl e
      | Inr None \<Rightarrow> full \<and> (\<exists>p'. q = Inr p' \<and> \<not> quit_flag (loops p' l) \<and> dump p' l = None)
      | Inr (Some st) \<Rightarrow> q = Inr (put_loop l st) \<and> quit_flag (fst st) \<and> dump (snd st) l = None)"

lemma loop_rounds_steps:
  assumes "waits_report efd k ucbs x0 l ready rounds st" and "dump (snd st) l = None"
  shows "\<exists>ns. length ns \<le> length rounds \<and>
    loop_result l (length ns = length rounds)
      (loop_rounds (loop_dispatch efd k ucbs x0 l ready) (loop_exec efd k ucbs x0 l) rounds st)
      (foldE (program_step efd k ucbs x0) (iterations ready l rounds ns) (put_loop l st))"
  using assms
proof (induction rounds arbitrary: st)
  case Nil
  then show ?case by (cases "quit_flag (fst st)") (simp_all add: loop_result_def)
next
  case (Cons r rounds)
  obtain active now where r: "r = (active, now)" by (cases r)
  let ?rounds = "loop_rounds (loop_dispatch efd k ucbs x0 l ready) (loop_exec efd k ucbs x0 l)"
  let ?body = "bindE (foldE (loop_dispatch efd k ucbs x0 l ready) active st)
      (do_pending_tasks (loop_exec efd k ucbs x0 l) now)"
  let ?run = "foldE (program_step efd k ucbs x0)"
  show ?case
  proof (cases "quit_flag (fst st)")
    case True
    then show ?thesis using Cons.prems(2) by (intro exI [of _ "[]"]) (simp add: r loop_result_def)
  next
    case False
    then have unfold: "?rounds (r # rounds) st = bindE ?body (?rounds rounds)"
      by (simp add: r bindE_assoc)
    have reports: "wait_reports l (put_loop l st) (List.map ready active)"
      using Cons.prems(1) False by (simp add: r)
    note body = iteration_view [OF reports Cons.prems(2) refl, of efd k ucbs x0 now]
    from body(1) obtain n where
      n: "map_sum id (put_loop l) ?body = ?run (iteration ready l active now n) (put_loop l st)" by blast
    show ?thesis
    proof (cases ?body)
      case (Inl e)
      with n have "?run (iterations ready l (r # rounds) [n]) (put_loop l st) = Inl e"
        by (simp add: r foldE_append)
      with Inl show ?thesis unfolding unfold by (intro exI [of _ "[n]"]) (simp add: loop_result_def)
    next
      case (Inr st1)
      with n have it: "?run (iteration ready l active now n) (put_loop l st) = Inr (put_loop l st1)" by simp
      have "waits_report efd k ucbs x0 l ready rounds st1" using Cons.prems(1) False Inr by (simp add: r)
      from Cons.IH [OF this body(2) [OF Inr]] obtain ns where ns: "length ns \<le> length rounds"
        "loop_result l (length ns = length rounds) (?rounds rounds st1)
          (?run (iterations ready l rounds ns) (put_loop l st1))" by blast
      have "?run (iterations ready l (r # rounds) (n # ns)) (put_loop l st) =
          ?run (iterations ready l rounds ns) (put_loop l st1)"
        by (simp add: r foldE_append it)
      with Inr ns show ?thesis unfolding unfold by (intro exI [of _ "n # ns"]) simp
    qed
  qed
qed

section \<open>Properties\<close>

text \<open>C10: \<open>EventLoop::loop\<close> runs the program by the steps of \<open>Server_Loops\<close>. With the program's channels and
  tasks, the code of \<open>loop\<close> and \<open>do_pending_tasks\<close>, which calls the handler of every channel that \<open>wait\<close> has
  reported, does what a run of the program's steps does: in each iteration the reported channels in
  their order, the swap of the task queue, the tasks that were in it one after the other, the end of the
  round. It ends with the error of this run, or returns in the state of this run with \<open>quit_\<close> set, or
  goes on after all the rounds given. It is assumed that each \<open>wait\<close> reports, each once, channels that are
  registered with this loop when it returns; that a channel handled earlier in an iteration does not take
  a later one away is shown. (With callbacks that close other connections it could: see \<open>Stale_Report\<close>.)
  What other threads do in between is left out here: the loop is the only one to act.\<close>

theorem loop_runs_by_steps:
  assumes "waits_report efd k ucbs x0 l ready rounds (take_loop l p)" and "dump p l = None"
  shows "\<exists>ns. length ns \<le> length rounds \<and>
    loop_result l (length ns = length rounds)
      (loop_rounds (loop_dispatch efd k ucbs x0 l ready) (loop_exec efd k ucbs x0 l) rounds (take_loop l p))
      (foldE (program_step efd k ucbs x0) (iterations ready l rounds ns) p)"
  using loop_rounds_steps [OF assms(1)] assms(2)
  by (simp add: take_loop_def put_loop_def)

text \<open>The loop of a connection: its peer has closed it, and the loop is woken up.\<close>

definition closed_and_woken :: "nat \<Rightarrow> nat \<Rightarrow> prog_event" where
  "closed_and_woken l c = (if c = 0 then ConnReady 0 EPOLLIN (ReadOk []) else WakeupReady l)"

theorem loop_runs_by_steps_witness:
  "\<exists>s0 s (el :: nat \<Rightarrow> (prog_task, nat) event_loop) l p c ns.
    server_ctor 0 3 True zero_sockaddr (0 :: nat) = Inr s0 \<and> server_start Suc True True s0 = Inr s \<and>
    foldE (program_step counter_eventfd (\<lambda>_. slow_kernel) no_user_callbacks ()) (one_open l) (program_start s el) = Inr p \<and>
    alive (srv p) 0 = Some c \<and> conn_loop c = l \<and> in_interest_list (channel c) \<and> length ns \<le> 1 \<and>
    loop_result l (length ns = 1)
      (loop_rounds (loop_dispatch counter_eventfd (\<lambda>_. slow_kernel) no_user_callbacks () l (closed_and_woken l))
         (loop_exec counter_eventfd (\<lambda>_. slow_kernel) no_user_callbacks () l) [([0, 1], 5)] (take_loop l p))
      (foldE (program_step counter_eventfd (\<lambda>_. slow_kernel) no_user_callbacks ())
         (iterations (closed_and_woken l) l [([0, 1], 5)] ns) p)"
proof -
  obtain s0 :: "(nat, unit) server" where s0: "server_ctor 0 3 True zero_sockaddr (0 :: nat) = Inr s0"
    by (simp add: server_ctor_def pool_ctor_def kNumThreads_def)
  from start_succeeds [OF s0, of Suc] obtain s where s: "server_start Suc True True s0 = Inr s" by blast
  have "\<exists>el. event_loop_ctor l False 3 4 0 True True = Inr (el :: (prog_task, nat) event_loop)" for l
    by (simp add: event_loop_ctor_def timer_queue_ctor_def enable_reading_eq)
  then obtain el :: "nat \<Rightarrow> (prog_task, nat) event_loop" where
    el: "\<And>l. event_loop_ctor l False 3 4 0 True True = Inr (el l)" by metis
  from one_closed_stages [OF s0 s el] obtain l p c where
    p: "foldE (program_step counter_eventfd (\<lambda>_. slow_kernel) no_user_callbacks ()) (one_open l) (program_start s el) = Inr p"
    and at: "around l {0} p c" "in_interest_list (channel c)"
    unfolding Let_def by blast
  have idle: "dump p l = None" using at by (simp add: around_def)
  have reports: "waits_report counter_eventfd (\<lambda>_. slow_kernel) no_user_callbacks () l (closed_and_woken l) [([0, 1], 5)]
      (take_loop l p)"
    using at by (simp add: closed_and_woken_def wait_reports_def around_def split: sum.split)
  from loop_runs_by_steps [OF reports idle] obtain ns where ns: "length ns \<le> length [([0 :: nat, 1], 5 :: int)]"
    "loop_result l (length ns = length [([0 :: nat, 1], 5 :: int)])
      (loop_rounds (loop_dispatch counter_eventfd (\<lambda>_. slow_kernel) no_user_callbacks () l (closed_and_woken l))
         (loop_exec counter_eventfd (\<lambda>_. slow_kernel) no_user_callbacks () l) [([0, 1], 5)] (take_loop l p))
      (foldE (program_step counter_eventfd (\<lambda>_. slow_kernel) no_user_callbacks ())
         (iterations (closed_and_woken l) l [([0, 1], 5)] ns) p)" by blast
  have "length [([0 :: nat, 1], 5 :: int)] = 1" by simp
  note ns' = ns [unfolded this]
  have "alive (srv p) 0 = Some c" "conn_loop c = l" using at by (simp_all add: around_def)
  with ns' s0 s p at(2) show ?thesis
    by (intro exI [of _ s0] exI [of _ s] exI [of _ el] exI [of _ l] exI [of _ p] exI [of _ c] exI [of _ ns] conjI)
qed

end
