(* ===== verification/Request_Types.thy ===== *)
theory Request_Types
  imports Http_Server "HOL-Library.Sublist"
begin

text \<open>
  The types of requests. What \<open>http_context.cpp\<close> and \<open>http_request.cpp\<close> accept is more than a record of
  strings: the values a request can have are described here as a type in the sense of a predicate
  that parsing preserves, from the bytes of any peer, and that all parsers of all connections of
  the server keep.
\<close>

section \<open>The types\<close>

definition typed_line :: "request_line \<Rightarrow> bool" where
  "typed_line l \<longleftrightarrow>
     req_method l \<noteq> kUnknownMethod \<and> version l \<noteq> kUnknownVersion \<and>
     url l \<noteq> [] \<and> sp \<notin> set (url l) \<and> cr \<notin> set (url l) \<and>
     path_query_from (url l) = Inr (path l, query l)"

definition typed_header :: "bytes \<Rightarrow> bytes \<Rightarrow> bool" where
  "typed_header key val \<longleftrightarrow>
     CHR '':'' \<notin> set key \<and> \<not> sublist crlf key \<and> val \<noteq> [] \<and> hd val \<noteq> sp \<and> \<not> sublist crlf val"

definition typed_headers :: "(bytes \<rightharpoonup> bytes) \<Rightarrow> bool" where
  "typed_headers h \<longleftrightarrow> (\<forall>key val. h key = Some val \<longrightarrow> typed_header key val)"

definition typed_context :: "http_context \<Rightarrow> bool" where
  "typed_context c \<longleftrightarrow>
     typed_headers (headers (request c)) \<and>
     (case phase c of
        kRequestLine \<Rightarrow> headers (request c) = Map.empty
      | kCompleted \<Rightarrow> typed_line (req_line (request c)) \<and>
          (req_method (req_line (request c)) = kPost \<longrightarrow>
             (\<exists>val. get_header ''Content-length'' (request c) = Some val \<and> 0 \<le> contents_length_value val))
      | _ \<Rightarrow> typed_line (req_line (request c)))"

section \<open>Parsing\<close>

lemma typed_line_from:
  assumes "request_line_from line = Inr (Some l)"
  shows "typed_line l"
proof -
  let ?s = "cut_at_cr line"
  have "parse_split ?s = Inr (Some l)" using assms by (simp add: request_line_from_split)
  with parse_split_shape [of ?s] obtain m u v where
    s: "sp \<notin> set u" "?s = m @ sp # u @ sp # v" and parts: "request_line_from_parts m u v = Inr (Some l)" by auto
  have "cr \<notin> set ?s" by (auto simp: cut_at_cr_def dest: set_takeWhileD)
  then have cr: "cr \<notin> set u" by (simp add: s(2))
  note p = from_parts_Some [OF parts]
  have "u \<noteq> []" using p(6) by (auto simp: path_query_from_def size_sub_def size_mod_def max_string_size_def)
  with p s(1) cr show ?thesis by (simp add: typed_line_def)
qed

lemma before_crlf:
  assumes "find_sub crlf s = Some i"
  shows "\<not> sublist crlf (take i s)"
proof
  assume "sublist crlf (take i s)"
  then obtain xs ys where t: "take i s = xs @ crlf @ ys" by (auto simp: sublist_def)
  have len: "length xs + 2 \<le> length (take i s)" by (simp add: t)
  then have i: "length xs + 2 \<le> i" by simp
  then have "take 2 (drop (length xs) s) = take 2 (drop (length xs) (take i s))"
    by (simp add: drop_take)
  also have "\<dots> = crlf" by (simp add: t)
  finally have "take (length crlf) (drop (length xs) s) = crlf" by (simp add: numeral_2_eq_2)
  moreover have "length xs < i" using i by simp
  ultimately show False using find_sub_SomeD [OF assms] by blast
qed

lemma add_header_typed:
  assumes "add_header_from line r = (True, r')" and "\<not> sublist crlf line" and "typed_headers (headers r)"
  shows "typed_headers (headers r')" "req_line r' = req_line r"
proof -
  from assms(1) obtain i j where i: "find_char (CHR '':'') line = Some i"
    and j: "find_not_char sp line (i + 1) = Some j"
    and r': "r' = r\<lparr>headers := (headers r)(take i line \<mapsto> drop j line)\<rparr>"
    by (auto simp: add_header_from_def Let_def split: option.splits if_splits)
  have "CHR '':'' \<notin> set (take i line)" using find_char_SomeD [OF i] by simp
  moreover have val: "drop j line = dropWhile (\<lambda>x. x = sp) (drop (i + 1) line)" "drop j line \<noteq> []"
    using j by (auto simp: find_not_char_def Let_def dropWhile_eq_drop add.commute split: if_splits)
  then have "hd (drop j line) \<noteq> sp" using hd_dropWhile [of "\<lambda>x. x = sp" "drop (i + 1) line"] by simp
  moreover have "\<not> sublist crlf (take i line)" "\<not> sublist crlf (drop j line)"
    using assms(2) sublist_order.order.trans [of crlf _ line] by auto
  ultimately have "typed_header (take i line) (drop j line)" using val(2) unfolding typed_header_def by blast
  with assms(3) show "typed_headers (headers r')" by (simp add: typed_headers_def r')
  show "req_line r' = req_line r" by (simp add: r')
qed

lemma set_line_typed:
  assumes "set_request_line_from line r = Inr (ok, r')"
  shows "headers r' = headers r" "ok \<Longrightarrow> typed_line (req_line r')"
  using assms typed_line_from [of line] by (auto simp: set_request_line_from_def bindE_eq_Inr split: option.splits)

lemma parse_request_typed:
  "typed_context c \<Longrightarrow> parse_request b c = Inr (ok, b', c') \<Longrightarrow> typed_context c'"
proof (induction b c rule: parse_request.induct)
  case (1 b c)
  note eq = parse_request.simps [of b c]
  show ?case
  proof (cases "phase c")
    case kRequestLine
    show ?thesis
    proof (cases "find_sub crlf (contents b)")
      case None
      with kRequestLine "1.prems" show ?thesis by (simp add: eq)
    next
      case (Some i)
      obtain ok1 r where r: "set_request_line_from (take i (contents b)) (request c) = Inr (ok1, r)"
        using "1.prems"(2) kRequestLine Some by (auto simp: eq bindE_eq_Inr)
      show ?thesis
      proof (cases ok1)
        case False
        with "1.prems" kRequestLine Some r have "c' = c\<lparr>request := r\<rparr>" by (simp add: eq)
        with "1.prems"(1) kRequestLine set_line_typed(1) [OF r] show ?thesis by (simp add: typed_context_def typed_headers_def)
      next
        case True
        with "1.prems"(2) kRequestLine Some r obtain b1 where
          long: "readable_bytes b > i + 2" and b1: "retrieve (i + 2) b = Inr b1" and
          rec: "parse_request b1 (c\<lparr>request := r, phase := kHeaderLines\<rparr>) = Inr (ok, b', c')"
          by (auto simp: eq bindE_eq_Inr bindE_assertE split: if_splits)
        have "typed_context (c\<lparr>request := r, phase := kHeaderLines\<rparr>)"
          using "1.prems"(1) kRequestLine set_line_typed [OF r] True by (simp add: typed_context_def typed_headers_def)
        from "1.IH"(1) [OF kRequestLine Some r refl _ _ b1 this rec] True long show ?thesis by simp
      qed
    qed
  next
    case kHeaderLines
    show ?thesis
    proof (cases "find_sub crlf (contents b)")
      case None
      with kHeaderLines "1.prems" show ?thesis by (simp add: eq)
    next
      case (Some i)
      let ?line = "take i (contents b)"
      have ctx: "typed_headers (headers (request c))" "typed_line (req_line (request c))"
        using "1.prems"(1) kHeaderLines by (simp_all add: typed_context_def)
      show ?thesis
      proof (cases "?line = []")
        case True
        with "1.prems"(2) kHeaderLines Some obtain b1 where
          b1: "i = 0" "retrieve 2 b = Inr b1" "parse_request b1 (c\<lparr>phase := kEntityBody\<rparr>) = Inr (ok, b', c')"
          by (auto simp: eq bindE_eq_Inr bindE_assertE Let_def split: if_splits)
        have "typed_context (c\<lparr>phase := kEntityBody\<rparr>)" using ctx by (simp add: typed_context_def)
        from "1.IH"(2) [OF kHeaderLines Some refl True _ b1(2) this b1(3)] show ?thesis by (simp add: b1(1))
      next
        case False
        obtain ok1 r where r: "add_header_from ?line (request c) = (ok1, r)" by (cases "add_header_from ?line (request c)")
        show ?thesis
        proof (cases ok1)
          case False
          have "r = request c"
            using r False by (auto simp: add_header_from_def Let_def split: option.splits if_splits)
          with False \<open>?line \<noteq> []\<close> "1.prems" kHeaderLines Some r show ?thesis by (simp add: eq)
        next
          case True
          with \<open>?line \<noteq> []\<close> "1.prems"(2) kHeaderLines Some r obtain b1 where
            long: "readable_bytes b \<ge> i + 2" and
            b1: "retrieve (i + 2) b = Inr b1" "parse_request b1 (c\<lparr>request := r\<rparr>) = Inr (ok, b', c')"
            by (auto simp: eq bindE_eq_Inr bindE_assertE Let_def split: if_splits)
          have "add_header_from ?line (request c) = (True, r)" using r True by simp
          note h = add_header_typed [OF this before_crlf [OF Some] ctx(1)]
          have "typed_context (c\<lparr>request := r\<rparr>)" using h ctx(2) kHeaderLines by (simp add: typed_context_def)
          from "1.IH"(3) [OF kHeaderLines Some refl \<open>?line \<noteq> []\<close> r [symmetric] _ _ b1(1) this b1(2)] True long
          show ?thesis by simp
        qed
      qed
    qed
  next
    case kEntityBody
    with "1.prems" show ?thesis
      by (auto simp: eq typed_context_def Let_def split: if_splits option.splits)
  next
    case kCompleted
    with "1.prems" show ?thesis by (simp add: eq)
  qed
qed

lemma new_context_typed: "typed_context new_context"
  by (simp add: typed_context_def new_context_def new_request_def typed_headers_def)

lemma reset_context_typed: "typed_context (reset_context c)"
  by (simp add: typed_context_def reset_context_def swap_requests_def new_context_def new_request_def
      typed_headers_def Let_def)

section \<open>The parsers of all connections\<close>

definition typed_option :: "http_context option \<Rightarrow> bool" where
  "typed_option x \<longleftrightarrow> (case x of None \<Rightarrow> True | Some ctx \<Rightarrow> typed_context ctx)"

abbreviation typed_conn :: "http_connection \<Rightarrow> bool" where
  "typed_conn \<equiv> ctx_ok typed_option"

abbreviation keeps_types :: "('w \<times> http_connection \<Rightarrow> ('w \<times> http_connection) result) \<Rightarrow> bool" where
  "keeps_types \<equiv> keeps_context typed_option"

lemma typed_conn_def:
  "typed_conn c \<longleftrightarrow> (case conn_context c of None \<Rightarrow> True | Some ctx \<Rightarrow> typed_context ctx)"
  by (simp add: ctx_ok_def typed_option_def)

section \<open>The HTTP server\<close>

lemma respond_typed:
  assumes "respond order k file ctx c = Inr c'"
  shows "typed_conn c'"
proof -
  obtain a where a: "(case a of Reading _ _ \<Rightarrow> Inl NoReturn
      | Responded buf r _ \<Rightarrow> bindE (send_data k True (peeked buf (readable_bytes buf)) c) (\<lambda>c1.
          let c2 = (if close_connection r then shutdown k True c1 else c1)
          in Inr (set_context (Some (reset_context ctx)) c2))) = Inr c'"
    using assms unfolding respond_def Let_def [of "request ctx"] by (meson bindE_InrE)
  then have "conn_context c' = Some (reset_context ctx)"
    by (cases a) (auto simp: bindE_eq_Inr set_context_def Let_def)
  then show ?thesis by (simp add: typed_conn_def reset_context_typed)
qed

lemma on_message_types: "keeps_types (on_message order k files)"
proof (rule keepsI)
  fix s s'
  assume t: "typed_conn (snd s)" and run: "on_message order k files s = Inr s'"
  then obtain ctx where ctx: "conn_context (snd s) = Some ctx"
    by (cases "conn_context (snd s)") (simp_all add: on_message_def)
  from run ctx obtain p where p: "parse_request (in_buffer (snd s)) ctx = Inr p"
    by (auto simp: on_message_def bindE_eq_Inr)
  obtain ok b ctx1 where parse: "parse_request (in_buffer (snd s)) ctx = Inr (ok, b, ctx1)"
    using p by (cases p) auto
  let ?c1 = "(snd s)\<lparr>in_buffer := b, conn_context := Some ctx1\<rparr>"
  let ?file = "files (served (user_state (fst s))) (opened_path (request ctx1))"
  have "bindE (if \<not> ok then refuse order k ?c1 else Inr ?c1) (\<lambda>c2. if parsing_completed ctx1
      then bindE (respond order k ?file ctx1 c2) (\<lambda>c3.
        Inr ((fst s)\<lparr>user_state := \<lparr>served = Suc (served (user_state (fst s)))\<rparr>\<rparr>, c3))
      else Inr (fst s, c2)) = Inr s'"
    using run by (simp add: on_message_def ctx parse Let_def cong: if_cong)
  then obtain c2 where c2: "(if \<not> ok then refuse order k ?c1 else Inr ?c1) = Inr c2"
    and rest: "(if parsing_completed ctx1
      then bindE (respond order k ?file ctx1 c2) (\<lambda>c3.
        Inr ((fst s)\<lparr>user_state := \<lparr>served = Suc (served (user_state (fst s)))\<rparr>\<rparr>, c3))
      else Inr (fst s, c2)) = Inr s'" by (rule bindE_InrE)
  have "typed_context ctx1" using parse_request_typed [OF _ parse] t ctx by (simp add: typed_conn_def)
  moreover have "conn_context c2 = Some ctx1"
    using c2 refuse_context by (fastforce simp: same_context_def split: if_splits)
  ultimately have "typed_conn c2" by (simp add: typed_conn_def)
  with rest respond_typed show "typed_conn (snd s')" by (auto simp: bindE_eq_Inr split: if_splits)
qed

lemma http_callbacks_typed: "callbacks_keep typed_option (server_callbacks base (http_user order k files) conn)"
proof -
  let ?cbs = "server_callbacks base (http_user order k files) conn"
  have "keeps_types http_connection_callback"
    using new_context_typed
    by (intro keepsI) (auto simp: http_connection_callback_def set_context_def typed_conn_def split: if_splits)
  moreover have "keeps_types (run_callback (close_cb ?cbs))"
    by (intro keepsI) (auto simp: server_callbacks_def run_callback_def call_if_set_def remove_connection_def
        bindE_eq_Inr split: if_splits)
  moreover have "run_callback (Some f) = f" for f :: "(http_state shared, http_context option) callback"
    by (rule ext) (simp add: run_callback_def call_if_set_def)
  ultimately show ?thesis
    using on_message_types by (simp add: callbacks_keep_def server_callbacks_def http_user_def)
qed

definition typed_server :: "(http_state, http_context option) server \<Rightarrow> bool" where
  "typed_server s \<longleftrightarrow> (\<forall>conn c. alive s conn = Some c \<longrightarrow> typed_conn c)"

lemma new_connection_typed:
  assumes "typed_server s"
    and "server_new_connection k (http_user order k files) None True fd peer_address s = Inr s'"
  shows "typed_server s'"
proof -
  let ?cbs = "server_callbacks (server_loop s) (http_user order k files) (fresh s)"
  from assms(2) obtain l p w1 w2 c2 where c2:
    "(if l = server_loop s then established (k (fresh s)) ?cbs True (w1, tcp_connection_ctor l fd peer_address None)
      else Inr (w1, post EstablishTask (tcp_connection_ctor l fd peer_address None))) = Inr (w2, c2)"
    "alive s' = (alive s)(fresh s \<mapsto> c2)"
    by (auto simp: server_new_connection_def bindE_eq_Inr Let_def)
  have "typed_conn (tcp_connection_ctor l fd peer_address None)"
    by (simp add: typed_conn_def tcp_connection_ctor_def)
  with c2(1) keepsD [OF established_context_kept [OF http_callbacks_typed], of "(w1, tcp_connection_ctor l fd peer_address None)"]
  have "typed_conn c2" by (auto split: if_splits)
  with assms(1) c2(2) show ?thesis by (auto simp: typed_server_def)
qed

lemma server_step_typed:
  assumes "typed_server s" and "server_step k (http_user order k files) None ev s = Inr s'"
  shows "typed_server s'"
proof (cases ev)
  case (Incoming answers)
  have "typed_server s \<Longrightarrow> accept_loop (Some (server_new_connection k (http_user order k files) None True)) answers s
      = Inr (ended, closed, s') \<Longrightarrow> typed_server s'" for ended closed s
  proof (induction answers arbitrary: s)
    case (Cons a answers)
    then show ?case by (cases a) (auto simp: bindE_eq_Inr dest: new_connection_typed)
  qed simp
  with assms show ?thesis by (auto simp: Incoming on_incoming_connection_def bindE_eq_Inr)
next
  case (OnConnection conn ev')
  show ?thesis
  proof (cases "alive s conn")
    case None
    with assms show ?thesis by (auto simp: OnConnection split: if_splits)
  next
    case (Some c)
    then obtain w c' where "conn_step (k conn) (server_callbacks (server_loop s) (http_user order k files) conn) ev'
        (server_shared s, c) = Inr (w, c')" "alive s' = (alive s)(conn \<mapsto> c')"
      using assms(2) by (auto simp: OnConnection bindE_eq_Inr)
    moreover have "typed_conn c" using assms(1) Some by (simp add: typed_server_def)
    ultimately show ?thesis
      using conn_step_context_kept [OF http_callbacks_typed] assms(1) by (auto simp: typed_server_def)
  qed
next
  case RunRemoval
  with assms show ?thesis
    by (auto simp: typed_server_def run_removal_def bindE_eq_Inr split: list.splits if_splits)
next
  case (Release conn)
  with assms show ?thesis
    by (auto simp: typed_server_def release_def bindE_eq_Inr split: option.splits if_splits)
qed

section \<open>Properties\<close>

text \<open>C17: Requests are well typed. Whatever bytes the peers of all connections send, in whatever pieces, and
  however the events of the server interleave: the parser of every connection holds a request with
  a known method and version, an URL without spaces and carriage returns that is split into the
  path and query it has, and header fields whose names contain no colon, whose values are not
  empty and do not begin with a space, and that contain no line end; a completed POST has a
  content length that is a number and not negative.\<close>

theorem requests_well_typed:
  assumes "http_server_ctor base fd bind_ok local = Inr s0" and "http_server_start new_loop ctl_ok here s0 = Inr s"
    and "foldE (server_step k (http_user order k files) None) evs s = Inr s'"
    and "alive s' conn = Some c" and "conn_context c = Some ctx"
  shows "typed_context ctx"
proof -
  have "alive s = Map.empty"
    using assms(1,2) by (auto simp: http_server_ctor_def http_server_start_def server_ctor_def server_start_def
        start_task_def bindE_eq_Inr split: if_splits)
  then have "typed_server s" by (simp add: typed_server_def)
  moreover have "typed_server s1 \<Longrightarrow> foldE (server_step k (http_user order k files) None) evs s1 = Inr s' \<Longrightarrow>
      typed_server s'" for s1
    by (induction evs arbitrary: s1) (auto simp: bindE_eq_Inr simp del: server_step.simps dest: server_step_typed)
  ultimately have "typed_server s'" using assms(3) by blast
  with assms(4,5) show ?thesis by (auto simp: typed_server_def typed_conn_def split: option.splits)
qed

text \<open>A request that has arrived with one of its header lines.\<close>

definition half_text :: bytes where
  "half_text = ''GET / HTTP/1.1'' @ crlf @ ''Host: a'' @ crlf @ ''X''"

definition half_request :: "server_event list" where
  "half_request = [Incoming [Accepted 7 zero_sockaddr, AcceptErr 11], OnConnection 0 RunPosted,
     OnConnection 0 (Dispatch EPOLLIN (ReadOk half_text))]"

lemma half_parsed:
  "\<exists>b b' ctx. read_fd (ReadOk half_text) new_buffer = Inr ((int (length half_text), None), b) \<and>
    parse_request b new_context = Inr (True, b', ctx) \<and> phase ctx = kHeaderLines \<and>
    get_header ''Host'' (request ctx) = Some ''a''"
proof -
  obtain b where b: "read_fd (ReadOk half_text) new_buffer = Inr ((int (length half_text), None), b)" "wf_buffer b"
    "contents b = half_text"
    using read_fd_spec [of new_buffer half_text 0] by (auto simp: half_text_def max_string_size_def)
  have "case parse_bytes half_text new_context of Inl e \<Rightarrow> False
      | Inr (ok, q, ctx) \<Rightarrow> ok \<and> phase ctx = kHeaderLines \<and> get_header ''Host'' (request ctx) = Some ''a''"
    by code_simp
  then obtain q ctx where q: "parse_bytes (contents b) new_context = Inr (True, q, ctx)" "phase ctx = kHeaderLines"
    "get_header ''Host'' (request ctx) = Some ''a''" by (auto simp: b(3) split: sum.splits)
  from parse_request_InrI [OF b(2) q(1)] b(1) q(2,3) show ?thesis by blast
qed

lemma half_run:
  assumes "http_server_ctor 0 3 True zero_sockaddr = Inr s0" and "http_server_start Suc True True s0 = Inr s"
  shows "\<exists>s1 c ctx. foldE (server_step (\<lambda>_. slow_kernel) (http_user rev (\<lambda>_. slow_kernel) (\<lambda>_ _. missing_file)) None)
      half_request s = Inr s1 \<and> alive s1 0 = Some c \<and> conn_context c = Some ctx \<and> phase ctx = kHeaderLines \<and>
    get_header ''Host'' (request ctx) = Some ''a''"
proof -
  note assms' = assms [unfolded http_server_ctor_def http_server_start_def]
  have "server_inv 0 s" "server_loop s = 0"
    using started_inv [OF assms'(1) _ _ assms'(2), of 0] by (simp_all add: max_string_size_def image_iff)
  note i = this(1) [unfolded server_inv_def]
  have new: "fresh s = 0" "server_shared s = \<lparr>connections = {}, removals = [], user_state = \<lparr>served = 0\<rparr>\<rparr>"
    using assms' by (auto simp: server_ctor_def server_start_def start_task_def bindE_eq_Inr)
  from pool.pick [of "server_pool s"] i obtain l p where p: "next_loop True (server_pool s) = Inr (l, p)"
    "l \<in> pool_loops (server_pool s)" by blast
  then have l: "l \<noteq> 0" using i \<open>server_loop s = 0\<close> by metis
  have "half_text \<noteq> []" by (simp add: half_text_def)
  with half_parsed obtain b b' ctx where half: "read_fd (ReadOk half_text) new_buffer = Inr ((int (length half_text), None), b)"
    "0 < int (length half_text)" "parse_request b new_context = Inr (True, b', ctx)" "phase ctx = kHeaderLines"
    "get_header ''Host'' (request ctx) = Some ''a''" by (metis length_greater_0_conv of_nat_0_less_iff)
  show ?thesis
    using p(1) l \<open>server_loop s = 0\<close> half
    by (simp add: half_request_def on_incoming_connection_def server_new_connection_def new Let_def post_def
        tcp_connection_ctor_def established_def set_state_def on_channel_eq [OF slow_kernel_ok]
        server_callbacks_def http_user_def run_callback_def call_if_set_def http_connection_callback_def
        is_connected_def set_context_def handle_conn_events_def handle_events_def conn_channel_callbacks_def
        set_revents_def epoll_constants handle_read_def on_message_def parsing_completed_def new_channel_def)
qed

theorem requests_well_typed_witness:
  "\<exists>s0 s s1 c ctx. http_server_ctor 0 3 True zero_sockaddr = Inr s0 \<and> http_server_start Suc True True s0 = Inr s \<and>
    foldE (server_step (\<lambda>_. slow_kernel) (http_user rev (\<lambda>_. slow_kernel) (\<lambda>_ _. missing_file)) None)
      half_request s = Inr s1 \<and> alive s1 0 = Some c \<and> conn_context c = Some ctx \<and>
    get_header ''Host'' (request ctx) = Some ''a'' \<and> typed_context ctx"
proof -
  obtain s0 :: "(http_state, http_context option) server"
    where s0: "http_server_ctor 0 3 True zero_sockaddr = Inr s0"
    by (simp add: http_server_ctor_def server_ctor_def pool_ctor_def kNumThreads_def)
  from start_succeeds [OF s0 [unfolded http_server_ctor_def], of Suc] obtain s where
    s: "http_server_start Suc True True s0 = Inr s" by (auto simp: http_server_start_def)
  from half_run [OF s0 s] obtain s1 c ctx where
    run: "foldE (server_step (\<lambda>_. slow_kernel) (http_user rev (\<lambda>_. slow_kernel) (\<lambda>_ _. missing_file)) None)
      half_request s = Inr s1" and c: "alive s1 0 = Some c" "conn_context c = Some ctx"
    "get_header ''Host'' (request ctx) = Some ''a''" by blast
  from requests_well_typed [OF s0 s run c(1,2)] s0 s run c show ?thesis by blast
qed

end
