(* ===== verification/Main_Program.thy ===== *)
theory Main_Program
  imports Event_Loop Http_Server
begin

text \<open>
  The program itself: \<open>main\<close> of \<open>test/server_main.cpp\<close>, up to the call of \<open>loop.loop()\<close>. What
  \<open>getopt\<close> of the C library makes of the command line is an argument: the options in order,
  with \<open>optarg\<close>. The function \<open>on_message\<close> of that file is used nowhere.
\<close>

section \<open>Options\<close>

text \<open>\<open>std::atoi\<close>: white space, a sign and digits, and nothing said about what follows them. A
  number that is not an \<open>int\<close> is undefined behaviour.\<close>

definition is_space :: "char \<Rightarrow> bool" where
  "is_space c \<longleftrightarrow> c = CHR '' '' \<or> (9 \<le> (of_char c :: nat) \<and> (of_char c :: nat) \<le> 13)"

definition number_written :: "bytes \<Rightarrow> int" where
  "number_written s =
     (let t = dropWhile is_space s in
      case t of
        c # u \<Rightarrow>
          if c = CHR ''-'' then - int (dec_val (takeWhile is_digit u))
          else if c = CHR ''+'' then int (dec_val (takeWhile is_digit u))
          else int (dec_val (takeWhile is_digit t))
      | [] \<Rightarrow> 0)"

definition is_int :: "int \<Rightarrow> bool" where
  "is_int n \<longleftrightarrow> - (2 ^ 31) \<le> n \<and> n < 2 ^ 31"

definition atoi :: "bytes \<Rightarrow> int result" where
  "atoi s = (let n = number_written s in if is_int n then Inr n else Inl UndefinedBehaviour)"

text \<open>The conversion to \<open>uint16_t\<close> wraps around.\<close>

definition main_option :: "char \<times> bytes \<Rightarrow> 16 word \<times> int \<Rightarrow> (16 word \<times> int) result" where
  "main_option opt st =
     (case st of (p, num_thread) \<Rightarrow>
        if fst opt = CHR ''t'' then bindE (atoi (snd opt)) (\<lambda>n. Inr (p, n))
        else if fst opt = CHR ''p'' then bindE (atoi (snd opt)) (\<lambda>n. Inr (word_of_int n, num_thread))
        else Inr (p, num_thread))"

definition main_options :: "(char \<times> bytes) list \<Rightarrow> (16 word \<times> int) result" where
  "main_options opts = foldE main_option opts (80, 4)"

section \<open>Starting up\<close>

text \<open>The loop and the server as \<open>loop.loop()\<close> finds them. \<open>tid\<close> is the main thread, \<open>new_loop\<close> names
  the loops of the workers; the other arguments are the answers of the kernel.\<close>

definition server_main ::
    "(char \<times> bytes) list \<Rightarrow> nat \<Rightarrow> int \<Rightarrow> int \<Rightarrow> 'k \<Rightarrow> int \<Rightarrow> bool \<Rightarrow> (nat \<Rightarrow> nat) \<Rightarrow> bool
      \<Rightarrow> (('t, 'k) event_loop \<times> (http_state, http_context option) server) result" where
  "server_main opts tid timer_fd wakeup_fd efd listen_fd bind_ok new_loop ctl_ok =
     bindE (main_options opts) (\<lambda>(p, num_thread).
     bindE (event_loop_ctor tid False timer_fd wakeup_fd efd ctl_ok ctl_ok) (\<lambda>loop.
     let address = inet_address_any p False in
     bindE (http_server_ctor tid listen_fd bind_ok address) (\<lambda>server.
     bindE (http_server_start new_loop ctl_ok True server) (\<lambda>server'.
     Inr (loop, server')))))"

section \<open>What the options mean\<close>

text \<open>The numbers of \<open>-t\<close> and \<open>-p\<close> are numbers of type \<open>int\<close>. Only the last \<open>-p\<close> counts, and \<open>-t\<close>
  for nothing.\<close>

definition int_options :: "(char \<times> bytes) list \<Rightarrow> bool" where
  "int_options opts \<longleftrightarrow>
     list_all (\<lambda>(opt, arg). opt = CHR ''t'' \<or> opt = CHR ''p'' \<longrightarrow> is_int (number_written arg)) opts"

fun port_asked :: "(char \<times> bytes) list \<Rightarrow> int \<Rightarrow> int" where
  "port_asked [] n = n"
| "port_asked ((opt, arg) # opts) n = port_asked opts (if opt = CHR ''p'' then number_written arg else n)"

lemma main_option_read:
  "main_option (opt, arg) (word_of_int n, t) =
     (if (opt = CHR ''t'' \<or> opt = CHR ''p'') \<and> \<not> is_int (number_written arg) then Inl UndefinedBehaviour
      else Inr (word_of_int (if opt = CHR ''p'' then number_written arg else n),
                if opt = CHR ''t'' then number_written arg else t))"
  by (simp add: main_option_def atoi_def Let_def)

lemma options_read:
  "if int_options opts then \<exists>t'. foldE main_option opts (word_of_int n, t) = Inr (word_of_int (port_asked opts n), t')
   else foldE main_option opts (word_of_int n, t) = Inl UndefinedBehaviour"
proof (induction opts arbitrary: n t)
  case Nil
  then show ?case by (simp add: int_options_def)
next
  case (Cons o1 opts)
  obtain opt arg where o1: "o1 = (opt, arg)" by (cases o1) auto
  have "int_options (o1 # opts) \<longleftrightarrow>
      \<not> ((opt = CHR ''t'' \<or> opt = CHR ''p'') \<and> \<not> is_int (number_written arg)) \<and> int_options opts"
    by (auto simp: o1 int_options_def)
  with Cons.IH [of "if opt = CHR ''p'' then number_written arg else n" "if opt = CHR ''t'' then number_written arg else t"]
  show ?case
    by (cases "(opt = CHR ''t'' \<or> opt = CHR ''p'') \<and> \<not> is_int (number_written arg)"; cases "int_options opts")
      (simp_all add: o1 main_option_read)
qed

lemma main_options_eq:
  "if int_options opts then \<exists>t. main_options opts = Inr (word_of_int (port_asked opts 80), t)
   else main_options opts = Inl UndefinedBehaviour"
  using options_read [of opts 80 4] by (cases "int_options opts") (simp_all add: main_options_def)

lemma main_started:
  assumes "0 \<le> timer_fd" and "wakeup_fd \<noteq> -1" and "main_options opts = Inr (p, t)"
  shows "\<exists>loop server. server_main opts tid timer_fd wakeup_fd efd listen_fd True new_loop True = Inr (loop, server) \<and>
    thread_id loop = tid \<and> server_loop server = tid \<and> \<not> quit_flag loop \<and>
    listening (server_acceptor server) \<and> is_reading (accept_channel (server_acceptor server)) \<and>
    in_interest_list (accept_channel (server_acceptor server)) \<and>
    owner_loop (accept_channel (server_acceptor server)) = tid \<and>
    bound (server_acceptor server) = Some (inet_address_any p False) \<and>
    workers (server_pool server) = map new_loop [0..<4]"
proof -
  obtain p0 where p0: "pool_ctor tid kNumThreads = Inr p0" by (simp add: pool_ctor_def kNumThreads_def)
  from pool_start_spec [OF p0, of new_loop] obtain q where q:
    "pool_start True new_loop p0 = Inr q" "workers q = map new_loop [0..<nat kNumThreads]" by blast
  have "nat kNumThreads = 4" by (simp add: kNumThreads_def)
  with p0 q assms show ?thesis
    by (simp add: server_main_def event_loop_ctor_def timer_queue_ctor_def enable_reading_eq Let_def
        http_server_ctor_def server_ctor_def http_server_start_def server_start_def start_task_def
        acceptor_ctor_def acceptor_listen_def bindE_assertE is_reading_def new_channel_def epoll_constants)
qed

section \<open>Properties\<close>

text \<open>C31: The program starts: with its timer and event descriptors made, its port free and the calls of
  \<open>epoll_ctl\<close> successful, \<open>main\<close> comes to \<open>loop.loop()\<close> with the server listening on every
  interface, its socket registered for reading with the main loop and four worker loops running,
  whatever number \<open>-t\<close> asks for. The port is 80 without the option \<open>-p\<close>, and otherwise the number
  of the last \<open>-p\<close> modulo \<open>2 ^ 16\<close>, so that \<open>-p 65616\<close> listens on port 80 and \<open>-p -1\<close> on 65535. This
  is for options whose numbers are of type \<open>int\<close>; any other number is undefined behaviour of
  \<open>std::atoi\<close>, that of \<open>-t\<close>, which counts for nothing, included.\<close>

theorem main_listens:
  assumes "0 \<le> timer_fd" and "wakeup_fd \<noteq> -1"
  shows "if int_options opts
    then \<exists>loop server a. server_main opts tid timer_fd wakeup_fd efd listen_fd True new_loop True = Inr (loop, server) \<and>
      listening (server_acceptor server) \<and> is_reading (accept_channel (server_acceptor server)) \<and>
      in_interest_list (accept_channel (server_acceptor server)) \<and>
      owner_loop (accept_channel (server_acceptor server)) = tid \<and>
      bound (server_acceptor server) = Some a \<and> unat (port a) = nat (port_asked opts 80 mod 2 ^ 16) \<and>
      ip a = ''0.0.0.0'' \<and> workers (server_pool server) = map new_loop [0..<4]
    else server_main opts tid timer_fd wakeup_fd efd listen_fd True new_loop True = Inl UndefinedBehaviour"
proof (cases "int_options opts")
  case True
  let ?a = "inet_address_any (word_of_int (port_asked opts 80)) False"
  have "port ?a = word_of_int (port_asked opts 80)" using port_roundtrip [of _ False] by simp
  then have "unat (port ?a) = nat (port_asked opts 80 mod 2 ^ 16)"
    by (simp add: unat_word_ariths take_bit_eq_mod unsigned_of_int)
  moreover have "ip ?a = ''0.0.0.0''" by (simp add: any_and_loopback_ip)
  moreover obtain t where "main_options opts = Inr (word_of_int (port_asked opts 80), t)"
    using main_options_eq [of opts] True by auto
  ultimately show ?thesis
    using main_started [OF assms, of opts "word_of_int (port_asked opts 80)" t tid efd listen_fd new_loop] True
    by (simp only: if_True) blast
next
  case False
  then have "main_options opts = Inl UndefinedBehaviour" using main_options_eq [of opts] by simp
  with False show ?thesis by (simp add: server_main_def)
qed

text \<open>Two ports asked for, of which the last counts, none, and a number that is no \<open>int\<close>.\<close>

theorem main_listens_witness:
  "let start = (\<lambda>opts. server_main opts 0 3 4 (0 :: nat) 5 True Suc True) in
   (\<exists>loop server a. start [(CHR ''p'', ''8080''), (CHR ''t'', ''16''), (CHR ''p'', ''65616'')] =
      Inr (loop :: (nat, nat) event_loop, server) \<and>
    listening (server_acceptor server) \<and> in_interest_list (accept_channel (server_acceptor server)) \<and>
    bound (server_acceptor server) = Some a \<and> unat (port a) = 80 \<and> workers (server_pool server) = map Suc [0..<4]) \<and>
   (\<exists>loop server a. start [] = Inr (loop :: (nat, nat) event_loop, server) \<and>
    bound (server_acceptor server) = Some a \<and> unat (port a) = 80) \<and>
   start [(CHR ''p'', ''18446744073709551616'')] = Inl UndefinedBehaviour"
proof -
  let ?two = "[(CHR ''p'', ''8080''), (CHR ''t'', ''16''), (CHR ''p'', ''65616'')]"
  note eval = number_written_def is_space_def dec_val_def is_digit_def digit_val_def int_options_def is_int_def
  have "int_options ?two" "port_asked ?two 80 = 65616" by (simp_all add: eval)
  moreover have "int_options []" "port_asked [] 80 = 80" by (simp_all add: eval)
  moreover have "\<not> int_options [(CHR ''p'', ''18446744073709551616'')]" by (simp add: eval)
  ultimately show ?thesis
    using main_listens [of 3 4 ?two 0 "0 :: nat" 5 Suc] main_listens [of 3 4 "[]" 0 "0 :: nat" 5 Suc]
      main_listens [of 3 4 "[(CHR ''p'', ''18446744073709551616'')]" 0 "0 :: nat" 5 Suc]
    unfolding Let_def by (simp del: port_asked.simps) blast
qed

end
