(* ===== verification/Timer_Service.thy ===== *)
theory Timer_Service
  imports Event_Loop "HOL-Library.Multiset"
begin

text \<open>
  Timers over time: what becomes of every timer that is added to the queue of
  \<open>wuduo/timer_queue.cpp\<close>, by the loop's thread or by the callbacks of other timers, under a
  kernel whose timer descriptor fires when the alarm that was set last is due.
\<close>

section \<open>The life of a queue\<close>

text \<open>A timer that is added: the clock reading of \<open>reset_alarm\<close>, the deadline, and the address of the
  new timer object.\<close>

datatype addition = Addition (added_at: int) (new_deadline: int) (new_address: nat)

definition new_entry :: "addition \<Rightarrow> entry" where
  "new_entry t = Entry (new_deadline t) (new_address t)"

text \<open>The loop's thread adds a timer, or handles the firing of the descriptor, with the two clock
  readings of \<open>handle_read\<close>; the callback of the timer at the address \<open>a\<close> adds the timers
  \<open>spawn a\<close>. The record says which timers have run and when, which deadline the timer at an
  address was last made with, and which timers have been added.\<close>

datatype timer_life = AddTimer addition | Fire int int "nat \<Rightarrow> addition list"

record life_log =
  ran :: "(int \<times> entry) list"
  deadline_of :: "nat \<Rightarrow> int"
  adds :: "entry list"

definition no_life :: life_log where
  "no_life = \<lparr>ran = [], deadline_of = (\<lambda>_. 0), adds = []\<rparr>"

definition add_one :: "addition \<Rightarrow> timer_queue \<times> life_log \<Rightarrow> timer_queue \<times> life_log" where
  "add_one t st =
     (insert_timer (added_at t) (new_deadline t) (new_address t) (fst st),
      (snd st)\<lparr>deadline_of := (deadline_of (snd st))(new_address t := new_deadline t),
               adds := adds (snd st) @ [new_entry t]\<rparr>)"

definition run_timer :: "int \<Rightarrow> (nat \<Rightarrow> addition list) \<Rightarrow> nat \<Rightarrow> timer_queue \<times> life_log
    \<Rightarrow> (timer_queue \<times> life_log) result" where
  "run_timer now1 spawn a st =
     Inr (fold add_one (spawn a)
       (fst st, (snd st)\<lparr>ran := ran (snd st) @ [(now1, Entry (deadline_of (snd st) a) a)]\<rparr>))"

fun life_step :: "timer_life \<Rightarrow> timer_queue \<times> life_log \<Rightarrow> (timer_queue \<times> life_log) result" where
  "life_step (AddTimer t) st = Inr (add_one t st)"
| "life_step (Fire now1 now2 spawn) st = timer_handle_read True now1 now2 (run_timer now1 spawn) st"

text \<open>What is asked of the run. A new timer object is at an address that no timer in the queue or
  in the firing under way has; an address can be used again once its timer has run. The alarm is
  computed before the deadline has come: no timer is added late, and none becomes due between the
  two clock readings of a firing.\<close>

definition good_addition :: "entry list \<Rightarrow> int \<Rightarrow> addition \<Rightarrow> bool" where
  "good_addition es now2 t \<longleftrightarrow>
     added_at t < new_deadline t \<and> now2 < new_deadline t \<and> new_address t < uintptr_max \<and>
     new_address t \<notin> set (map address es)"

definition spawned :: "int \<Rightarrow> (nat \<Rightarrow> addition list) \<Rightarrow> timer_queue \<Rightarrow> addition list" where
  "spawned now1 spawn q = concat (map (\<lambda>e. spawn (address e)) (fst (get_expired now1 q)))"

fun punctual :: "timer_life \<Rightarrow> timer_queue \<Rightarrow> bool" where
  "punctual (AddTimer t) q \<longleftrightarrow> good_addition (timers q) (added_at t) t"
| "punctual (Fire now1 now2 spawn) q \<longleftrightarrow>
     list_all (\<lambda>e. deadline e \<le> now1 \<or> now2 < deadline e) (timers q) \<and>
     list_all (good_addition (timers q) (max now1 now2)) (spawned now1 spawn q) \<and>
     distinct (map new_address (spawned now1 spawn q))"

fun punctual_run :: "timer_life list \<Rightarrow> timer_queue \<times> life_log \<Rightarrow> bool" where
  "punctual_run [] st \<longleftrightarrow> True"
| "punctual_run (ev # evs) st \<longleftrightarrow> punctual ev (fst st) \<and>
     (case life_step ev st of Inl e \<Rightarrow> True | Inr st' \<Rightarrow> punctual_run evs st')"

text \<open>The kernel will fire at the first deadline.\<close>

definition armed :: "timer_queue \<Rightarrow> bool" where
  "armed q \<longleftrightarrow> (timers q \<noteq> [] \<longrightarrow>
     settime_calls q \<noteq> [] \<and> arms (hd (settime_calls q)) \<and>
     aims_at (hd (settime_calls q)) (deadline (hd (timers q))))"

text \<open>Every timer added has run, is to be run in the firing under way (\<open>due\<close>), or is queued.\<close>

definition accounted :: "entry list \<Rightarrow> timer_queue \<times> life_log \<Rightarrow> bool" where
  "accounted due st \<longleftrightarrow>
     (case st of (q, l) \<Rightarrow>
        wf_entries (timers q) \<and>
        (\<forall>e \<in> set (timers q) \<union> set due. deadline e = deadline_of l (address e)) \<and>
        mset (map snd (ran l)) + mset due + mset (timers q) = mset (adds l) \<and>
        (\<forall>(t, e) \<in> set (ran l). deadline e \<le> t))"

section \<open>Every step keeps it\<close>

lemma mset_emplace: "x \<notin> set xs \<Longrightarrow> mset (emplace x xs) = add_mset x (mset xs)"
  by (induction xs) auto

lemma timers_insert: "timers (insert_timer now w a q) = emplace (Entry w a) (timers q)"
  by (simp add: insert_timer_def reset_alarm_def Let_def)

lemma insert_armed:
  assumes "armed q" and "now < w"
  shows "armed (insert_timer now w a q)"
proof (cases "timers q = [] \<or> w < deadline (hd (timers q))")
  case True
  then have "hd (timers (insert_timer now w a q)) = Entry w a"
    by (auto simp: insert_timer_def hd_emplace entry_less_def Let_def)
  with True assms(2) reset_alarm_aims [of now w q] reset_alarm_arms [of now w q] show ?thesis
    by (simp add: armed_def insert_timer_def Let_def)
next
  case False
  then have "deadline (hd (timers (insert_timer now w a q))) = deadline (hd (timers q))"
    by (auto simp: insert_timer_def hd_emplace entry_less_def Let_def)
  with False assms(1) show ?thesis by (simp add: armed_def insert_timer_def Let_def)
qed

lemma add_accounted:
  assumes "accounted due st" and "new_address t < uintptr_max"
    and "new_address t \<notin> address ` (set (timers (fst st)) \<union> set due)"
  shows "accounted due (add_one t st)"
proof -
  obtain q l where st: "st = (q, l)" by (cases st) auto
  let ?w = "new_deadline t" and ?a = "new_address t"
  have new: "Entry ?w ?a \<notin> set (timers q)" using assms(3) by (force simp: st)
  have "wf_entries (timers (insert_timer (added_at t) ?w ?a q))"
    using assms(1,2) by (intro insert_timer_wf_entries) (simp_all add: accounted_def st)
  moreover have "deadline e = ((deadline_of l)(?a := ?w)) (address e)"
    if "e \<in> insert (Entry ?w ?a) (set (timers q)) \<union> set due" for e
  proof (cases "e = Entry ?w ?a")
    case False
    then have e: "e \<in> set (timers q) \<union> set due" using that by simp
    then have "address e \<noteq> ?a" using assms(3) by (metis fst_conv image_eqI st)
    with e assms(1) show ?thesis by (simp add: accounted_def st)
  qed simp
  ultimately show ?thesis
    using assms(1)
    by (simp add: accounted_def add_one_def new_entry_def st timers_insert mset_emplace [OF new])
qed

lemma adds_accounted:
  assumes "accounted due st" and "distinct (map new_address ts)"
    and "\<forall>t \<in> set ts. new_address t < uintptr_max \<and> new_address t \<notin> address ` (set (timers (fst st)) \<union> set due)"
  shows "accounted due (fold add_one ts st) \<and>
    set (timers (fst (fold add_one ts st))) = set (timers (fst st)) \<union> new_entry ` set ts"
  using assms
proof (induction ts arbitrary: st)
  case Nil
  then show ?case by simp
next
  case (Cons t ts)
  have acc: "accounted due (add_one t st)"
    by (rule add_accounted [OF Cons.prems(1)]) (use Cons.prems(3) in simp_all)
  have set1: "set (timers (fst (add_one t st))) = insert (new_entry t) (set (timers (fst st)))"
    by (simp add: add_one_def new_entry_def timers_insert)
  have fresh: "new_address u < uintptr_max \<and>
      new_address u \<notin> address ` (set (timers (fst (add_one t st))) \<union> set due)" if "u \<in> set ts" for u
  proof -
    have "new_address u \<noteq> new_address t" using Cons.prems(2) that by (metis distinct.simps(2) image_eqI list.simps(9) set_map)
    moreover have "address (new_entry t) = new_address t" by (simp add: new_entry_def)
    ultimately show ?thesis using Cons.prems(3) that by (simp add: set1)
  qed
  have "distinct (map new_address ts)" using Cons.prems(2) by simp
  from Cons.IH [OF acc this] fresh show ?case by (simp add: set1)
qed

text \<open>Running the timers that have expired.\<close>

lemma run_due:
  assumes "accounted due (q, l)" and "\<forall>e \<in> set due. deadline e \<le> now1"
    and "distinct (map new_address (concat (map (\<lambda>e. spawn (address e)) due)))"
    and "\<forall>t \<in> set (concat (map (\<lambda>e. spawn (address e)) due)).
      new_address t < uintptr_max \<and> new_address t \<notin> address ` (set (timers q) \<union> set due)"
  shows "\<exists>st'. foldE (run_timer now1 spawn) (map address due) (q, l) = Inr st' \<and> accounted [] st' \<and>
    set (timers (fst st')) = set (timers q) \<union> new_entry ` set (concat (map (\<lambda>e. spawn (address e)) due))"
  using assms
proof (induction due arbitrary: q l)
  case Nil
  then show ?case by simp
next
  case (Cons e due)
  let ?l = "l\<lparr>ran := ran l @ [(now1, Entry (deadline_of l (address e)) (address e))]\<rparr>"
  let ?st = "fold add_one (spawn (address e)) (q, ?l)"
  have "Entry (deadline_of l (address e)) (address e) = e"
    using Cons.prems(1) by (cases e) (auto simp: accounted_def)
  then have "accounted due (q, ?l)"
    using Cons.prems(1,2) by (auto simp: accounted_def)
  moreover have "distinct (map new_address (spawn (address e)))" using Cons.prems(3) by simp
  moreover have "\<forall>t \<in> set (spawn (address e)). new_address t < uintptr_max \<and>
      new_address t \<notin> address ` (set (timers (fst (q, ?l))) \<union> set due)"
    using Cons.prems(4) by auto
  ultimately have st: "accounted due ?st"
    "set (timers (fst ?st)) = set (timers q) \<union> new_entry ` set (spawn (address e))"
    using adds_accounted [of due "(q, ?l)" "spawn (address e)"] by simp_all
  have addr: "address (new_entry u) = new_address u" for u by (simp add: new_entry_def)
  have "new_address t \<notin> address ` (set (timers (fst ?st)) \<union> set due)"
    if t: "t \<in> set (concat (map (\<lambda>e. spawn (address e)) due))" for t
  proof -
    have "new_address t \<notin> address ` (set (timers q) \<union> set due)" using Cons.prems(4) t by auto
    moreover have "new_address t \<notin> new_address ` set (spawn (address e))"
      using Cons.prems(3) t by auto
    ultimately show ?thesis by (auto simp: st(2) addr)
  qed
  then have "\<forall>t \<in> set (concat (map (\<lambda>e. spawn (address e)) due)). new_address t < uintptr_max \<and>
      new_address t \<notin> address ` (set (timers (fst ?st)) \<union> set due)"
    using Cons.prems(4) by auto
  with Cons.IH [of "fst ?st" "snd ?st"] st(1) Cons.prems(2,3) obtain st' where
    "foldE (run_timer now1 spawn) (map address due) ?st = Inr st'" "accounted [] st'"
    "set (timers (fst st')) = set (timers (fst ?st)) \<union> new_entry ` set (concat (map (\<lambda>e. spawn (address e)) due))"
    by auto
  moreover have "run_timer now1 spawn (address e) (q, l) = Inr ?st" by (simp add: run_timer_def)
  ultimately show ?case by (intro exI [of _ st']) (simp add: st(2) Un_assoc image_Un)
qed

lemma mset_due_later:
  "mset (filter (\<lambda>e. deadline e \<le> t) xs) + mset (filter (\<lambda>e. t < deadline e) xs) = mset xs"
  by (induction xs) auto

lemma fire_keeps:
  assumes acc: "accounted [] (q, l)" and p: "punctual (Fire now1 now2 spawn) q"
  shows "\<exists>q' l'. life_step (Fire now1 now2 spawn) (q, l) = Inr (q', l') \<and> accounted [] (q', l') \<and>
    armed q' \<and> (\<forall>e \<in> set (timers q'). now1 < deadline e)"
proof -
  let ?due = "filter (\<lambda>e. deadline e \<le> now1) (timers q)"
  let ?later = "filter (\<lambda>e. now1 < deadline e) (timers q)"
  let ?ts = "concat (map (\<lambda>e. spawn (address e)) ?due)"
  have wf: "wf_entries (timers q)" using acc by (simp add: accounted_def)
  have get: "get_expired now1 q = (?due, q\<lparr>timers := ?later\<rparr>)" by (rule get_expired_filter [OF wf])
  have ts: "spawned now1 spawn q = ?ts" by (simp add: spawned_def get)
  have "mset (map snd (ran l)) + mset ?due + mset ?later = mset (adds l)"
    using acc mset_due_later [of now1 "timers q"] by (simp add: accounted_def add.assoc)
  then have due: "accounted ?due (q\<lparr>timers := ?later\<rparr>, l)"
    using acc wf by (auto simp: accounted_def wf_entries_def sorted_wrt_filter)
  have good: "list_all (good_addition (timers q) (max now1 now2)) ?ts"
    "distinct (map new_address ?ts)" using p ts by simp_all
  have fresh: "new_address t < uintptr_max \<and>
      new_address t \<notin> address ` (set (timers (q\<lparr>timers := ?later\<rparr>)) \<union> set ?due)"
    if "t \<in> set ?ts" for t
  proof -
    have "good_addition (timers q) (max now1 now2) t" using good(1) that by (simp only: list_all_iff)
    then show ?thesis by (auto simp: good_addition_def)
  qed
  have "\<exists>st'. foldE (run_timer now1 spawn) (map address ?due) (q\<lparr>timers := ?later\<rparr>, l) = Inr st' \<and> accounted [] st' \<and>
      set (timers (fst st')) = set (timers (q\<lparr>timers := ?later\<rparr>)) \<union> new_entry ` set ?ts"
  proof (rule run_due [OF due _ good(2)])
    show "\<forall>e \<in> set ?due. deadline e \<le> now1" by simp
  qed (rule ballI, erule fresh)
  then obtain st' where st':
    "foldE (run_timer now1 spawn) (map address ?due) (q\<lparr>timers := ?later\<rparr>, l) = Inr st'" "accounted [] st'"
    and timers: "set (timers (fst st')) = set (timers (q\<lparr>timers := ?later\<rparr>)) \<union> new_entry ` set ?ts" by blast
  have later: "max now1 now2 < deadline e" if el: "e \<in> set (timers (fst st'))" for e
  proof -
    have "e \<in> set ?later \<union> new_entry ` set ?ts" using el unfolding timers by simp
    then consider "e \<in> set ?later" | t where "t \<in> set ?ts" "e = new_entry t" by blast
    then show ?thesis
    proof cases
      case 1
      then show ?thesis using p by (auto simp: list_all_iff)
    next
      case 2
      have "good_addition (timers q) (max now1 now2) t" using good(1) 2(1) by (simp only: list_all_iff)
      then show ?thesis using 2(2) by (simp add: good_addition_def new_entry_def)
    qed
  qed
  let ?q = "if timers (fst st') \<noteq> [] then reset_alarm now2 (deadline (hd (timers (fst st')))) (fst st') else fst st'"
  have "life_step (Fire now1 now2 spawn) (q, l) = Inr (?q, snd st')"
    using st'(1) by (simp add: timer_handle_read_def get Let_def bindE_assertE)
  moreover have same: "timers ?q = timers (fst st')" by (simp add: reset_alarm_def Let_def)
  moreover have "armed ?q"
    using later reset_alarm_aims reset_alarm_arms same
    by (auto simp: armed_def)
  moreover have "accounted [] (?q, snd st')" using st'(2) same by (cases st') (simp add: accounted_def)
  ultimately show ?thesis using later by fastforce
qed

lemma life_run:
  "accounted [] st \<Longrightarrow> armed (fst st) \<Longrightarrow> punctual_run evs st \<Longrightarrow>
   \<exists>st'. foldE life_step evs st = Inr st' \<and> accounted [] st' \<and> armed (fst st') \<and>
     (\<forall>now1 now2 spawn. evs \<noteq> [] \<and> last evs = Fire now1 now2 spawn \<longrightarrow>
       (\<forall>e \<in> set (timers (fst st')). now1 < deadline e))"
proof (induction evs arbitrary: st)
  case Nil
  then show ?case by simp
next
  case (Cons ev evs)
  obtain q l where st: "st = (q, l)" by (cases st) auto
  have "\<exists>st1. life_step ev st = Inr st1 \<and> accounted [] st1 \<and> armed (fst st1) \<and>
      (\<forall>now1 now2 spawn. ev = Fire now1 now2 spawn \<longrightarrow> (\<forall>e \<in> set (timers (fst st1)). now1 < deadline e))"
  proof (cases ev)
    case (AddTimer t)
    have "good_addition (timers q) (added_at t) t" using Cons.prems(3) by (simp add: AddTimer st)
    then have a: "added_at t < new_deadline t" "new_address t < uintptr_max"
      "new_address t \<notin> address ` (set (timers (fst st)) \<union> set [])"
      by (auto simp: good_addition_def st)
    from add_accounted [OF Cons.prems(1) a(2,3)] insert_armed [OF _ a(1), of q "new_address t"] Cons.prems(2)
    show ?thesis by (simp add: AddTimer add_one_def st)
  next
    case (Fire now1 now2 spawn)
    have "punctual (Fire now1 now2 spawn) q" using Cons.prems(3) by (simp add: Fire st)
    from fire_keeps [OF Cons.prems(1) [unfolded st] this] Fire st show ?thesis by fastforce
  qed
  then obtain st1 where 1: "life_step ev st = Inr st1" "accounted [] st1" "armed (fst st1)"
    "\<forall>now1 now2 spawn. ev = Fire now1 now2 spawn \<longrightarrow> (\<forall>e \<in> set (timers (fst st1)). now1 < deadline e)" by blast
  have "punctual_run evs st1" using Cons.prems(3) 1(1) by simp
  from Cons.IH [OF 1(2,3) this] 1 show ?case by (cases "evs = []") auto
qed

section \<open>Properties\<close>

text \<open>C22: No timer is lost, run twice or run early. Whatever timers the loop's thread adds to a new
  queue and the callbacks of timers add while they run, and whenever the descriptor fires in
  between, each timer added has either run, as often as it was added and not before its deadline,
  or is still in the queue; and while some are, the alarm that was set last is a valid one and
  falls on the first deadline. After a firing no timer that was due remains. This is for timers
  added before their deadline, firings during whose handling, between the two readings of the
  clock, no deadline passes, and timer objects at addresses that no queued or just expired timer
  has (the address of a timer that has run may be used again); points in time are unbounded
  numbers, where the code has 64 bits of nanoseconds.\<close>

theorem timers_run_once_in_time:
  assumes "timer_queue_ctor l True True fd = Inr q0" and "punctual_run evs (q0, no_life)"
  shows "\<exists>q log. foldE life_step evs (q0, no_life) = Inr (q, log) \<and>
    mset (map snd (ran log)) + mset (timers q) = mset (adds log) \<and>
    (\<forall>(t, e) \<in> set (ran log). deadline e \<le> t) \<and> armed q \<and>
    (\<forall>now1 now2 spawn. evs \<noteq> [] \<and> last evs = Fire now1 now2 spawn \<longrightarrow>
      (\<forall>e \<in> set (timers q). now1 < deadline e))"
proof -
  have "timers q0 = []" using assms(1) by (auto simp: timer_queue_ctor_def split: if_splits elim!: bindE_InrE)
  then have "accounted [] (q0, no_life)" "armed (fst (q0, no_life))"
    by (simp_all add: accounted_def no_life_def wf_entries_def armed_def)
  from life_run [OF this assms(2)] show ?thesis by (fastforce simp: accounted_def)
qed

text \<open>Two timers, added out of order; the one that runs first adds a third, and its address is used
  again for a fourth.\<close>

definition some_timers :: "timer_life list" where
  "some_timers = [AddTimer (Addition 0 5000000 1), AddTimer (Addition 10 1000010 2),
     Fire 1000010 1000020 (\<lambda>a. if a = 2 then [Addition 1000015 6000000 3] else []),
     AddTimer (Addition 2000000 5500000 2), Fire 5600000 5600010 (\<lambda>_. []), Fire 6000000 6000010 (\<lambda>_. [])]"

theorem timers_run_once_in_time_witness:
  "\<exists>q0 q log. timer_queue_ctor 1 True True 3 = Inr q0 \<and>
    foldE life_step some_timers (q0, no_life) = Inr (q, log) \<and> timers q = [] \<and>
    mset (map snd (ran log)) + mset (timers q) = mset (adds log) \<and>
    adds log = [Entry 5000000 1, Entry 1000010 2, Entry 6000000 3, Entry 5500000 2] \<and>
    (\<forall>(t, e) \<in> set (ran log). deadline e \<le> t)"
proof -
  obtain q0 where q0: "timer_queue_ctor 1 True True 3 = Inr q0"
    by (simp add: timer_queue_ctor_def enable_reading_eq)
  then have "timers q0 = []" by (auto simp: timer_queue_ctor_def split: if_splits elim!: bindE_InrE)
  note eval = some_timers_def add_one_def new_entry_def no_life_def insert_timer_def reset_alarm_def get_expired_def entry_less_def
    timer_handle_read_def run_timer_def good_addition_def spawned_def uintptr_max_def Let_def
  have "punctual_run some_timers (q0, no_life)"
    using \<open>timers q0 = []\<close> by (simp add: eval)
  from timers_run_once_in_time [OF q0 this] obtain q log where
    run: "foldE life_step some_timers (q0, no_life) = Inr (q, log)"
    "mset (map snd (ran log)) + mset (timers q) = mset (adds log)"
    "\<forall>(t, e) \<in> set (ran log). deadline e \<le> t" by blast
  have "timers q = [] \<and> adds log = [Entry 5000000 1, Entry 1000010 2, Entry 6000000 3, Entry 5500000 2]"
    using run(1) \<open>timers q0 = []\<close> by (auto simp: eval)
  with q0 run show ?thesis by blast
qed

end
