(* ===== verification/Logging.thy ===== *)
theory Logging
  imports Prelude
begin

text \<open>
  The log lines of \<open>wuduo/log.cpp\<close> and \<open>wuduo/log.h\<close>, and the error texts of \<open>wuduo/util.cpp\<close>.
  A line is put together in an array of 1024 bytes by \<open>snprintf\<close> and \<open>vsnprintf\<close>; whether these
  stay inside it depends on the sum of their results. The texts that the conversions of a format
  make are arguments; so are the process, the thread and the time as the system prints them.
\<close>

section \<open>Writing into the array\<close>

abbreviation nul :: char where
  "nul \<equiv> CHR 0x00"

text \<open>\<open>snprintf(buf + i, n, \<dots>)\<close>: at most \<open>n - 1\<close> bytes of the text and a NUL are written; the result
  is the length of the whole text. Writing past the array's end is an error.\<close>

definition snprintf_at :: "nat \<Rightarrow> nat \<Rightarrow> bytes \<Rightarrow> bytes \<Rightarrow> (nat \<times> bytes) result" where
  "snprintf_at i n text buf =
     (if n = 0 then Inr (length text, buf)
      else let w = take (n - 1) text @ [nul] in
        if i + length w \<le> length buf
        then Inr (length text, take i buf @ w @ drop (i + length w) buf)
        else Inl OutOfBounds)"

definition log_buffer_size :: nat where
  "log_buffer_size = 1024"

text \<open>\<open>log_base\<close>, given the texts of its two formats; what is printed is the string in the array.\<close>

definition log_base :: "bytes \<Rightarrow> bytes \<Rightarrow> bytes result" where
  "log_base prefix_text message =
     (let buf = replicate log_buffer_size nul in
      bindE (snprintf_at 0 log_buffer_size prefix_text buf) (\<lambda>(n1, buf1).
      let i = size_add 0 n1 in
      bindE (snprintf_at i (size_sub log_buffer_size i) message buf1) (\<lambda>(n2, buf2).
      Inr (takeWhile (\<lambda>c. c \<noteq> nul) buf2))))"

abbreviation esc :: char where
  "esc \<equiv> CHR 0x1B"

text \<open>The first format. \<open>asctime\<close> ends with a line feed of its own.\<close>

definition log_prefix :: "int \<Rightarrow> bytes \<Rightarrow> bytes \<Rightarrow> bytes" where
  "log_prefix pid thread_text time_text =
     esc # ''[38;2;114;115;115m['' @ int_dec pid @ '', '' @ thread_text @ ''] '' @ time_text @ '' '' @ esc # ''[0m''"

section \<open>Levels\<close>

datatype log_level = LOG_FATAL | LOG_ERROR | LOG_WARN | LOG_INFO | LOG_DEBUG | LOG_TRACE

fun level_text :: "log_level \<Rightarrow> bytes" where
  "level_text LOG_FATAL = esc # ''[38;2;255;0;0mFATAL'' @ esc # ''[0m''"
| "level_text LOG_ERROR = esc # ''[38;2;255;0;0mERROR'' @ esc # ''[0m''"
| "level_text LOG_WARN = esc # ''[38;2;255;0;0mWARN'' @ esc # ''[0m''"
| "level_text LOG_INFO = esc # ''[38;2;0;255;0mINFO'' @ esc # ''[0m''"
| "level_text LOG_DEBUG = ''DEBUG''"
| "level_text LOG_TRACE = ''TRACE''"

text \<open>The macro \<open>BASIC_LOG\<close>: the text that \<open>log_base\<close> is called for.\<close>

definition basic_log :: "log_level \<Rightarrow> bytes \<Rightarrow> nat \<Rightarrow> bytes \<Rightarrow> bytes \<Rightarrow> bytes" where
  "basic_log level path line func text =
     esc # ''[38;2;192;192;192m['' @ path @ '':'' @ dec line @ '':'' @ func @ ''] '' @ esc # ''[0m'' @
     level_text level @ '' - '' @ text @ ''\<newline>''"

section \<open>Error numbers\<close>

text \<open>\<open>get_socket_error\<close>: \<open>None\<close> when \<open>getsockopt\<close> fails; \<open>errno\<close> is read again after the failure has
  been logged.\<close>

definition get_socket_error :: "int option \<Rightarrow> int \<Rightarrow> int" where
  "get_socket_error optval errno_after_log =
     (case optval of None \<Rightarrow> errno_after_log | Some v \<Rightarrow> v)"

text \<open>\<open>strerror_thread_local\<close> returns what \<open>strerror_r\<close> does.\<close>

definition strerror_thread_local :: "(int \<Rightarrow> bytes) \<Rightarrow> int \<Rightarrow> bytes" where
  "strerror_thread_local strerror_r saved_errno = strerror_r saved_errno"

section \<open>Lemmas\<close>

lemma takeWhile_nul: "nul \<notin> set s \<Longrightarrow> takeWhile (\<lambda>c. c \<noteq> nul) (s @ nul # t) = s"
  by (simp add: takeWhile_tail takeWhile_append)

text \<open>What is printed, and when the array is overrun: exactly when the first text alone is longer
  than the array.\<close>

lemma log_base_eq:
  assumes "nul \<notin> set p" and "nul \<notin> set m" and "length p < size_mod"
  shows "log_base p m = (if length p \<le> log_buffer_size then Inr (take (log_buffer_size - 1) (p @ m)) else Inl OutOfBounds)"
proof -
  let ?N = "log_buffer_size"
  let ?buf1 = "take (?N - 1) p @ nul # replicate (?N - Suc (min (?N - 1) (length p))) nul"
  have pos: "0 < ?N" "?N < size_mod" by (simp_all add: log_buffer_size_def size_mod_def)
  have "snprintf_at 0 ?N p (replicate ?N nul) = Inr (length p, ?buf1)"
    using pos by (auto simp: snprintf_at_def Let_def min_def)
  then have eq: "log_base p m = bindE (snprintf_at (length p) (size_sub ?N (length p)) m ?buf1)
      (\<lambda>(n2, buf2). Inr (takeWhile (\<lambda>c. c \<noteq> nul) buf2))"
    using assms(3) by (simp add: log_base_def Let_def)
  have len: "length ?buf1 = ?N" using pos by (auto simp: min_def)
  consider "length p < ?N" | "length p = ?N" | "?N < length p" by linarith
  then show ?thesis
  proof cases
    case 1
    let ?n = "?N - length p"
    let ?w = "take (?n - 1) m @ [nul]"
    have n: "size_sub ?N (length p) = ?n" "0 < ?n" using 1 pos by simp_all
    have fits: "length p + length ?w \<le> ?N" using 1 by simp
    have "snprintf_at (length p) ?n m ?buf1 = Inr (length m, p @ ?w @ drop (length p + length ?w) ?buf1)"
      using n fits len 1 by (simp add: snprintf_at_def Let_def)
    then have "log_base p m = Inr (takeWhile (\<lambda>c. c \<noteq> nul) ((p @ take (?n - 1) m) @ nul # drop (length p + length ?w) ?buf1))"
      by (simp add: eq n(1))
    moreover have "nul \<notin> set (p @ take (?n - 1) m)" using assms(1,2) by (auto dest: in_set_takeD)
    moreover have "p @ take (?n - 1) m = take (?N - 1) (p @ m)" using 1 by simp
    ultimately show ?thesis using 1 takeWhile_nul by (metis less_imp_le_nat)
  next
    case 2
    then have "log_base p m = Inr (takeWhile (\<lambda>c. c \<noteq> nul) (take (?N - 1) p @ nul # replicate (?N - Suc (min (?N - 1) (length p))) nul))"
      by (simp add: eq snprintf_at_def)
    moreover have "nul \<notin> set (take (?N - 1) p)" using assms(1) by (auto dest: in_set_takeD)
    ultimately show ?thesis using 2 pos takeWhile_nul by simp
  next
    case 3
    have "(int ?N - int (length p)) mod int size_mod = (int ?N - int (length p) + int size_mod) mod int size_mod"
      by simp
    also have "\<dots> = int ?N - int (length p) + int size_mod"
      using 3 assms(3) by (intro mod_pos_pos_trivial) simp_all
    finally have "size_sub ?N (length p) \<noteq> 0"
      using assms(3) pos(1) by (simp add: size_sub_def)
    then have "snprintf_at (length p) (size_sub ?N (length p)) m ?buf1 = Inl OutOfBounds"
      using 3 len by (simp add: snprintf_at_def Let_def)
    with 3 show ?thesis by (simp add: eq)
  qed
qed

lemma log_prefix_length:
  assumes "- (2 ^ 31) \<le> pid" and "pid < 2 ^ 31" and "length thread_text \<le> 20" and "length time_text \<le> 26"
  shows "length (log_prefix pid thread_text time_text) \<le> 88"
proof -
  have "length (dec (nat \<bar>pid\<bar>)) \<le> 10" by (rule length_dec) (use assms in auto)
  then have "length (int_dec pid) \<le> 11" by (cases "pid < 0") (simp_all add: int_dec_def)
  with assms(3,4) show ?thesis by (simp add: log_prefix_def)
qed

section \<open>Properties\<close>

text \<open>C40: A log line never overruns the array, however long the path, function name or text of the
  message: what is printed are the first 1023 bytes of the two texts, so that a longer line loses
  its end, its line feed included. With a process number of 32 bits, a thread number of 64 bits and
  the time as \<open>asctime\<close> prints it, the first text has at most 88 bytes; the array is overrun exactly
  by a first text of more than 1024 bytes. This is for texts without a NUL, as the arguments of the
  format \<open>%s\<close> and the result of \<open>asctime\<close> are.\<close>

theorem log_line_bounded:
  assumes "- (2 ^ 31) \<le> pid" and "pid < 2 ^ 31" and "length thread_text \<le> 20" and "length time_text \<le> 26"
    and "nul \<notin> set (thread_text @ time_text)" and "nul \<notin> set (path @ func @ text)"
    and "nul \<notin> set first" and "length first < size_mod"
  shows "let line = log_prefix pid thread_text time_text @ basic_log level path n func text in
    length (log_prefix pid thread_text time_text) \<le> 88 \<and>
    log_base (log_prefix pid thread_text time_text) (basic_log level path n func text) = Inr (take 1023 line) \<and>
    (length line \<le> 1023 \<longrightarrow> last (take 1023 line) = CHR ''\<newline>'') \<and>
    (log_base first (basic_log level path n func text) = Inl OutOfBounds \<longleftrightarrow> 1024 < length first)"
proof -
  have digits: "nul \<notin> set (dec m)" for m
    using dec_digits [of m] by (auto simp: is_digit_def)
  then have "nul \<notin> set (int_dec pid)" by (simp add: int_dec_def)
  with assms(5) have p: "nul \<notin> set (log_prefix pid thread_text time_text)" by (simp add: log_prefix_def)
  have "nul \<notin> set (level_text level)" by (cases level) simp_all
  with assms(6) digits have m: "nul \<notin> set (basic_log level path n func text)" by (simp add: basic_log_def)
  have short: "length (log_prefix pid thread_text time_text) \<le> 88" by (rule log_prefix_length [OF assms(1-4)])
  then have "length (log_prefix pid thread_text time_text) < size_mod" by (simp add: size_mod_def)
  from log_base_eq [OF p m this] short log_base_eq [OF assms(7) m assms(8)] show ?thesis
    by (simp add: log_buffer_size_def basic_log_def Let_def)
qed

theorem log_line_bounded_witness:
  "let line = log_prefix 4711 ''140213'' ''Thu Jan  1 00:00:00 1970\<newline>'' @
       basic_log LOG_INFO ''epoller.cpp'' 31 ''wait'' (replicate 2000 CHR ''x'') in
   length (log_prefix 4711 ''140213'' ''Thu Jan  1 00:00:00 1970\<newline>'') \<le> 88 \<and>
   log_base (log_prefix 4711 ''140213'' ''Thu Jan  1 00:00:00 1970\<newline>'')
     (basic_log LOG_INFO ''epoller.cpp'' 31 ''wait'' (replicate 2000 CHR ''x'')) = Inr (take 1023 line) \<and>
   (length line \<le> 1023 \<longrightarrow> last (take 1023 line) = CHR ''\<newline>'') \<and>
   (log_base (replicate 1025 CHR ''x'') (basic_log LOG_INFO ''epoller.cpp'' 31 ''wait'' (replicate 2000 CHR ''x''))
      = Inl OutOfBounds \<longleftrightarrow> 1024 < length (replicate 1025 CHR ''x''))"
  by (rule log_line_bounded) (simp_all add: size_mod_def)

end
