(* ===== verification/Spec2Isabelle.thy ===== *)
theory Spec2Isabelle
  imports Stale_Report Active_Channels Loop_Iterations Request_Types Main_Program Timer_Service Logging
begin

text \<open>
  A model of wuduo, an HTTP server in C++ on a small library of event loops (one loop per thread),
  and the theorems that make it correct. The definitions are translated from the sources under
  \<open>src/wuduo\<close> and the main program, \<open>src/test/server_main.cpp\<close>.

  Parts of the program and how they interact. A \<open>TcpServer\<close> owns an \<open>Acceptor\<close> on its own loop
  and a pool of loop threads. The acceptor hands each new socket to the server, which makes a
  \<open>TcpConnection\<close> on the next loop of the pool, keeps it in a set and has the connection's loop
  run \<open>established\<close>. A connection has a \<open>Channel\<close> (the wanted events of its descriptor, kept in
  step with the loop's \<open>Epoller\<close>) and two \<open>Buffer\<close>s. The \<open>EventLoop\<close> waits in the epoller, lets
  the ready channels run their callbacks and then runs the tasks that other threads queued; its
  \<open>TimerQueue\<close> is one more channel. The \<open>HttpServer\<close> is a user of the \<open>TcpServer\<close>: for each
  message it runs the parser \<open>HttpContext\<close>, makes an \<open>HttpResponse\<close> from a file and sends it.

  Theories and the code they model.
  \<^item> \<open>Prelude\<close>: results of operations that may abort (\<open>error\<close>, \<open>bindE\<close>, \<open>assertE\<close>, \<open>foldE\<close>), the
    sizes of a 64-bit \<open>size_t\<close> and of \<open>std::string\<close>, searching in byte strings, decimal numerals.
  \<^item> \<open>Buffer\<close>: \<open>buffer.h\<close>, \<open>buffer.cpp\<close>. The record \<open>buffer\<close> is the string with its two indices.
  \<^item> \<open>Channel\<close>, \<open>Epoller\<close>: \<open>channel.*\<close>, \<open>epoller.*\<close>. Event masks are 32-bit words; a change of the
    wanted events runs through \<open>loop_update_channel\<close> to \<open>epoll_ctl\<close>.
  \<^item> \<open>Timer_Queue\<close>: \<open>timer.h\<close>, \<open>timer_queue.*\<close>. Points in time are integers in nanoseconds.
  \<^item> \<open>Event_Loop\<close>: \<open>event_loop.*\<close>. First the operations as functions on the record \<open>event_loop\<close>,
    then the loop and its other threads as the step relation \<open>loop_step\<close>, one access to shared
    state per step, with \<open>reachable\<close> the states of all interleavings and \<open>own_step\<close> the steps that
    are left to a loop when all others are silent. The loop's own thread may queue tasks before it calls
    \<open>loop\<close>, in its handlers and in its tasks; the first are counted in \<open>early\<close>, since nothing wakes the
    loop up for them (\<open>early_task_waits\<close>).
  \<^item> \<open>Thread_Pool\<close>: \<open>event_loop_thread.*\<close>, \<open>event_loop_thread_pool.*\<close>.
  \<^item> \<open>Inet_Address\<close>: \<open>inet_address.*\<close>, on a little-endian machine.
  \<^item> \<open>Http_Request\<close>, \<open>Http_Context\<close>, \<open>Http_Response\<close>, \<open>Http_Server\<close>: \<open>http/http_request.*\<close>,
    \<open>http/http_context.*\<close>, \<open>http/http_response.*\<close>, \<open>http/http_server.*\<close>. \<open>Request_Types\<close>: no code of
    its own; the shape of every request that these parsers let through.
  \<^item> \<open>Tcp_Connection\<close>: \<open>tcp_connection.*\<close> and the socket options of \<open>util.cpp\<close>. \<open>conn_step\<close> runs a
    connection on the events of its descriptor, its posted tasks and its user's calls.
  \<^item> \<open>Http_Session\<close>: no code of its own; what a peer receives for the requests it sends over one
    connection, which brings the connection, the parser and the responses together.
    \<open>Http_Service\<close>: the same for the whole server with all its clients at once.
  \<^item> \<open>Acceptor\<close>: \<open>acceptor.*\<close>. \<open>Tcp_Server\<close>: \<open>tcp_server.*\<close>; \<open>server_step\<close> runs a server with all
    its connections, in any order of their events; \<open>handle_report\<close> is the call of \<open>handle_events\<close> that
    \<open>EventLoop::loop\<close> makes for a reported connection, registered or not. A task that holds a raw \<open>this\<close> outlives its
    connection in \<open>orphans\<close>, and running it then is the error \<open>UseAfterFree\<close>.
  \<^item> \<open>Conn_Context\<close>: no code of its own; what every read of a connection finds in its context.
  \<^item> \<open>Timer_Service\<close>: no code of its own; what becomes of every timer that the loop's thread or a
    callback adds to a queue.
  \<^item> \<open>Logging\<close>: \<open>log.*\<close>, the line that a log call prints, and the error texts of \<open>util.cpp\<close>. What is
    logged by the other parts is left out of their models.
  \<^item> \<open>Main_Program\<close>: \<open>main\<close> of \<open>src/test/server_main.cpp\<close>, its options and the start of the server. A
    number of an option that is not of type \<open>int\<close> is the error \<open>UndefinedBehaviour\<close>, as for \<open>std::atoi\<close>.
  \<^item> \<open>Cross_Thread\<close>: \<open>send\<close>, \<open>shutdown\<close> and \<open>force_close\<close> called from threads other than the
    connection's, in two steps, the test of the state and what follows from it, with anything the
    server does in between.
  \<^item> \<open>Stale_Report\<close>: \<open>handle_events\<close> of a connection that an earlier handler of the same batch has closed.
  \<^item> \<open>Io_Loop\<close>: \<open>do_pending_tasks\<close> and \<open>queue_in_loop\<close> of one loop with the tasks of connections in its
    queue. \<open>Outbox\<close>: what the operations of a connection add to the queues of loops.
  \<^item> \<open>Server_Loops\<close>: the server and its connections on all their loops. In \<open>Tcp_Server\<close> the tasks of
    a connection (\<open>posted\<close>) and the removals (\<open>removals\<close>) are queues of their own; the program has one
    queue per loop, \<open>do_pending_tasks\<close> takes a queue as a whole and a round keeps alive the
    connections of its tasks until it is over. The record \<open>program\<close> is the server with these queues and
    rounds, \<open>program_step\<close> one handler, task or call on it, and \<open>abstract_server\<close> the server of
    \<open>Tcp_Server\<close> that it implements.
  \<^item> \<open>Http_Program\<close>: the HTTP server as this program, from its construction to what each client gets.
    \<open>Program_Rounds\<close>: rounds come to an end, and idle loops keep no closed connection.
    \<open>Active_Channels\<close>: the channels that \<open>Epoller::wait\<close> reports outlive their handling.
    \<open>Loop_Iterations\<close>: the code of \<open>EventLoop::loop\<close> from \<open>Event_Loop\<close>, run with the channels and
    tasks of the program, is made of the steps of \<open>Server_Loops\<close>. There the loop calls the handler of
    every channel of a \<open>wait\<close> without looking whether it is still registered; what \<open>wait\<close> reports is
    registered when it returns (\<open>waits_report\<close>), and stays so until it is handled, because handling one
    connection leaves the others alone (\<open>handling_untouched\<close>).

  What the lemmas show.
  \<^item> Buffers and parsers are related to plain byte strings: a buffer's operations act on
    \<open>contents\<close> as the operations on a queue of bytes (locale \<open>byte_queue\<close>), and \<open>parse_request\<close>
    on a buffer is \<open>parse_bytes\<close> on its contents. Requests and responses are shown to be printed
    and parsed back.
  \<^item> Channels, timers, loops, connections and the server have an invariant each (\<open>tracked\<close>,
    \<open>wf_timer_queue\<close>, \<open>loop_inv\<close>, \<open>conn_inv\<close>, \<open>server_inv\<close>), kept by every operation, from which
    it follows that their assertions hold.
  \<^item> Things do get done: pending output is sent as the kernel takes it, posted tasks run, a closed
    connection is destroyed.
  \<^item> The contracts between the parts are locales: \<open>byte_queue\<close> (buffers), \<open>loop_picker\<close> (pools),
    \<open>connection_client\<close> (what a connection asks of its callbacks), \<open>server_user\<close> (what a server
    asks of its user, which gives \<open>connection_client\<close> for each of its connections),
    \<open>http_system\<close> (the HTTP server is such a user), \<open>loop_user\<close> (callbacks that leave the
    loop's queue alone, as those of the HTTP server do) and \<open>simulation\<close> (a program whose every step
    is matched by a run of its abstraction; interpreted by the program on its loops and the server).
  \<^item> Where an error of a run comes from is shown by marking: the errors of the user's callbacks are
    replaced by a mark of one's own (\<open>marked\<close>), and a run that ends with an error then ends with the mark
    (\<open>conn_run_error\<close>, \<open>server_run_error\<close>), so that no assertion of the library has failed; for the HTTP
    server the error is the one of its parser, or of \<open>analyse\<close>, on the input of a connection of the
    run (\<open>http_run_error\<close>).
  \<^item> Where the code aborts, hangs or loses something, a theorem says exactly when.

  What is a parameter. The kernel's answers: results of \<open>write\<close>, \<open>readv\<close>, \<open>accept4\<close>, \<open>epoll_wait\<close>,
  \<open>epoll_ctl\<close>, \<open>open\<close> and \<open>fstat\<close> are arguments, and a theorem is for all of them up to the
  documented behaviour it names (\<open>kernel_ok\<close>: \<open>write\<close> takes over no more than it is given, and, which is
  an assumption, \<open>epoll_ctl\<close> does not fail: the code only logs its failure, and the next change of
  the channel can then fail an assertion, \<open>failed_add_aborts\<close> and \<open>interest_list_tracked\<close>;
  \<open>eventfd_contract\<close>: a written event descriptor is readable until it is
  read). The clock and the addresses of objects are arguments. The order in which an
  \<open>unordered_map\<close> is traversed is a function that permutes its entries (\<open>some_order\<close>).

  Bounds. There is no fuel that limits a theorem: loops over answers of the kernel recurse over
  the list of these answers, and the outcome when the list ends first is a value of its own
  (\<open>Reading\<close>, \<open>None\<close>), never an invented result. The length of a \<open>std::string\<close> is bounded by
  \<open>max_string_size\<close> (\<open>2 ^ 63 - 2\<close>, libstdc++), beyond which it throws \<open>length_error\<close>; the theorems
  about long runs carry a budget of bytes below it. \<open>printable_size\<close> is \<open>10 ^ 13\<close>: the
  body lengths that the 32 bytes given to \<open>snprintf\<close> hold.

  Not modelled. What each operation logs; \<open>noncopyable.h\<close> and the type names of \<open>callbacks.h\<close>; the unused
  \<open>HttpConnectionMetadata\<close>; the members that are declared and never defined; the tests in
  \<open>src/test\<close>. Two threads never act within one step: \<open>Event_Loop\<close> takes one access to shared state
  as a step, \<open>Cross_Thread\<close> the test and the action of a call from outside, and \<open>Server_Loops\<close> and
  \<open>Tcp_Server\<close> a whole handler, task or call, with a handler only for a channel that is registered
  (\<open>Stale_Report\<close> and \<open>Loop_Iterations\<close> have the loop that does not look). Points in time are unbounded
  integers, without the overflow of 64-bit counts of nanoseconds. The clients of \<open>Http_Session\<close>,
  \<open>Http_Service\<close> and \<open>Http_Program\<close> send GET and HEAD requests that keep the connection, and wait for
  no answer but put no two requests into one piece; other input is the subject of \<open>Http_Server\<close>. Data races on fields without a lock (\<open>state_\<close> read by
  other threads, \<open>quit_\<close>) are modelled as atomic accesses. A server that has been started does not
  survive its destructor (\<open>started_server_dtor_ends\<close>), so nothing is said of what comes after it.
\<close>

end
